(* ===== verification/Kern_Prelude.thy ===== *)
theory Kern_Prelude
  imports Main "HOL-Library.Word"
begin

unbundle bit_operations_syntax

section \<open>Prelude: machine words, outcomes of calls, bytes\<close>

text \<open>
  What the components of the kernel share: names for the C integer types, the type of the
  outcomes of a call, the little-endian reading of packed structs, counted loops, and generic
  lemmas on words and lists.  The named collections \<open>exec_simps\<close> (the sequencing of calls) and
  \<open>unat_simps\<close> (words read as natural numbers) are what the component proofs pass to \<open>simp\<close>.
\<close>

named_theorems exec_simps "sequencing of calls"
named_theorems unat_simps "words read as natural numbers"

type_synonym u8 = "8 word"
type_synonym u16 = "16 word"
type_synonym u32 = "32 word"
type_synonym u64 = "64 word"

text \<open>The typedefs and macros of kdef.h.\<close>

type_synonym phys_addr_t = u64
type_synonym blk_addr_t = u64

abbreviation PAGE_SIZE :: u64 where
  "PAGE_SIZE \<equiv> 4096"

abbreviation PHYS_ADDR_NULL :: phys_addr_t where
  "PHYS_ADDR_NULL \<equiv> 0"

subsection \<open>Outcomes of a call\<close>

text \<open>
  A C function that is called either returns, or spins for ever (a lock that is never
  released, a device that never becomes ready), or performs an access the C standard leaves
  undefined (an out-of-bounds read or write, a NULL function pointer, a division by zero).
\<close>

datatype 'a exec = Ret 'a | Spin | Fault

fun seq :: "'a exec \<Rightarrow> ('a \<Rightarrow> 'b exec) \<Rightarrow> 'b exec" where
  "seq (Ret x) f = f x"
| "seq Spin f = Spin"
| "seq Fault f = Fault"

lemma seq_cong [fundef_cong]:
  "m = m' \<Longrightarrow> (\<And>x. m' = Ret x \<Longrightarrow> f x = g x) \<Longrightarrow> seq m f = seq m' g"
  by (cases m') auto

lemma seq_Ret_iff [exec_simps]: "seq m f = Ret y \<longleftrightarrow> (\<exists>x. m = Ret x \<and> f x = Ret y)"
  by (cases m) auto

lemma seq_assoc [exec_simps]: "seq (seq m f) g = seq m (\<lambda>x. seq (f x) g)"
  by (cases m) auto

lemma seq_Ret_right [simp]: "seq m Ret = m"
  by (cases m) auto

text \<open>\<open>C_loop = None\<close> of a polling loop is a loop that never ends.\<close>

definition from_opt :: "'a option \<Rightarrow> 'a exec" where
  "from_opt x = (case x of None \<Rightarrow> Spin | Some y \<Rightarrow> Ret y)"

lemma from_opt_simps [simp]: "from_opt None = Spin" "from_opt (Some y) = Ret y"
  by (simp_all add: from_opt_def)

lemma from_opt_eq_Ret [simp]: "from_opt x = Ret y \<longleftrightarrow> x = Some y"
  by (cases x) simp_all

text \<open>
  \<open>for (;;)\<close>: the body runs until it leaves the loop with a result (\<open>Inr\<close>); \<open>Inl\<close> is the state the
  next round starts in.  A loop that is never left spins.
\<close>

partial_function (option) loop :: "('s \<Rightarrow> ('s + 'r) exec) \<Rightarrow> 's \<Rightarrow> 'r exec option" where
  "loop f s =
     (case f s of
        Ret (Inl s') \<Rightarrow> loop f s'
      | Ret (Inr r) \<Rightarrow> Some (Ret r)
      | Spin \<Rightarrow> Some Spin
      | Fault \<Rightarrow> Some Fault)"

definition forever :: "('s \<Rightarrow> ('s + 'r) exec) \<Rightarrow> 's \<Rightarrow> 'r exec" where
  "forever f s = (case loop f s of None \<Rightarrow> Spin | Some e \<Rightarrow> e)"

lemma forever_unfold: "forever f s = seq (f s) (\<lambda>x. case x of Inl s' \<Rightarrow> forever f s' | Inr r \<Rightarrow> Ret r)"
  by (cases "f s") (simp_all add: forever_def loop.simps [of f s] split: sum.splits)

lemma forever_step:
  "f s = Ret (Inl s') \<Longrightarrow> forever f s = forever f s'"
  "f s = Ret (Inr r) \<Longrightarrow> forever f s = Ret r"
  "f s = Fault \<Longrightarrow> forever f s = Fault"
  by (simp_all add: forever_unfold [of f s])

text \<open>An invariant of the loop, and what it gives of the result.\<close>

lemma forever_inv:
  fixes f :: "'s \<Rightarrow> ('s + 'r) exec"
  assumes "forever f s = Ret r" and "P s"
    and "\<And>s s'. P s \<Longrightarrow> f s = Ret (Inl s') \<Longrightarrow> P s'" and "\<And>s r. P s \<Longrightarrow> f s = Ret (Inr r) \<Longrightarrow> Q r"
  shows "Q r"
proof -
  have l: "loop f s = Some (Ret r)" using assms(1) by (simp add: forever_def split: option.splits)
  have "(\<forall>s s'. P s \<longrightarrow> f s = Ret (Inl s') \<longrightarrow> P s') \<longrightarrow> (\<forall>s r. P s \<longrightarrow> f s = Ret (Inr r) \<longrightarrow> Q r) \<longrightarrow>
      P s \<longrightarrow> (\<forall>r'. Ret r = Ret r' \<longrightarrow> Q r')"
  proof (rule loop.raw_induct [where P = "\<lambda>f s y. (\<forall>s s'. P s \<longrightarrow> f s = Ret (Inl s') \<longrightarrow> P s') \<longrightarrow>
      (\<forall>s r. P s \<longrightarrow> f s = Ret (Inr r) \<longrightarrow> Q r) \<longrightarrow> P s \<longrightarrow> (\<forall>r'. y = Ret r' \<longrightarrow> Q r')", OF _ l])
    fix rec :: "('s \<Rightarrow> ('s + 'r) exec) \<Rightarrow> 's \<Rightarrow> 'r exec option" and f :: "'s \<Rightarrow> ('s + 'r) exec" and s y
    assume IH: "\<And>f s y. rec f s = Some y \<Longrightarrow> (\<forall>s s'. P s \<longrightarrow> f s = Ret (Inl s') \<longrightarrow> P s') \<longrightarrow>
        (\<forall>s r. P s \<longrightarrow> f s = Ret (Inr r) \<longrightarrow> Q r) \<longrightarrow> P s \<longrightarrow> (\<forall>r'. y = Ret r' \<longrightarrow> Q r')"
      and eq: "(case f s of Ret (Inl s') \<Rightarrow> rec f s' | Ret (Inr r) \<Rightarrow> Some (Ret r) | Spin \<Rightarrow> Some Spin | Fault \<Rightarrow> Some Fault) = Some y"
    show "(\<forall>s s'. P s \<longrightarrow> f s = Ret (Inl s') \<longrightarrow> P s') \<longrightarrow> (\<forall>s r. P s \<longrightarrow> f s = Ret (Inr r) \<longrightarrow> Q r) \<longrightarrow>
        P s \<longrightarrow> (\<forall>r'. y = Ret r' \<longrightarrow> Q r')"
      using eq IH [of f _ y] by (fastforce split: exec.splits sum.splits)
  qed
  then show ?thesis using assms(2-4) by blast
qed

text \<open>A counted loop whose body may fail: the body is run on each element in order.\<close>

fun for_each :: "'a list \<Rightarrow> ('a \<Rightarrow> 's \<Rightarrow> 's exec) \<Rightarrow> 's \<Rightarrow> 's exec" where
  "for_each [] f s = Ret s"
| "for_each (x # xs) f s = seq (f x s) (for_each xs f)"

lemma for_each_append: "for_each (xs @ ys) f s = seq (for_each xs f s) (for_each ys f)"
proof (induction xs arbitrary: s)
  case Nil
  show ?case by simp
next
  case (Cons x xs)
  have "for_each (xs @ ys) f = (\<lambda>t. seq (for_each xs f t) (for_each ys f))"
    by (rule ext) (rule Cons.IH)
  then show ?case by (simp add: seq_assoc)
qed

lemma for_each_inv:
  assumes "for_each xs f s = Ret t" and "P s"
    and "\<And>x u v. x \<in> set xs \<Longrightarrow> P u \<Longrightarrow> f x u = Ret v \<Longrightarrow> P v"
  shows "P t"
  using assms by (induction xs arbitrary: s) (auto simp: exec_simps)

lemma for_each_total:
  assumes "P s" and "\<And>x u. x \<in> set xs \<Longrightarrow> P u \<Longrightarrow> \<exists>v. f x u = Ret v \<and> P v"
  shows "\<exists>t. for_each xs f s = Ret t \<and> P t"
  using assms
proof (induction xs arbitrary: s)
  case Nil
  then show ?case by simp
next
  case (Cons x xs)
  then obtain v where "f x s = Ret v" "P v" by (meson list.set_intros(1))
  with Cons show ?case by auto
qed

subsection \<open>Little-endian fields of packed structs\<close>

fun le_nat :: "u8 list \<Rightarrow> nat" where
  "le_nat [] = 0"
| "le_nat (b # bs) = unat b + 256 * le_nat bs"

lemma le_nat_bound: "le_nat bs < 256 ^ length bs"
proof (induction bs)
  case Nil
  then show ?case by simp
next
  case (Cons b bs)
  have "unat b < 256" using unsigned_less [of b] by simp
  moreover have "256 * le_nat bs + 256 \<le> 256 * 256 ^ length bs"
    using Cons.IH by simp
  ultimately show ?case by simp
qed

definition rd8 :: "u8 list \<Rightarrow> nat \<Rightarrow> u8" where
  "rd8 buf off = buf ! off"

definition rd16 :: "u8 list \<Rightarrow> nat \<Rightarrow> u16" where
  "rd16 buf off = of_nat (le_nat (take 2 (drop off buf)))"

definition rd32 :: "u8 list \<Rightarrow> nat \<Rightarrow> u32" where
  "rd32 buf off = of_nat (le_nat (take 4 (drop off buf)))"

lemma unat_rd16: "unat (rd16 buf off) = le_nat (take 2 (drop off buf))"
proof -
  have "le_nat (take 2 (drop off buf)) < 256 ^ length (take 2 (drop off buf))"
    by (rule le_nat_bound)
  also have "\<dots> \<le> 256 ^ 2" by (rule power_increasing) auto
  finally show ?thesis by (simp add: rd16_def unat_of_nat)
qed

lemma unat_rd32: "unat (rd32 buf off) = le_nat (take 4 (drop off buf))"
proof -
  have "le_nat (take 4 (drop off buf)) < 256 ^ length (take 4 (drop off buf))"
    by (rule le_nat_bound)
  also have "\<dots> \<le> 256 ^ 4" by (rule power_increasing) auto
  finally show ?thesis by (simp add: rd32_def unat_of_nat)
qed

subsection \<open>Words\<close>

lemma unat_of_nat_u64 [unat_simps]: "n < 2 ^ 64 \<Longrightarrow> unat (of_nat n :: u64) = n"
  by (simp add: unat_of_nat)

lemma unat_add_u64 [unat_simps]:
  "unat x + unat y < 2 ^ 64 \<Longrightarrow> unat (x + y :: u64) = unat x + unat y"
  by (simp add: unat_word_ariths)

lemma unat_sub_u64 [unat_simps]: "y \<le> x \<Longrightarrow> unat (x - y :: u64) = unat x - unat y"
  by (simp add: unat_sub)

lemma unat_mult_u64 [unat_simps]:
  "unat x * unat y < 2 ^ 64 \<Longrightarrow> unat (x * y :: u64) = unat x * unat y"
  by (simp add: unat_word_ariths)

lemma u64_eq_iff_unat: "x = y \<longleftrightarrow> unat x = unat (y :: u64)"
  by (simp add: word_unat_eq_iff)

lemma unat_u64_bound: "unat (x :: u64) < 2 ^ 64"
  using unsigned_less [of x] by simp

lemma quot_rem: "r < b \<Longrightarrow> (r + q * b) div b = q \<and> (r + q * b) mod b = (r :: nat)"
  by (simp add: div_add1_eq)

lemma unat_ucast_u32: "unat (ucast (i :: u32) :: u64) = unat i"
proof -
  have "unat i < 2 ^ 32" using unsigned_less [of i] by simp
  then have "unat i < 2 ^ 64" by simp
  then show ?thesis unfolding unsigned_ucast_eq by (simp add: take_bit_nat_eq_self)
qed

lemma ucast_ucast_u8: "ucast (ucast (v :: u8) :: u64) = v"
  by (rule bit_word_eqI) (auto simp: bit_simps)

text \<open>\<open>addr & ~(PAGE_SIZE - 1)\<close>: rounding an address down to its page.\<close>

definition page_align :: "u64 \<Rightarrow> u64" where
  "page_align addr = addr AND NOT (PAGE_SIZE - 1)"

lemma u64_and_not_mask:
  "n < 64 \<Longrightarrow> (x :: u64) AND NOT (mask n) = push_bit n (drop_bit n x)"
  by (rule bit_word_eqI) (auto simp: bit_simps)

lemma unat_and_not_mask:
  assumes "n < 64"
  shows "unat ((x :: u64) AND NOT (mask n)) = unat x div 2 ^ n * 2 ^ n"
proof -
  have "unat (push_bit n (drop_bit n x)) = take_bit 64 (push_bit n (drop_bit n (unat x)))"
    by (simp only: unsigned_push_bit_eq unat_drop_bit_eq) simp
  also have "\<dots> = take_bit 64 (unat x div 2 ^ n * 2 ^ n)"
    by (simp only: drop_bit_eq_div push_bit_eq_mult)
  also have "take_bit 64 (unat x div 2 ^ n * 2 ^ n) = unat x div 2 ^ n * 2 ^ n"
    using unat_u64_bound [of x] div_times_less_eq_dividend [of "unat x" "2 ^ n"]
    by (intro take_bit_nat_eq_self) linarith
  finally show ?thesis using assms by (simp add: u64_and_not_mask)
qed

lemma mask_12: "(PAGE_SIZE - 1) = mask 12"
  by (simp add: mask_eq_exp_minus_1)

lemma unat_page_align [unat_simps]: "unat (page_align a) = unat a div 4096 * 4096"
  using unat_and_not_mask [of 12 a] by (simp add: page_align_def flip: mask_12)

lemma page_align_idem [simp]: "page_align (page_align a) = page_align a"
  by (simp add: u64_eq_iff_unat unat_simps)

lemma page_align_eq_iff: "page_align a = a \<longleftrightarrow> 4096 dvd unat a"
  by (auto simp: u64_eq_iff_unat unat_simps dvd_div_mult_self intro: dvdI [of _ _ "unat a div 4096"])

text \<open>The addresses the processor accepts.\<close>

definition canonical :: "u64 \<Rightarrow> bool" where
  "canonical v \<longleftrightarrow> unat v < 2 ^ 47 \<or> 2 ^ 64 - 2 ^ 47 \<le> unat v"

end
