(* ===== verification/Katomic.thy ===== *)
theory Katomic
  imports Kern_Prelude
begin

section \<open>Mutexes (katomic.c, aatomic.S)\<close>

text \<open>
  A mutex is one byte, 0 when free and 1 when held.  Locking and unlocking are loops around
  \<open>lock cmpxchgb\<close>.  The first part follows the assembly as a sequential program, in which the
  loop never ends on a byte nobody else changes; this is what the other components call.  The
  second part runs any number of processors against one byte, each in the middle of its own
  loop, and shows mutual exclusion and that a holder's unlock never has to retry.
\<close>

type_synonym k_mutex_t = u8

text \<open>
  \<open>cmpxchgb [rdi], src\<close> with \<open>al\<close> as accumulator: the zero flag and the byte afterwards.
\<close>

definition cmpxchg :: "u8 \<Rightarrow> u8 \<Rightarrow> u8 \<Rightarrow> bool \<times> u8" where
  "cmpxchg mem al src = (if mem = al then (True, src) else (False, mem))"

partial_function (option) aatomic_set :: "u8 \<Rightarrow> u8 option" where
  "aatomic_set m = (case cmpxchg m 0 1 of (zf, m') \<Rightarrow> if zf then Some m' else aatomic_set m')"

partial_function (option) aatomic_clr :: "u8 \<Rightarrow> u8 option" where
  "aatomic_clr m = (case cmpxchg m 1 0 of (zf, m') \<Rightarrow> if zf then Some m' else aatomic_clr m')"

definition k_mutex_lock :: "k_mutex_t \<Rightarrow> k_mutex_t exec" where
  "k_mutex_lock m = from_opt (aatomic_set m)"

definition k_mutex_unlock :: "k_mutex_t \<Rightarrow> k_mutex_t exec" where
  "k_mutex_unlock m = from_opt (aatomic_clr m)"

lemma aatomic_set_free [simp]: "aatomic_set 0 = Some 1"
  by (simp add: aatomic_set.simps cmpxchg_def)

lemma aatomic_clr_held [simp]: "aatomic_clr 1 = Some 0"
  by (simp add: aatomic_clr.simps cmpxchg_def)

lemma aatomic_set_Some: "aatomic_set m = Some r \<Longrightarrow> m = 0 \<and> r = 1"
proof (rule aatomic_set.raw_induct [where P = "\<lambda>m r. m = 0 \<and> r = 1"])
  fix f m r
  assume IH: "\<And>m r. f m = Some r \<Longrightarrow> m = 0 \<and> r = 1"
    and eq: "(case cmpxchg m 0 1 of (zf, m') \<Rightarrow> if zf then Some m' else f m') = Some r"
  show "m = 0 \<and> r = 1"
    using eq by (auto simp: cmpxchg_def split: if_splits dest: IH)
qed

lemma aatomic_clr_Some: "aatomic_clr m = Some r \<Longrightarrow> m = 1 \<and> r = 0"
proof (rule aatomic_clr.raw_induct [where P = "\<lambda>m r. m = 1 \<and> r = 0"])
  fix f m r
  assume IH: "\<And>m r. f m = Some r \<Longrightarrow> m = 1 \<and> r = 0"
    and eq: "(case cmpxchg m 1 0 of (zf, m') \<Rightarrow> if zf then Some m' else f m') = Some r"
  show "m = 1 \<and> r = 0"
    using eq by (auto simp: cmpxchg_def split: if_splits dest: IH)
qed

lemma k_mutex_lock_free [simp]: "k_mutex_lock 0 = Ret 1"
  by (simp add: k_mutex_lock_def)

lemma k_mutex_unlock_held [simp]: "k_mutex_unlock 1 = Ret 0"
  by (simp add: k_mutex_unlock_def)

lemma k_mutex_lock_held [simp]: "m \<noteq> 0 \<Longrightarrow> k_mutex_lock m = Spin"
  by (cases "aatomic_set m") (auto simp: k_mutex_lock_def dest: aatomic_set_Some)

lemma k_mutex_unlock_free [simp]: "m \<noteq> 1 \<Longrightarrow> k_mutex_unlock m = Spin"
  by (cases "aatomic_clr m") (auto simp: k_mutex_unlock_def dest: aatomic_clr_Some)

lemma k_mutex_lock_Ret [exec_simps]: "k_mutex_lock m = Ret m' \<longleftrightarrow> m = 0 \<and> m' = 1"
  by (cases "m = 0") auto

lemma k_mutex_unlock_Ret [exec_simps]: "k_mutex_unlock m = Ret m' \<longleftrightarrow> m = 1 \<and> m' = 0"
  by (cases "m = 1") auto

subsection \<open>Processors competing for one mutex\<close>

text \<open>
  Where a processor stands: outside, in the \<open>aatomic_set\<close> loop, past it, or in the
  \<open>aatomic_clr\<close> loop.  A step is one \<open>lock cmpxchgb\<close> (atomic on the bus) or the start of a
  call; a failed exchange stays in its loop.
\<close>

datatype cpu_pc = Outside | Setting | Holding | Clearing

record mtx_sys =
  mtx_byte :: u8
  mtx_pc :: "nat \<Rightarrow> cpu_pc"

definition mtx_init :: mtx_sys where
  "mtx_init = \<lparr>mtx_byte = 0, mtx_pc = (\<lambda>_. Outside)\<rparr>"

inductive mtx_step :: "mtx_sys \<Rightarrow> mtx_sys \<Rightarrow> bool" where
  call_lock: "mtx_pc s i = Outside \<Longrightarrow> mtx_step s (s\<lparr>mtx_pc := (mtx_pc s)(i := Setting)\<rparr>)"
| try_set: "mtx_pc s i = Setting \<Longrightarrow> cmpxchg (mtx_byte s) 0 1 = (zf, b) \<Longrightarrow>
    mtx_step s (s\<lparr>mtx_byte := b, mtx_pc := (mtx_pc s)(i := if zf then Holding else Setting)\<rparr>)"
| call_unlock: "mtx_pc s i = Holding \<Longrightarrow> mtx_step s (s\<lparr>mtx_pc := (mtx_pc s)(i := Clearing)\<rparr>)"
| try_clr: "mtx_pc s i = Clearing \<Longrightarrow> cmpxchg (mtx_byte s) 1 0 = (zf, b) \<Longrightarrow>
    mtx_step s (s\<lparr>mtx_byte := b, mtx_pc := (mtx_pc s)(i := if zf then Outside else Clearing)\<rparr>)"

inductive_cases mtx_stepE: "mtx_step s t"

inductive mtx_reachable :: "mtx_sys \<Rightarrow> bool" where
  mtx_start: "mtx_reachable mtx_init"
| mtx_next: "mtx_reachable s \<Longrightarrow> mtx_step s t \<Longrightarrow> mtx_reachable t"

text \<open>The processors inside: between the end of their lock and the end of their unlock.\<close>

definition mtx_inside :: "mtx_sys \<Rightarrow> nat set" where
  "mtx_inside s = {i. mtx_pc s i \<in> {Holding, Clearing}}"

text \<open>The byte is 0 with nobody inside, or 1 with exactly one processor inside.\<close>

definition mtx_inv :: "mtx_sys \<Rightarrow> bool" where
  "mtx_inv s \<longleftrightarrow>
     mtx_byte s = 0 \<and> mtx_inside s = {} \<or> mtx_byte s = 1 \<and> (\<exists>i. mtx_inside s = {i})"

lemma mtx_inside_move:
  "mtx_inside (s\<lparr>mtx_byte := b, mtx_pc := (mtx_pc s)(i := p)\<rparr>) =
     (if p \<in> {Holding, Clearing} then insert i (mtx_inside s) else mtx_inside s - {i})"
  "mtx_inside (s\<lparr>mtx_pc := (mtx_pc s)(i := p)\<rparr>) =
     (if p \<in> {Holding, Clearing} then insert i (mtx_inside s) else mtx_inside s - {i})"
  by (auto simp: mtx_inside_def)

lemma mtx_inside_iff: "i \<in> mtx_inside s \<longleftrightarrow> mtx_pc s i = Holding \<or> mtx_pc s i = Clearing"
  by (auto simp: mtx_inside_def)

lemma mtx_inv_init: "mtx_inv mtx_init"
  by (simp add: mtx_inv_def mtx_init_def mtx_inside_def)

lemma mtx_step_inv: "mtx_step s t \<Longrightarrow> mtx_inv s \<Longrightarrow> mtx_inv t"
proof (induction rule: mtx_step.induct)
  case (call_lock s i)
  then have "i \<notin> mtx_inside s" by (simp add: mtx_inside_iff)
  with call_lock show ?case by (simp add: mtx_inv_def mtx_inside_move)
next
  case (try_set s i zf b)
  then have "i \<notin> mtx_inside s" by (simp add: mtx_inside_iff)
  with try_set show ?case
    by (cases "mtx_byte s = 0") (auto simp: mtx_inv_def mtx_inside_move cmpxchg_def)
next
  case (call_unlock s i)
  then have "i \<in> mtx_inside s" by (simp add: mtx_inside_iff)
  with call_unlock show ?case by (auto simp: mtx_inv_def mtx_inside_move)
next
  case (try_clr s i zf b)
  then have "i \<in> mtx_inside s" by (simp add: mtx_inside_iff)
  with try_clr show ?case
    by (auto simp: mtx_inv_def mtx_inside_move cmpxchg_def)
qed

lemma mtx_reachable_inv: "mtx_reachable s \<Longrightarrow> mtx_inv s"
  by (induction rule: mtx_reachable.induct) (auto intro: mtx_inv_init mtx_step_inv)

subsection \<open>Properties\<close>

text \<open>
  C11: mutual exclusion: in every reachable state of any number of processors running the two
  loops on one byte, at most one is past its lock and not yet through its unlock.
\<close>
theorem mutex_exclusion:
  assumes "mtx_reachable s" and "i \<in> mtx_inside s" and "j \<in> mtx_inside s"
  shows "i = j"
  using mtx_reachable_inv [OF assms(1)] assms(2,3) by (auto simp: mtx_inv_def)

lemma mtx_reach_hold:
  "mtx_reachable \<lparr>mtx_byte = 1, mtx_pc = (\<lambda>_. Outside)(7 := Holding)\<rparr>"
proof -
  let ?a = "mtx_init\<lparr>mtx_pc := (mtx_pc mtx_init)(7 := Setting)\<rparr>"
  have a: "mtx_reachable ?a"
    by (rule mtx_next [OF mtx_start]) (rule call_lock, simp add: mtx_init_def)
  have "mtx_reachable (?a\<lparr>mtx_byte := 1, mtx_pc := (mtx_pc ?a)(7 := if True then Holding else Setting)\<rparr>)"
    by (rule mtx_next [OF a], rule try_set) (simp_all add: mtx_init_def cmpxchg_def)
  then show ?thesis by (simp add: mtx_init_def)
qed

theorem mutex_exclusion_witness:
  "\<exists>s. mtx_reachable s \<and> (7 :: nat) \<in> mtx_inside s"
proof -
  let ?s = "\<lparr>mtx_byte = 1, mtx_pc = (\<lambda>_. Outside)(7 := Holding)\<rparr>"
  have i: "7 \<in> mtx_inside ?s" by (simp add: mtx_inside_iff)
  have "(7 :: nat) = 7" by (rule mutex_exclusion [OF mtx_reach_hold i i])
  with i mtx_reach_hold show ?thesis by blast
qed

text \<open>
  The loops make progress: in every reachable state a processor that is unlocking succeeds at
  its first \<open>cmpxchg\<close> and frees the byte, and while nobody is inside, a processor that is locking
  succeeds at its next one.
\<close>
theorem mutex_progress:
  assumes "mtx_reachable s"
  shows "(mtx_pc s i = Clearing \<longrightarrow> cmpxchg (mtx_byte s) 1 0 = (True, 0)) \<and>
    (mtx_inside s = {} \<longrightarrow> cmpxchg (mtx_byte s) 0 1 = (True, 1))"
proof -
  have "mtx_byte s = 1" if "mtx_pc s i = Clearing"
    using that mtx_reachable_inv [OF assms] mtx_inside_iff [of i s] by (auto simp: mtx_inv_def)
  moreover have "mtx_byte s = 0" if "mtx_inside s = {}"
    using that mtx_reachable_inv [OF assms] by (auto simp: mtx_inv_def)
  ultimately show ?thesis by (simp add: cmpxchg_def)
qed

theorem mutex_progress_witness:
  "cmpxchg (mtx_byte mtx_init) 0 1 = (True, 1)"
  using mutex_progress [OF mtx_start, of 0] by (simp add: mtx_inside_def mtx_init_def)

end
