(* ===== verification/Mem_Layout.thy ===== *)
theory Mem_Layout
  imports Kern_Prelude
begin

section \<open>The memory layout (mem_layout.c)\<close>

text \<open>
  \<open>meml_init\<close> filters the bootloader's memory map into a static table of at most
  \<open>MEML_MAX_ENTS\<close> usable regions.  The memory map (the response of the bootloader, code that is
  not in the repository) is a parameter: a list of entries with a base, a length and a type.
\<close>

abbreviation MEML_MAX_ENTS :: nat where
  "MEML_MAX_ENTS \<equiv> 32"

record meml_ent =
  me_base :: phys_addr_t
  me_size :: u64

datatype memmap_type = MM_Usable | MM_Other

record memmap_entry =
  mm_base :: u64
  mm_length :: u64
  mm_type :: memmap_type

text \<open>
  The loop \<open>for (i = 0; i < resp_ent_cnt && ml_size < MEML_MAX_ENTS; ++i)\<close>: \<open>ents\<close> is the
  table filled so far.
\<close>

fun meml_scan :: "memmap_entry list \<Rightarrow> meml_ent list \<Rightarrow> meml_ent list" where
  "meml_scan [] ents = ents"
| "meml_scan (e # es) ents =
     (if length ents < MEML_MAX_ENTS then
        (if mm_type e \<noteq> MM_Usable \<or> mm_length e < 0x10 * PAGE_SIZE then meml_scan es ents
         else meml_scan es (ents @ [\<lparr>me_base = mm_base e, me_size = mm_length e\<rparr>]))
      else ents)"

text \<open>\<open>meml_init\<close>: the return code and the table (what \<open>meml_get\<close> hands out).\<close>

definition meml_init :: "memmap_entry list \<Rightarrow> int \<times> meml_ent list" where
  "meml_init resp = (let ents = meml_scan resp [] in (if ents = [] then 1 else 0, ents))"

definition meml_get :: "meml_ent list \<Rightarrow> meml_ent list \<times> nat" where
  "meml_get ents = (ents, length ents)"

text \<open>The entries the loop keeps, as a filter.\<close>

definition mm_keep :: "memmap_entry \<Rightarrow> bool" where
  "mm_keep e \<longleftrightarrow> mm_type e = MM_Usable \<and> 0x10 * PAGE_SIZE \<le> mm_length e"

definition ent_of :: "memmap_entry \<Rightarrow> meml_ent" where
  "ent_of e = \<lparr>me_base = mm_base e, me_size = mm_length e\<rparr>"

lemma meml_scan_filter:
  "length ents \<le> MEML_MAX_ENTS \<Longrightarrow>
   meml_scan es ents = take MEML_MAX_ENTS (ents @ map ent_of (filter mm_keep es))"
proof (induction es arbitrary: ents)
  case Nil
  then show ?case by simp
next
  case (Cons e es)
  show ?case
  proof (cases "length ents < MEML_MAX_ENTS")
    case True
    with Cons.IH [of ents] Cons.IH [of "ents @ [ent_of e]"] show ?thesis
      by (auto simp: mm_keep_def ent_of_def not_less not_le)
  next
    case False
    with Cons.prems show ?thesis by simp
  qed
qed

text \<open>
  \<open>meml_init\<close> keeps, in order, the first 32 usable entries of at least 16 pages, and fails
  exactly when the memory map has none.
\<close>
theorem meml_init_filters:
  "meml_init resp =
     (if filter mm_keep resp = [] then 1 else 0, take MEML_MAX_ENTS (map ent_of (filter mm_keep resp)))"
  by (simp add: meml_init_def Let_def meml_scan_filter)

end
