(* ===== verification/Frame_Allocator.thy ===== *)
theory Frame_Allocator
  imports Kern_Prelude
begin

section \<open>The interface of the page frame allocator\<close>

text \<open>
  What the page tables and the kernel heap rely on when they call \<open>pmm_alloc\<close>, stated over an
  abstract set \<open>avail\<close> of the frames that may still be handed out.  \<open>frame_source\<close> is the
  allocation half, \<open>frame_allocator\<close> adds freeing.  Pmm interprets both on its own operations.
\<close>

locale frame_source =
  fixes alloc :: "'s \<Rightarrow> (phys_addr_t \<times> 's) exec"
    and ok :: "'s \<Rightarrow> bool"
    and avail :: "'s \<Rightarrow> phys_addr_t set"
    and managed :: "'s \<Rightarrow> phys_addr_t set"
  assumes alloc_law: "ok s \<Longrightarrow> \<exists>a s'. alloc s = Ret (a, s') \<and> ok s' \<and> managed s' = managed s \<and>
      (if avail s = {} then a = 0 \<and> avail s' = {} else a \<in> avail s \<and> avail s' = avail s - {a})"
    and avail_managed: "ok s \<Longrightarrow> avail s \<subseteq> managed s"
    and managed_frame: "ok s \<Longrightarrow> a \<in> managed s \<Longrightarrow> a \<noteq> 0 \<and> page_align a = a"
begin

lemma alloc_some:
  assumes "ok s" and "avail s \<noteq> {}"
  obtains a s' where "alloc s = Ret (a, s')" "ok s'" "managed s' = managed s" "a \<in> avail s"
    "avail s' = avail s - {a}" "a \<noteq> 0" "page_align a = a"
proof -
  from alloc_law [OF assms(1)] assms(2) obtain a s' where
    "alloc s = Ret (a, s')" "ok s'" "managed s' = managed s" "a \<in> avail s" "avail s' = avail s - {a}"
    by auto
  moreover have "a \<noteq> 0 \<and> page_align a = a"
    using \<open>a \<in> avail s\<close> managed_frame [OF assms(1)] avail_managed [OF assms(1)] by blast
  ultimately show ?thesis using that by blast
qed

lemma alloc_none: "ok s \<Longrightarrow> avail s = {} \<Longrightarrow> \<exists>s'. alloc s = Ret (0, s') \<and> ok s' \<and> avail s' = {}"
  using alloc_law [of s] by fastforce

lemma alloc_Ret:
  assumes "ok s" and "alloc s = Ret (a, s')"
  shows "ok s'" and "managed s' = managed s" and "avail s' = avail s - {a}"
    and "a \<noteq> 0 \<longleftrightarrow> a \<in> avail s" and "a \<noteq> 0 \<longleftrightarrow> avail s \<noteq> {}" and "page_align a = a"
proof -
  from alloc_law [OF assms(1)] assms(2)
  have law: "ok s' \<and> managed s' = managed s \<and>
      (if avail s = {} then a = 0 \<and> avail s' = {} else a \<in> avail s \<and> avail s' = avail s - {a})"
    by auto
  moreover have "0 \<notin> avail s"
    using managed_frame [OF assms(1)] avail_managed [OF assms(1)] by blast
  moreover have "page_align (0 :: u64) = 0" by (simp add: page_align_def)
  ultimately show "ok s'" "managed s' = managed s" "avail s' = avail s - {a}"
    "a \<noteq> 0 \<longleftrightarrow> a \<in> avail s" "a \<noteq> 0 \<longleftrightarrow> avail s \<noteq> {}" "page_align a = a"
    using managed_frame [OF assms(1), of a] avail_managed [OF assms(1)]
    by (auto split: if_splits)
qed

end

locale frame_allocator = frame_source +
  fixes free :: "phys_addr_t \<Rightarrow> 'a \<Rightarrow> 'a exec"
  assumes free_law: "ok s \<Longrightarrow> a \<in> managed s \<Longrightarrow> a \<notin> avail s \<Longrightarrow>
      \<exists>s'. free a s = Ret s' \<and> ok s' \<and> managed s' = managed s \<and> avail s' = insert a (avail s)"

text \<open>
  A client of the allocator: it takes frames and gives back frames it owns.  \<open>owned\<close> is the set
  of the frames it holds.
\<close>

datatype frame_op = Take | Give phys_addr_t

fun run_frames :: "('s \<Rightarrow> (phys_addr_t \<times> 's) exec) \<Rightarrow> (phys_addr_t \<Rightarrow> 's \<Rightarrow> 's exec) \<Rightarrow>
    frame_op list \<Rightarrow> 's \<Rightarrow> phys_addr_t set \<Rightarrow> ('s \<times> phys_addr_t set) exec" where
  "run_frames alloc free [] s owned = Ret (s, owned)"
| "run_frames alloc free (Take # ops) s owned =
     seq (alloc s) (\<lambda>(a, s'). run_frames alloc free ops s' (if a = 0 then owned else insert a owned))"
| "run_frames alloc free (Give a # ops) s owned =
     (if a \<in> owned then seq (free a s) (\<lambda>s'. run_frames alloc free ops s' (owned - {a}))
      else run_frames alloc free ops s owned)"

context frame_allocator
begin

lemma run_frames_conserve:
  "ok s \<Longrightarrow> owned \<subseteq> managed s \<Longrightarrow> owned \<inter> avail s = {} \<Longrightarrow>
   \<exists>s' owned'. run_frames alloc free ops s owned = Ret (s', owned') \<and> ok s' \<and>
     owned' \<inter> avail s' = {} \<and> owned' \<union> avail s' = owned \<union> avail s"
proof (induction ops arbitrary: s owned)
  case Nil
  then show ?case by simp
next
  case (Cons op ops)
  show ?case
  proof (cases op)
    case Take
    obtain a s1 where a: "alloc s = Ret (a, s1)" using alloc_law [OF Cons.prems(1)] by blast
    note law = alloc_Ret [OF Cons.prems(1) a]
    let ?o = "if a = 0 then owned else insert a owned"
    have "?o \<subseteq> managed s1" "?o \<inter> avail s1 = {}" "?o \<union> avail s1 = owned \<union> avail s"
      using law Cons.prems avail_managed [OF Cons.prems(1)] by (auto split: if_splits)
    with Cons.IH [of s1 ?o] law(1) Take a show ?thesis by auto
  next
    case (Give a)
    show ?thesis
    proof (cases "a \<in> owned")
      case True
      with Cons.prems obtain s1 where f: "free a s = Ret s1" "ok s1" "managed s1 = managed s"
        "avail s1 = insert a (avail s)" using free_law [of s a] by blast
      have pre: "owned - {a} \<subseteq> managed s1" "(owned - {a}) \<inter> avail s1 = {}"
        using f Cons.prems by auto
      have "owned - {a} \<union> avail s1 = owned \<union> avail s" using True f(4) by auto
      then show ?thesis using Cons.IH [OF f(2) pre] True Give f(1) by simp
    next
      case False
      with Give Cons show ?thesis by simp
    qed
  qed
qed

end

end
