(* ===== verification/Pmm.thy ===== *)
theory Pmm
  imports Katomic Mem_Layout Frame_Allocator
begin

section \<open>The physical memory manager (pmm.c)\<close>

text \<open>
  One bitmap per region of the memory layout (a bit per page frame, set when the frame is not
  free), and a stack of at most \<open>PAGE_STK_CAP\<close> frames that \<open>pmm_alloc\<close> pops and that
  \<open>bm_feed_stk\<close> refills from the bitmaps.  The bytes at the pointer \<open>data\<close> of a bitmap are a
  function from the byte's index; \<open>page_stk\<close> lists the array with its top first.
\<close>

abbreviation PAGE_STK_CAP :: nat where
  "PAGE_STK_CAP \<equiv> 256"

record bitmap =
  bm_base :: phys_addr_t
  bm_data :: "nat \<Rightarrow> u8"
  bm_npage :: nat
  bm_first_free :: nat

record pmm =
  page_bms :: "bitmap list"
  page_stk :: "phys_addr_t list"
  pmm_mutex :: k_mutex_t

subsection \<open>The operations\<close>

text \<open>\<open>data[byte] & 1 << bit\<close>, \<open>data[byte] |= 1 << bit\<close>, \<open>data[byte] &= ~(1 << bit)\<close>.\<close>

definition bm_test :: "bitmap \<Rightarrow> nat \<Rightarrow> bool" where
  "bm_test bm j = (bm_data bm (j div 8) AND push_bit (j mod 8) 1 \<noteq> 0)"

definition bm_set :: "bitmap \<Rightarrow> nat \<Rightarrow> bitmap" where
  "bm_set bm j = bm\<lparr>bm_data := (bm_data bm)(j div 8 := bm_data bm (j div 8) OR push_bit (j mod 8) 1)\<rparr>"

definition bm_clear :: "bitmap \<Rightarrow> nat \<Rightarrow> bitmap" where
  "bm_clear bm j =
     bm\<lparr>bm_data := (bm_data bm)(j div 8 := bm_data bm (j div 8) AND NOT (push_bit (j mod 8) 1))\<rparr>"

text \<open>\<open>bm->base + PAGE_SIZE * j\<close>.\<close>

definition bm_frame :: "bitmap \<Rightarrow> nat \<Rightarrow> phys_addr_t" where
  "bm_frame bm j = bm_base bm + PAGE_SIZE * of_nat j"

function bm_find_first_free :: "bitmap \<Rightarrow> nat \<Rightarrow> nat" where
  "bm_find_first_free bm free =
     (if free < bm_npage bm \<and> bm_test bm free then bm_find_first_free bm (Suc free) else free)"
  by pat_completeness auto
termination
  by (relation "measure (\<lambda>(bm, free). bm_npage bm - free)") auto

declare bm_find_first_free.simps [simp del]

text \<open>
  The inner loop of \<open>bm_feed_stk\<close> over the pages \<open>j\<close> of one bitmap, with its early exit when the
  stack is full, and the whole of \<open>bm_feed_stk\<close> over the bitmaps.
\<close>

function feed_pages :: "bitmap \<Rightarrow> phys_addr_t list \<Rightarrow> nat \<Rightarrow> bitmap \<times> phys_addr_t list" where
  "feed_pages bm stk j =
     (if j < bm_npage bm then
        (let (bm', stk') =
           (if \<not> bm_test bm j then (bm_set bm j, bm_frame bm j # stk) else (bm, stk))
         in if length stk' \<ge> PAGE_STK_CAP then (bm', stk') else feed_pages bm' stk' (Suc j))
      else (bm, stk))"
  by pat_completeness auto
termination
  by (relation "measure (\<lambda>(bm, stk, j). bm_npage bm - j)")
     (auto simp: bm_set_def split: if_splits)

declare feed_pages.simps [simp del]

definition feed_bm :: "bitmap \<Rightarrow> phys_addr_t list \<Rightarrow> bitmap \<times> phys_addr_t list" where
  "feed_bm bm stk =
     (let (bm', stk') = feed_pages bm stk (bm_first_free bm)
      in (bm'\<lparr>bm_first_free := bm_find_first_free bm' (bm_first_free bm' + 1)\<rparr>, stk'))"

fun bm_feed_stk :: "bitmap list \<Rightarrow> phys_addr_t list \<Rightarrow> bitmap list \<times> phys_addr_t list" where
  "bm_feed_stk [] stk = ([], stk)"
| "bm_feed_stk (bm # bms) stk =
     (if length stk < PAGE_STK_CAP then
        (let (bm', stk') = feed_bm bm stk; (bms', stk'') = bm_feed_stk bms stk'
         in (bm' # bms', stk''))
      else (bm # bms, stk))"

text \<open>
  \<open>pmm_init\<close>: the bitmap of a region lies in the region's first pages.  Its bytes are whatever
  physical memory \<open>mem\<close> holds there: the code does not clear them.
\<close>

definition npage_bm :: "u64 \<Rightarrow> u64" where
  "npage_bm npage_total = 1 + (7 * npage_total div 8 - 1) div PAGE_SIZE"

definition bm_init :: "(u64 \<Rightarrow> u8) \<Rightarrow> meml_ent \<Rightarrow> bitmap" where
  "bm_init mem e =
     (let npage_total = me_size e div PAGE_SIZE; nbm = npage_bm npage_total in
      \<lparr>bm_base = me_base e + PAGE_SIZE * nbm,
       bm_data = (\<lambda>k. mem (me_base e + of_nat k)),
       bm_npage = unat (npage_total - nbm),
       bm_first_free = 0\<rparr>)"

definition pmm_init :: "(u64 \<Rightarrow> u8) \<Rightarrow> meml_ent list \<Rightarrow> pmm" where
  "pmm_init mem ents =
     (let (bms, stk) = bm_feed_stk (map (bm_init mem) ents) []
      in \<lparr>page_bms = bms, page_stk = stk, pmm_mutex = 0\<rparr>)"

text \<open>\<open>bm->base <= addr && addr < bm->base + PAGE_SIZE * bm->npage\<close>, and the search for it.\<close>

definition bm_covers :: "bitmap \<Rightarrow> phys_addr_t \<Rightarrow> bool" where
  "bm_covers bm addr \<longleftrightarrow>
     bm_base bm \<le> addr \<and> addr < bm_base bm + PAGE_SIZE * of_nat (bm_npage bm)"

fun find_bm :: "bitmap list \<Rightarrow> phys_addr_t \<Rightarrow> nat option" where
  "find_bm [] addr = None"
| "find_bm (bm # bms) addr =
     (if bm_covers bm addr then Some 0 else map_option Suc (find_bm bms addr))"

definition bm_ind :: "bitmap \<Rightarrow> phys_addr_t \<Rightarrow> nat" where
  "bm_ind bm addr = unat ((addr - bm_base bm) div PAGE_SIZE)"

definition pmm_avl :: "phys_addr_t \<Rightarrow> pmm \<Rightarrow> (bool \<times> pmm) exec" where
  "pmm_avl addr s =
     seq (k_mutex_lock (pmm_mutex s)) (\<lambda>m.
     let addr = page_align addr in
     (case find_bm (page_bms s) addr of
        None \<Rightarrow> seq (k_mutex_unlock m) (\<lambda>m. Ret (False, s\<lparr>pmm_mutex := m\<rparr>))
      | Some i \<Rightarrow>
          (let bm = page_bms s ! i; ind = bm_ind bm addr in
           seq (k_mutex_unlock m) (\<lambda>m. Ret (bm_test bm ind, s\<lparr>pmm_mutex := m\<rparr>)))))"

definition pmm_alloc :: "pmm \<Rightarrow> (phys_addr_t \<times> pmm) exec" where
  "pmm_alloc s =
     seq (k_mutex_lock (pmm_mutex s)) (\<lambda>m.
     let (bms, stk) = (if page_stk s = [] then bm_feed_stk (page_bms s) (page_stk s)
                       else (page_bms s, page_stk s)) in
     (case stk of
        [] \<Rightarrow> seq (k_mutex_unlock m) (\<lambda>m.
               Ret (PHYS_ADDR_NULL, s\<lparr>page_bms := bms, page_stk := stk, pmm_mutex := m\<rparr>))
      | paddr # stk' \<Rightarrow> seq (k_mutex_unlock m) (\<lambda>m.
               Ret (paddr, s\<lparr>page_bms := bms, page_stk := stk', pmm_mutex := m\<rparr>))))"

definition bm_free :: "bitmap \<Rightarrow> nat \<Rightarrow> bitmap" where
  "bm_free bm ind =
     (let bm' = bm_clear bm ind
      in bm'\<lparr>bm_first_free := if ind < bm_first_free bm' then ind else bm_first_free bm'\<rparr>)"

definition pmm_free :: "phys_addr_t \<Rightarrow> pmm \<Rightarrow> pmm exec" where
  "pmm_free addr s =
     seq (k_mutex_lock (pmm_mutex s)) (\<lambda>m.
     let addr = page_align addr in
     (case find_bm (page_bms s) addr of
        None \<Rightarrow> seq (k_mutex_unlock m) (\<lambda>m. Ret (s\<lparr>pmm_mutex := m\<rparr>))
      | Some i \<Rightarrow>
          (let bm = page_bms s ! i; ind = bm_ind bm addr in
           seq (k_mutex_unlock m) (\<lambda>m.
             Ret (s\<lparr>page_bms := (page_bms s)[i := bm_free bm ind], pmm_mutex := m\<rparr>)))))"

subsection \<open>Bits of a bitmap\<close>

lemma bm_test_bit: "bm_test bm j \<longleftrightarrow> bit (bm_data bm (j div 8)) (j mod 8)"
  by (simp add: bm_test_def bit_iff_and_push_bit_not_eq_0)

lemma bit_push_bit_1: "bit (2 ^ k :: u8) n \<longleftrightarrow> n = k \<and> k < 8"
  by (auto simp: bit_exp_iff)

lemma div_mod_8_eq: "j div 8 = i div 8 \<Longrightarrow> j mod 8 = i mod (8::nat) \<longleftrightarrow> j = i"
  by (metis div_mult_mod_eq)

lemma bm_test_set [simp]: "bm_test (bm_set bm i) j \<longleftrightarrow> j = i \<or> bm_test bm j"
  by (cases "j div 8 = i div 8") (auto simp: bm_test_bit bm_set_def bit_or_iff bit_push_bit_1 div_mod_8_eq)

lemma bm_test_clear [simp]: "bm_test (bm_clear bm i) j \<longleftrightarrow> j \<noteq> i \<and> bm_test bm j"
  by (cases "j div 8 = i div 8")
    (auto simp: bm_test_bit bm_clear_def bit_and_iff bit_not_iff bit_push_bit_1 div_mod_8_eq)

lemma bm_test_first_free [simp]: "bm_test (bm\<lparr>bm_first_free := k\<rparr>) j = bm_test bm j"
  by (simp add: bm_test_def)

lemma bm_set_fields [simp]:
  "bm_base (bm_set bm i) = bm_base bm" "bm_npage (bm_set bm i) = bm_npage bm"
  "bm_first_free (bm_set bm i) = bm_first_free bm"
  by (simp_all add: bm_set_def)

lemma bm_clear_fields [simp]:
  "bm_base (bm_clear bm i) = bm_base bm" "bm_npage (bm_clear bm i) = bm_npage bm"
  "bm_first_free (bm_clear bm i) = bm_first_free bm"
  by (simp_all add: bm_clear_def)

lemma bm_free_fields [simp]:
  "bm_base (bm_free bm i) = bm_base bm" "bm_npage (bm_free bm i) = bm_npage bm"
  "bm_first_free (bm_free bm i) = min i (bm_first_free bm)"
  "bm_test (bm_free bm i) j \<longleftrightarrow> j \<noteq> i \<and> bm_test bm j"
  by (simp_all add: bm_free_def Let_def)

subsection \<open>Frames of a bitmap\<close>

text \<open>
  A bitmap whose pages lie in the address space: what a region of the memory map gives.
\<close>

definition bm_ok :: "bitmap \<Rightarrow> bool" where
  "bm_ok bm \<longleftrightarrow> 0 < unat (bm_base bm) \<and> 4096 dvd unat (bm_base bm) \<and>
     unat (bm_base bm) + 4096 * bm_npage bm < 2 ^ 64"

lemma unat_bm_frame:
  assumes "bm_ok bm" and "j \<le> bm_npage bm"
  shows "unat (bm_frame bm j) = unat (bm_base bm) + 4096 * j"
proof -
  have b: "unat (bm_base bm) + 4096 * j < 2 ^ 64" using assms by (simp add: bm_ok_def)
  have "unat (of_nat j :: u64) = j" using b by (intro unat_of_nat_u64) simp
  moreover have "unat (PAGE_SIZE * of_nat j :: u64) = unat PAGE_SIZE * unat (of_nat j :: u64)"
    by (rule unat_mult_u64) (use b calculation in simp)
  ultimately show ?thesis
    using b by (simp add: bm_frame_def unat_add_u64)
qed

lemma bm_frame_inj:
  "bm_ok bm \<Longrightarrow> i < bm_npage bm \<Longrightarrow> j < bm_npage bm \<Longrightarrow> bm_frame bm i = bm_frame bm j \<longleftrightarrow> i = j"
  by (simp add: u64_eq_iff_unat unat_bm_frame)

lemma bm_frame_aligned:
  assumes "bm_ok bm" and "j \<le> bm_npage bm"
  shows "page_align (bm_frame bm j) = bm_frame bm j"
proof -
  have "4096 dvd unat (bm_base bm)" using assms(1) by (simp add: bm_ok_def)
  then show ?thesis by (simp add: page_align_eq_iff unat_bm_frame [OF assms])
qed

lemma bm_frame_nonnull: "bm_ok bm \<Longrightarrow> j \<le> bm_npage bm \<Longrightarrow> bm_frame bm j \<noteq> 0"
  using unat_bm_frame [of bm j] by (auto simp: bm_ok_def)

lemma bm_covers_iff:
  assumes "bm_ok bm"
  shows "bm_covers bm a \<longleftrightarrow>
    unat (bm_base bm) \<le> unat a \<and> unat a < unat (bm_base bm) + 4096 * bm_npage bm"
  using unat_bm_frame [OF assms, of "bm_npage bm"]
  by (simp add: bm_covers_def bm_frame_def word_le_nat_alt word_less_nat_alt)

lemma bm_ind_frame: "bm_ok bm \<Longrightarrow> j < bm_npage bm \<Longrightarrow> bm_ind bm (bm_frame bm j) = j"
proof -
  assume a: "bm_ok bm" "j < bm_npage bm"
  have "unat (bm_frame bm j - bm_base bm) = 4096 * j"
    using a by (subst unat_sub_u64) (simp_all add: word_le_nat_alt unat_bm_frame)
  then show ?thesis by (simp add: bm_ind_def unat_div)
qed

lemma bm_covers_frame:
  assumes "bm_ok bm" and "page_align a = a"
  shows "bm_covers bm a \<longleftrightarrow> (\<exists>j < bm_npage bm. a = bm_frame bm j)"
proof
  assume c: "bm_covers bm a"
  define j where "j = (unat a - unat (bm_base bm)) div 4096"
  have "4096 dvd unat a - unat (bm_base bm)"
    using assms by (simp add: page_align_eq_iff bm_ok_def dvd_diff_nat)
  then have "unat a = unat (bm_base bm) + 4096 * j"
    using c by (simp add: j_def bm_covers_iff [OF assms(1)])
  moreover have "j < bm_npage bm"
    using c calculation by (simp add: bm_covers_iff [OF assms(1)])
  ultimately show "\<exists>j < bm_npage bm. a = bm_frame bm j"
    by (auto simp: u64_eq_iff_unat unat_bm_frame [OF assms(1)])
next
  assume "\<exists>j < bm_npage bm. a = bm_frame bm j"
  then show "bm_covers bm a"
    by (auto simp: bm_covers_iff [OF assms(1)] unat_bm_frame [OF assms(1)])
qed

definition bm_frames :: "bitmap \<Rightarrow> phys_addr_t set" where
  "bm_frames bm = bm_frame bm ` {j. j < bm_npage bm}"

definition bm_clears :: "bitmap \<Rightarrow> phys_addr_t set" where
  "bm_clears bm = bm_frame bm ` {j. j < bm_npage bm \<and> \<not> bm_test bm j}"

definition bm_useds :: "bitmap \<Rightarrow> phys_addr_t set" where
  "bm_useds bm = bm_frame bm ` {j. j < bm_npage bm \<and> bm_test bm j}"

lemma bm_frames_split: "bm_frames bm = bm_clears bm \<union> bm_useds bm"
  by (auto simp: bm_frames_def bm_clears_def bm_useds_def)

lemma bm_clears_useds: "bm_ok bm \<Longrightarrow> bm_clears bm \<inter> bm_useds bm = {}"
  by (auto simp: bm_clears_def bm_useds_def bm_frame_inj)

text \<open>What every operation keeps of a bitmap: where it is.\<close>

definition bm_same :: "bitmap \<Rightarrow> bitmap \<Rightarrow> bool" where
  "bm_same bm bm' \<longleftrightarrow> bm_base bm' = bm_base bm \<and> bm_npage bm' = bm_npage bm"

lemma bm_same_refl [simp]: "bm_same bm bm"
  by (simp add: bm_same_def)

lemma bm_same_ok: "bm_same bm bm' \<Longrightarrow> bm_ok bm' = bm_ok bm"
  by (simp add: bm_same_def bm_ok_def)

lemma bm_same_frame: "bm_same bm bm' \<Longrightarrow> bm_frame bm' = bm_frame bm"
  by (simp add: bm_same_def bm_frame_def fun_eq_iff)

lemma bm_same_frames: "bm_same bm bm' \<Longrightarrow> bm_frames bm' = bm_frames bm"
  by (simp add: bm_frames_def bm_same_frame) (simp add: bm_same_def)

text \<open>\<open>first_free\<close> is a lower bound of the clear bits: what makes \<open>bm_feed_stk\<close> complete.\<close>

definition bm_low :: "bitmap \<Rightarrow> bool" where
  "bm_low bm \<longleftrightarrow> (\<forall>j < bm_npage bm. \<not> bm_test bm j \<longrightarrow> bm_first_free bm \<le> j)"

subsection \<open>Refilling the stack\<close>

lemma bm_find_first_free_skips:
  "start \<le> j \<Longrightarrow> j < bm_find_first_free bm start \<Longrightarrow> bm_test bm j"
proof (induction bm start rule: bm_find_first_free.induct)
  case (1 bm free)
  show ?case
  proof (cases "free < bm_npage bm \<and> bm_test bm free")
    case True
    with "1.prems" have "j < bm_find_first_free bm (Suc free)"
      by (simp add: bm_find_first_free.simps [of bm free])
    with True "1.IH" "1.prems" show ?thesis by (cases "j = free") auto
  next
    case False
    with "1.prems" show ?thesis by (simp add: bm_find_first_free.simps [of bm free] split: if_splits)
  qed
qed

lemma bm_find_first_free_stops:
  "bm_find_first_free bm start < bm_npage bm \<Longrightarrow> \<not> bm_test bm (bm_find_first_free bm start)"
proof (induction bm start rule: bm_find_first_free.induct)
  case (1 bm free)
  then show ?case
    by (cases "free < bm_npage bm \<and> bm_test bm free") (auto simp: bm_find_first_free.simps [of bm free])
qed

text \<open>
  What the inner loop does to a bitmap and the stack: it pushes the frames of distinct clear
  pages \<open>js\<close> and sets exactly their bits.
\<close>

definition fed_pages :: "bitmap \<Rightarrow> phys_addr_t list \<Rightarrow> bitmap \<Rightarrow> phys_addr_t list \<Rightarrow> nat list \<Rightarrow> bool" where
  "fed_pages bm stk bm' stk' js \<longleftrightarrow>
     bm_same bm bm' \<and> bm_first_free bm' = bm_first_free bm \<and>
     stk' = map (bm_frame bm) js @ stk \<and> distinct js \<and>
     set js \<subseteq> {k. k < bm_npage bm \<and> \<not> bm_test bm k} \<and>
     (\<forall>k. bm_test bm' k \<longleftrightarrow> bm_test bm k \<or> k \<in> set js)"

lemma fed_pages_refl: "fed_pages bm stk bm stk []"
  by (simp add: fed_pages_def)

lemma fed_pages_step:
  assumes "j < bm_npage bm" and "\<not> bm_test bm j"
    and "fed_pages (bm_set bm j) (bm_frame bm j # stk) bm' stk' js"
  shows "fed_pages bm stk bm' stk' (js @ [j])"
proof -
  have f: "bm_frame (bm_set bm j) = bm_frame bm"
    by (rule bm_same_frame) (simp add: bm_same_def)
  from assms show ?thesis by (auto simp: fed_pages_def f bm_same_def)
qed

lemma feed_pages_spec:
  "length stk < PAGE_STK_CAP \<Longrightarrow> feed_pages bm stk j = (bm', stk') \<Longrightarrow>
   length stk' \<le> PAGE_STK_CAP \<and> (j < bm_npage bm \<longrightarrow> bm_test bm' j) \<and>
   (\<exists>js. fed_pages bm stk bm' stk' js \<and> (js = [] \<longrightarrow> (\<forall>k < bm_npage bm. j \<le> k \<longrightarrow> bm_test bm k)))"
proof (induction bm stk j rule: feed_pages.induct)
  case (1 bm stk j)
  show ?case
  proof (cases "j < bm_npage bm")
    case False
    with "1.prems" show ?thesis
      by (auto simp: feed_pages.simps [of bm stk j] intro: exI [of _ "[]"] fed_pages_refl)
  next
    case True
    show ?thesis
    proof (cases "bm_test bm j")
      case set_j: True
      with True "1.prems" have rec: "feed_pages bm stk (Suc j) = (bm', stk')"
        by (simp add: feed_pages.simps [of bm stk j])
      from "1.IH" [OF True, of "(bm, stk)" bm stk] set_j "1.prems"(1) rec
      obtain js where js: "length stk' \<le> PAGE_STK_CAP" "fed_pages bm stk bm' stk' js"
        "js = [] \<longrightarrow> (\<forall>k < bm_npage bm. Suc j \<le> k \<longrightarrow> bm_test bm k)" by auto
      moreover have "bm_test bm' j" using js(2) set_j by (simp add: fed_pages_def)
      moreover have "js = [] \<longrightarrow> (\<forall>k < bm_npage bm. j \<le> k \<longrightarrow> bm_test bm k)"
        using js(3) set_j by (metis Suc_leI le_neq_implies_less)
      ultimately show ?thesis by blast
    next
      case clear_j: False
      let ?bm1 = "bm_set bm j" and ?stk1 = "bm_frame bm j # stk"
      have "length stk' \<le> PAGE_STK_CAP \<and> (\<exists>js. fed_pages ?bm1 ?stk1 bm' stk' js)"
      proof (cases "length ?stk1 \<ge> PAGE_STK_CAP")
        case full: True
        with True clear_j "1.prems" have "bm' = ?bm1" "stk' = ?stk1"
          by (auto simp: feed_pages.simps [of bm stk j])
        with "1.prems"(1) fed_pages_refl [of ?bm1 ?stk1] show ?thesis by auto
      next
        case False
        with True clear_j "1.prems" have rec: "feed_pages ?bm1 ?stk1 (Suc j) = (bm', stk')"
          by (simp add: feed_pages.simps [of bm stk j])
        from "1.IH" [OF True, of "(?bm1, ?stk1)" ?bm1 ?stk1] False clear_j rec
        show ?thesis by auto
      qed
      then obtain js where l: "length stk' \<le> PAGE_STK_CAP" and "fed_pages ?bm1 ?stk1 bm' stk' js"
        by blast
      then have js: "fed_pages bm stk bm' stk' (js @ [j])"
        using True clear_j by (intro fed_pages_step)
      then have "bm_test bm' j" by (simp add: fed_pages_def)
      with l js show ?thesis by blast
    qed
  qed
qed

text \<open>Everything set below \<open>start\<close> and from there to the search's result: a new lower bound.\<close>

lemma bm_low_find:
  assumes "\<And>j. j < bm_npage bm \<Longrightarrow> j < start \<Longrightarrow> bm_test bm j"
  shows "bm_low (bm\<lparr>bm_first_free := bm_find_first_free bm start\<rparr>)"
  using assms bm_find_first_free_skips [of start _ bm]
  by (auto simp: bm_low_def) (meson not_le)

text \<open>
  The effect of a refill on sets of frames, for a list of bitmaps: \<open>xs\<close> is what was pushed.
\<close>

definition clears :: "bitmap list \<Rightarrow> phys_addr_t set" where
  "clears bms = (\<Union>bm \<in> set bms. bm_clears bm)"

definition useds :: "bitmap list \<Rightarrow> phys_addr_t set" where
  "useds bms = (\<Union>bm \<in> set bms. bm_useds bm)"

lemma clears_simps [simp]:
  "clears [] = {}" "clears (bm # bms) = bm_clears bm \<union> clears bms"
  by (auto simp: clears_def)

lemma useds_simps [simp]:
  "useds [] = {}" "useds (bm # bms) = bm_useds bm \<union> useds bms"
  by (auto simp: useds_def)

text \<open>The regions of different bitmaps do not overlap.\<close>

fun bms_disj :: "bitmap list \<Rightarrow> bool" where
  "bms_disj [] = True"
| "bms_disj (bm # bms) = ((\<forall>b \<in> set bms. bm_frames bm \<inter> bm_frames b = {}) \<and> bms_disj bms)"

definition bms_ok :: "bitmap list \<Rightarrow> bool" where
  "bms_ok bms \<longleftrightarrow> (\<forall>bm \<in> set bms. bm_ok bm \<and> bm_low bm) \<and> bms_disj bms"

definition feeds :: "bitmap list \<Rightarrow> phys_addr_t list \<Rightarrow> bitmap list \<Rightarrow> phys_addr_t list \<Rightarrow>
    phys_addr_t list \<Rightarrow> bool" where
  "feeds bms stk bms' stk' xs \<longleftrightarrow>
     list_all2 bm_same bms bms' \<and> (\<forall>bm \<in> set bms'. bm_low bm) \<and>
     stk' = xs @ stk \<and> length stk' \<le> PAGE_STK_CAP \<and> distinct xs \<and> set xs \<subseteq> clears bms \<and>
     clears bms' = clears bms - set xs \<and> useds bms' = useds bms \<union> set xs \<and>
     (length stk < PAGE_STK_CAP \<longrightarrow> clears bms \<noteq> {} \<longrightarrow> xs \<noteq> [])"

lemma fed_pages_clears:
  assumes "bm_ok bm" and "fed_pages bm stk bm' stk' js"
  shows "bm_clears bm' = bm_clears bm - set (map (bm_frame bm) js)"
    and "bm_useds bm' = bm_useds bm \<union> set (map (bm_frame bm) js)"
    and "distinct (map (bm_frame bm) js)" and "set (map (bm_frame bm) js) \<subseteq> bm_clears bm"
proof -
  have same: "bm_same bm bm'" and js: "distinct js" "set js \<subseteq> {k. k < bm_npage bm \<and> \<not> bm_test bm k}"
    and t: "\<And>k. bm_test bm' k \<longleftrightarrow> bm_test bm k \<or> k \<in> set js"
    using assms(2) by (simp_all add: fed_pages_def)
  have n: "bm_npage bm' = bm_npage bm" using same by (simp add: bm_same_def)
  have f: "bm_frame bm' = bm_frame bm" using same by (rule bm_same_frame)
  have inj: "inj_on (bm_frame bm) {k. k < bm_npage bm}"
    using assms(1) by (auto simp: inj_on_def bm_frame_inj)
  show "distinct (map (bm_frame bm) js)"
    using js inj by (auto simp: distinct_map elim: inj_on_subset)
  show "set (map (bm_frame bm) js) \<subseteq> bm_clears bm"
    using js by (auto simp: bm_clears_def)
  show "bm_useds bm' = bm_useds bm \<union> set (map (bm_frame bm) js)"
    using js(2) by (auto simp: bm_useds_def n f t)
  show "bm_clears bm' = bm_clears bm - set (map (bm_frame bm) js)"
    using js(2) inj by (auto simp: bm_clears_def n f t inj_on_def)
qed

lemma feed_bm_spec:
  assumes ok: "bm_ok bm" "bm_low bm" and len: "length stk < PAGE_STK_CAP"
    and feed: "feed_bm bm stk = (bm', stk')"
  shows "\<exists>xs. feeds [bm] stk [bm'] stk' xs"
proof -
  obtain bm1 where fp: "feed_pages bm stk (bm_first_free bm) = (bm1, stk')"
    and bm': "bm' = bm1\<lparr>bm_first_free := bm_find_first_free bm1 (bm_first_free bm1 + 1)\<rparr>"
    using feed by (auto simp: feed_bm_def Let_def split: prod.splits)
  from feed_pages_spec [OF len fp] obtain js where js: "fed_pages bm stk bm1 stk' js"
    and l': "length stk' \<le> PAGE_STK_CAP"
    and ff: "bm_first_free bm < bm_npage bm \<longrightarrow> bm_test bm1 (bm_first_free bm)"
    and nil: "js = [] \<longrightarrow> (\<forall>k < bm_npage bm. bm_first_free bm \<le> k \<longrightarrow> bm_test bm k)" by blast
  let ?xs = "map (bm_frame bm) js"
  have same: "bm_same bm bm1" and fst1: "bm_first_free bm1 = bm_first_free bm"
    and t: "\<And>k. bm_test bm1 k \<longleftrightarrow> bm_test bm k \<or> k \<in> set js" and stk': "stk' = ?xs @ stk"
    using js by (auto simp: fed_pages_def)
  have eqs: "bm_clears bm' = bm_clears bm1" "bm_useds bm' = bm_useds bm1"
    by (auto simp: bm' bm_clears_def bm_useds_def bm_frame_def)
  have low: "bm_low bm'" unfolding bm'
  proof (rule bm_low_find)
    fix j assume "j < bm_npage bm1" "j < bm_first_free bm1 + 1"
    then show "bm_test bm1 j"
      using ok(2) ff fst1 t same
      by (cases "j = bm_first_free bm") (auto simp: bm_low_def bm_same_def)
  qed
  have ne: "?xs \<noteq> []" if clr: "bm_clears bm \<noteq> {}"
  proof -
    from clr obtain j where j: "j < bm_npage bm" "\<not> bm_test bm j" by (auto simp: bm_clears_def)
    moreover from j have "bm_first_free bm \<le> j" using ok(2) by (simp add: bm_low_def)
    ultimately show ?thesis using nil by auto
  qed
  have "bm_same bm bm'" using same by (simp add: bm' bm_same_def)
  with low l' stk' ne fed_pages_clears [OF ok(1) js] eqs
  have "feeds [bm] stk [bm'] stk' ?xs" by (simp add: feeds_def)
  then show ?thesis ..
qed

lemma clears_frames: "clears bms \<subseteq> (\<Union>bm \<in> set bms. bm_frames bm)"
  by (auto simp: clears_def bm_frames_split)

lemma bms_ok_Cons:
  "bms_ok (bm # bms) \<Longrightarrow> bm_ok bm \<and> bm_low bm \<and> bms_ok bms \<and>
     bm_frames bm \<inter> (\<Union>b \<in> set bms. bm_frames b) = {}"
  by (auto simp: bms_ok_def)

lemma feeds_Cons:
  assumes ok: "bms_ok (bm # bms)"
    and f1: "feeds [bm] stk [bm'] stk1 xs1" and f2: "feeds bms stk1 bms' stk' xs2"
  shows "feeds (bm # bms) stk (bm' # bms') stk' (xs2 @ xs1)"
proof -
  have s1: "set xs1 \<subseteq> bm_clears bm" and s2: "set xs2 \<subseteq> clears bms"
    using f1 f2 by (simp_all add: feeds_def)
  have "bm_clears bm \<inter> clears bms = {}"
    using bms_ok_Cons [OF ok] clears_frames [of bms] by (auto simp: bm_frames_split)
  then have dis: "set xs1 \<inter> set xs2 = {}" "bm_clears bm - set xs1 = bm_clears bm - (set xs1 \<union> set xs2)"
    "clears bms - set xs2 = clears bms - (set xs1 \<union> set xs2)"
    using s1 s2 by auto
  have ne: "xs2 @ xs1 \<noteq> []" if "length stk < PAGE_STK_CAP" "bm_clears bm \<union> clears bms \<noteq> {}"
    using that f1 f2 by (cases xs1) (auto simp: feeds_def)
  have len: "length stk' \<le> PAGE_STK_CAP" using f2 unfolding feeds_def by blast
  have stk': "stk' = (xs2 @ xs1) @ stk" using f1 f2 unfolding feeds_def by simp
  have clr: "clears (bm' # bms') = clears (bm # bms) - set (xs2 @ xs1)"
    using f1 f2 dis by (auto simp: feeds_def)
  have use: "useds (bm' # bms') = useds (bm # bms) \<union> set (xs2 @ xs1)"
    using f1 f2 by (auto simp: feeds_def)
  have xs: "distinct (xs2 @ xs1)" "set (xs2 @ xs1) \<subseteq> clears (bm # bms)"
    using f1 f2 dis(1) s1 s2 by (auto simp: feeds_def)
  have "list_all2 bm_same (bm # bms) (bm' # bms')" "\<forall>b \<in> set (bm' # bms'). bm_low b"
    using f1 f2 by (simp_all add: feeds_def)
  with len stk' clr use xs ne show ?thesis unfolding feeds_def by simp
qed

lemma bm_feed_stk_spec:
  "bms_ok bms \<Longrightarrow> length stk \<le> PAGE_STK_CAP \<Longrightarrow> bm_feed_stk bms stk = (bms', stk') \<Longrightarrow>
   \<exists>xs. feeds bms stk bms' stk' xs"
proof (induction bms arbitrary: stk bms' stk')
  case Nil
  then show ?case by (auto simp: feeds_def)
next
  case (Cons bm bms)
  show ?case
  proof (cases "length stk < PAGE_STK_CAP")
    case True
    obtain bm1 stk1 where f1: "feed_bm bm stk = (bm1, stk1)" by fastforce
    obtain bms2 stk2 where f2: "bm_feed_stk bms stk1 = (bms2, stk2)" by fastforce
    have res: "bms' = bm1 # bms2" "stk' = stk2" using Cons.prems(3) True f1 f2 by auto
    obtain xs1 where x1: "feeds [bm] stk [bm1] stk1 xs1"
      using bms_ok_Cons [OF Cons.prems(1)] feed_bm_spec [OF _ _ True f1] by blast
    then have "length stk1 \<le> PAGE_STK_CAP" unfolding feeds_def by blast
    then obtain xs2 where "feeds bms stk1 bms2 stk2 xs2"
      using Cons.IH [OF _ _ f2] bms_ok_Cons [OF Cons.prems(1)] by blast
    with x1 show ?thesis using feeds_Cons [OF Cons.prems(1)] res by blast
  next
    case False
    with Cons.prems have "bms' = bm # bms" "stk' = stk" by auto
    moreover have "feeds (bm # bms) stk (bm # bms) stk []"
      using False Cons.prems by (auto simp: feeds_def bms_ok_def list_all2_refl)
    ultimately show ?thesis by blast
  qed
qed

subsection \<open>The allocator as a set of frames\<close>

text \<open>
  The abstract state is the set of frames that may still be handed out: the clear bits and the
  stack.  The invariant says that the stack holds distinct frames whose bits are set.
\<close>

definition pmm_ok :: "pmm \<Rightarrow> bool" where
  "pmm_ok s \<longleftrightarrow> bms_ok (page_bms s) \<and> distinct (page_stk s) \<and>
     length (page_stk s) \<le> PAGE_STK_CAP \<and> set (page_stk s) \<subseteq> useds (page_bms s) \<and>
     pmm_mutex s = 0"

definition pmm_avail :: "pmm \<Rightarrow> phys_addr_t set" where
  "pmm_avail s = clears (page_bms s) \<union> set (page_stk s)"

definition pmm_managed :: "pmm \<Rightarrow> phys_addr_t set" where
  "pmm_managed s = (\<Union>bm \<in> set (page_bms s). bm_frames bm)"

lemma same_frames:
  "list_all2 bm_same bms bms' \<Longrightarrow> (\<Union>bm \<in> set bms'. bm_frames bm) = (\<Union>bm \<in> set bms. bm_frames bm)"
  by (induction rule: list_all2_induct) (auto simp: bm_same_frames)

lemma same_disj: "list_all2 bm_same bms bms' \<Longrightarrow> bms_disj bms \<Longrightarrow> bms_disj bms'"
proof (induction rule: list_all2_induct)
  case Nil
  then show ?case by simp
next
  case (Cons bm bms bm' bms')
  have "bm_frames bm' \<inter> (\<Union>b \<in> set bms'. bm_frames b) = bm_frames bm \<inter> (\<Union>b \<in> set bms. bm_frames b)"
    by (simp only: same_frames [OF Cons.hyps(2)] bm_same_frames [OF Cons.hyps(1)])
  with Cons show ?case by auto
qed

lemma same_ok: "list_all2 bm_same bms bms' \<Longrightarrow> \<forall>bm \<in> set bms. bm_ok bm \<Longrightarrow> \<forall>bm \<in> set bms'. bm_ok bm"
  by (induction rule: list_all2_induct) (auto simp: bm_same_ok)

lemma clears_useds_disj:
  "bms_ok bms \<Longrightarrow> clears bms \<inter> useds bms = {}"
proof (induction bms)
  case Nil
  then show ?case by simp
next
  case (Cons bm bms)
  note ok = bms_ok_Cons [OF Cons.prems]
  have "clears bms \<union> useds bms = (\<Union>b \<in> set bms. bm_frames b)"
    by (auto simp: clears_def useds_def bm_frames_split)
  then have "(bm_clears bm \<union> bm_useds bm) \<inter> (clears bms \<union> useds bms) = {}"
    using ok by (simp add: bm_frames_split)
  moreover have "bm_clears bm \<inter> bm_useds bm = {}" using ok by (simp add: bm_clears_useds)
  ultimately show ?case using Cons.IH ok by auto
qed

lemma bm_feed_stk_pmm:
  assumes "pmm_ok s" and "bm_feed_stk (page_bms s) (page_stk s) = (bms, stk)"
  shows "pmm_ok (s\<lparr>page_bms := bms, page_stk := stk\<rparr>) \<and>
    pmm_avail (s\<lparr>page_bms := bms, page_stk := stk\<rparr>) = pmm_avail s \<and>
    pmm_managed (s\<lparr>page_bms := bms, page_stk := stk\<rparr>) = pmm_managed s \<and>
    (page_stk s = [] \<longrightarrow> stk = [] \<longrightarrow> pmm_avail s = {})"
proof -
  from assms(1) have "bms_ok (page_bms s)" "length (page_stk s) \<le> PAGE_STK_CAP"
    by (simp_all add: pmm_ok_def)
  then obtain xs where f: "feeds (page_bms s) (page_stk s) bms stk xs"
    using bm_feed_stk_spec assms(2) by blast
  have ok: "bms_ok (page_bms s)" "set (page_stk s) \<subseteq> useds (page_bms s)" "distinct (page_stk s)"
    using assms(1) by (auto simp: pmm_ok_def)
  have all2: "list_all2 bm_same (page_bms s) bms" using f by (simp add: feeds_def)
  have "bms_ok bms"
    using f ok(1) same_disj [OF all2] same_ok [OF all2] by (auto simp: bms_ok_def feeds_def)
  moreover have "set xs \<inter> set (page_stk s) = {}"
    using clears_useds_disj [OF ok(1)] f ok(2) by (auto simp: feeds_def)
  ultimately have "pmm_ok (s\<lparr>page_bms := bms, page_stk := stk\<rparr>)"
    using assms(1) f by (auto simp: pmm_ok_def feeds_def)
  moreover have "pmm_avail (s\<lparr>page_bms := bms, page_stk := stk\<rparr>) = pmm_avail s"
    using f by (auto simp: pmm_avail_def feeds_def)
  moreover have "page_stk s = [] \<longrightarrow> stk = [] \<longrightarrow> pmm_avail s = {}"
    using f by (auto simp: pmm_avail_def feeds_def)
  ultimately show ?thesis using same_frames [OF all2] by (simp add: pmm_managed_def)
qed

lemma pmm_mutex_upd [simp]:
  "pmm_avail (s\<lparr>pmm_mutex := m\<rparr>) = pmm_avail s" "pmm_managed (s\<lparr>pmm_mutex := m\<rparr>) = pmm_managed s"
  by (simp_all add: pmm_avail_def pmm_managed_def)

lemma pmm_alloc_refines:
  assumes "pmm_ok s"
  shows "\<exists>a s'. pmm_alloc s = Ret (a, s') \<and> pmm_ok s' \<and> pmm_managed s' = pmm_managed s \<and>
    (if pmm_avail s = {} then a = 0 \<and> pmm_avail s' = {}
     else a \<in> pmm_avail s \<and> pmm_avail s' = pmm_avail s - {a})"
proof -
  have m: "pmm_mutex s = 0" using assms by (simp add: pmm_ok_def)
  obtain bms stk where r: "(if page_stk s = [] then bm_feed_stk (page_bms s) (page_stk s)
                            else (page_bms s, page_stk s)) = (bms, stk)" by fastforce
  let ?s1 = "s\<lparr>page_bms := bms, page_stk := stk\<rparr>"
  have "page_stk s \<noteq> [] \<Longrightarrow> ?s1 = s" using r by simp
  then have ok1: "pmm_ok ?s1 \<and> pmm_avail ?s1 = pmm_avail s \<and> pmm_managed ?s1 = pmm_managed s"
    and nil: "stk = [] \<Longrightarrow> pmm_avail s = {}"
    using bm_feed_stk_pmm [OF assms, of bms stk] assms r by (auto split: if_splits)
  show ?thesis
  proof (cases stk)
    case Nil
    let ?t = "s\<lparr>page_bms := bms, page_stk := [], pmm_mutex := 0\<rparr>"
    have "pmm_alloc s = Ret (0, ?t)" using m r Nil by (simp add: pmm_alloc_def)
    moreover have "pmm_ok ?t \<and> pmm_avail ?t = pmm_avail s \<and> pmm_managed ?t = pmm_managed s"
      using ok1 Nil by (simp add: pmm_ok_def pmm_avail_def pmm_managed_def)
    ultimately show ?thesis using nil Nil by simp
  next
    case (Cons a stk')
    let ?t = "s\<lparr>page_bms := bms, page_stk := stk', pmm_mutex := 0\<rparr>"
    have "pmm_alloc s = Ret (a, ?t)" using m r Cons by (simp add: pmm_alloc_def)
    moreover have "a \<notin> clears bms" "a \<notin> set stk'"
      using ok1 Cons clears_useds_disj [of bms] by (auto simp: pmm_ok_def)
    then have "pmm_ok ?t \<and> a \<in> pmm_avail s \<and> pmm_avail ?t = pmm_avail s - {a} \<and>
        pmm_managed ?t = pmm_managed s"
      using ok1 Cons by (auto simp: pmm_ok_def pmm_avail_def pmm_managed_def)
    ultimately show ?thesis by force
  qed
qed

subsection \<open>Freeing\<close>

lemma find_bm_Some:
  "find_bm bms a = Some i \<Longrightarrow>
   \<exists>xs bm ys. bms = xs @ bm # ys \<and> i = length xs \<and> bm_covers bm a"
proof (induction bms arbitrary: i)
  case Nil
  then show ?case by simp
next
  case (Cons bm bms)
  show ?case
  proof (cases "bm_covers bm a")
    case True
    with Cons.prems show ?thesis by (intro exI [of _ "[]"]) auto
  next
    case False
    with Cons.prems obtain k where "find_bm bms a = Some k" "i = Suc k" by auto
    with Cons.IH show ?thesis by (metis append_Cons length_Cons)
  qed
qed

lemma find_bm_None: "find_bm bms a = None \<longleftrightarrow> (\<forall>bm \<in> set bms. \<not> bm_covers bm a)"
  by (induction bms) auto

lemma clears_append: "clears (xs @ bm # ys) = bm_clears bm \<union> clears (xs @ ys)"
  by (auto simp: clears_def)

lemma useds_append: "useds (xs @ bm # ys) = bm_useds bm \<union> useds (xs @ ys)"
  by (auto simp: useds_def)

lemma bms_disj_append:
  "bms_disj (xs @ bm # ys) \<Longrightarrow> b \<in> set (xs @ ys) \<Longrightarrow> bm_frames bm \<inter> bm_frames b = {}"
  by (induction xs) auto

text \<open>Where the aligned address \<open>a\<close> of a managed frame is found.\<close>

lemma pmm_locate:
  assumes ok: "bms_ok bms" and a: "page_align a = a" and m: "a \<in> (\<Union>bm \<in> set bms. bm_frames bm)"
  obtains xs bm ys j where "bms = xs @ bm # ys" "find_bm bms a = Some (length xs)"
    "bm_ok bm" "bm_low bm" "j < bm_npage bm" "a = bm_frame bm j" "bm_ind bm a = j"
    "a \<notin> clears (xs @ ys) \<union> useds (xs @ ys)"
proof -
  have "\<exists>bm \<in> set bms. bm_covers bm a"
    using ok m a by (auto simp: bms_ok_def bm_frames_def bm_covers_frame)
  then obtain i where "find_bm bms a = Some i"
    using find_bm_None by (metis option.exhaust)
  then obtain xs bm ys where d: "bms = xs @ bm # ys" "find_bm bms a = Some (length xs)" "bm_covers bm a"
    using find_bm_Some by blast
  have bok: "bm_ok bm" "bm_low bm" using ok d(1) by (simp_all add: bms_ok_def)
  then obtain j where j: "j < bm_npage bm" "a = bm_frame bm j"
    using d(3) a by (auto simp: bm_covers_frame)
  have "a \<in> bm_frames bm" using j by (auto simp: bm_frames_def)
  then have "a \<notin> clears (xs @ ys) \<union> useds (xs @ ys)"
    using bms_disj_append [of xs bm ys] ok d(1)
    by (auto simp: bms_ok_def clears_def useds_def bm_frames_split)
  with d bok j that show ?thesis by (metis bm_ind_frame)
qed

lemma bm_free_clears:
  assumes "bm_ok bm" and "j < bm_npage bm"
  shows "bm_clears (bm_free bm j) = insert (bm_frame bm j) (bm_clears bm)"
    and "bm_useds (bm_free bm j) = bm_useds bm - {bm_frame bm j}"
proof -
  have f: "bm_frame (bm_free bm j) = bm_frame bm" by (simp add: bm_frame_def fun_eq_iff)
  show "bm_clears (bm_free bm j) = insert (bm_frame bm j) (bm_clears bm)"
    using assms by (auto simp: bm_clears_def f)
  show "bm_useds (bm_free bm j) = bm_useds bm - {bm_frame bm j}"
    using assms by (auto simp: bm_useds_def f bm_frame_inj)
qed

lemma pmm_free_refines:
  assumes ok: "pmm_ok s" and man: "a \<in> pmm_managed s" and used: "a \<notin> pmm_avail s"
  shows "\<exists>s'. pmm_free a s = Ret s' \<and> pmm_ok s' \<and> pmm_managed s' = pmm_managed s \<and>
    pmm_avail s' = insert a (pmm_avail s)"
proof -
  let ?bms = "page_bms s"
  have bok: "bms_ok ?bms" and m: "pmm_mutex s = 0" using ok by (simp_all add: pmm_ok_def)
  have al: "page_align a = a"
    using man bok by (auto simp: pmm_managed_def bm_frames_def bms_ok_def bm_frame_aligned)
  have "a \<in> (\<Union>bm \<in> set ?bms. bm_frames bm)" using man by (simp add: pmm_managed_def)
  then obtain xs bm ys j where d: "?bms = xs @ bm # ys" "find_bm ?bms a = Some (length xs)"
    "bm_ok bm" "bm_low bm" "j < bm_npage bm" "a = bm_frame bm j" "bm_ind bm a = j"
    "a \<notin> clears (xs @ ys) \<union> useds (xs @ ys)"
    using pmm_locate [OF bok al] by blast
  let ?bms' = "xs @ bm_free bm j # ys"
  let ?t = "s\<lparr>page_bms := ?bms', pmm_mutex := 0\<rparr>"
  have res: "pmm_free a s = Ret ?t"
    using m d(1,2,7) by (simp add: pmm_free_def al nth_append list_update_append)
  have same: "list_all2 bm_same ?bms ?bms'"
    using d(1) by (auto intro!: list_all2_appendI list_all2_refl simp: bm_same_def)
  have "bm_low (bm_free bm j)" using d(4) by (auto simp: bm_low_def)
  then have "\<forall>b \<in> set ?bms'. bm_low b" using bok d(1) by (auto simp: bms_ok_def)
  moreover have "\<forall>b \<in> set ?bms'. bm_ok b"
    using same_ok [OF same] bok by (simp add: bms_ok_def)
  moreover have "bms_disj ?bms'"
    using same_disj [OF same] bok by (simp add: bms_ok_def)
  ultimately have "bms_ok ?bms'" by (simp add: bms_ok_def)
  moreover have us: "useds ?bms' = useds ?bms - {a}" and cl: "clears ?bms' = insert a (clears ?bms)"
    using d(1,6,8) bm_free_clears [OF d(3,5)] by (auto simp: useds_append clears_append)
  ultimately have "pmm_ok ?t" using ok used by (auto simp: pmm_ok_def pmm_avail_def)
  moreover have "pmm_managed ?t = pmm_managed s" using same_frames [OF same] by (simp add: pmm_managed_def)
  moreover have "pmm_avail ?t = insert a (pmm_avail s)" using cl by (auto simp: pmm_avail_def)
  ultimately show ?thesis using res by blast
qed

lemma pmm_managed_frame:
  "pmm_ok s \<Longrightarrow> a \<in> pmm_managed s \<Longrightarrow> a \<noteq> 0 \<and> page_align a = a"
  by (auto simp: pmm_ok_def bms_ok_def pmm_managed_def bm_frames_def bm_frame_aligned bm_frame_nonnull)

lemma pmm_avail_managed: "pmm_ok s \<Longrightarrow> pmm_avail s \<subseteq> pmm_managed s"
  by (auto simp: pmm_ok_def pmm_avail_def pmm_managed_def clears_def useds_def bm_frames_split)

interpretation pmm: frame_allocator pmm_alloc pmm_ok pmm_avail pmm_managed pmm_free
  by unfold_locales
    (rule pmm_alloc_refines pmm_avail_managed pmm_managed_frame pmm_free_refines; assumption)+

subsection \<open>Initialisation from the memory layout\<close>

text \<open>A usable region of the layout: page aligned, at least 16 pages, inside the address space.\<close>

definition region_ok :: "meml_ent \<Rightarrow> bool" where
  "region_ok e \<longleftrightarrow> 4096 dvd unat (me_base e) \<and> 16 * 4096 \<le> unat (me_size e) \<and>
     unat (me_base e) + unat (me_size e) < 2 ^ 64"

definition region_bytes :: "meml_ent \<Rightarrow> nat set" where
  "region_bytes e = {unat (me_base e) ..< unat (me_base e) + unat (me_size e)}"

fun regions_disj :: "meml_ent list \<Rightarrow> bool" where
  "regions_disj [] = True"
| "regions_disj (e # es) =
     ((\<forall>f \<in> set es. region_bytes e \<inter> region_bytes f = {}) \<and> regions_disj es)"

definition layout_ok :: "meml_ent list \<Rightarrow> bool" where
  "layout_ok ents \<longleftrightarrow> (\<forall>e \<in> set ents. region_ok e) \<and> regions_disj ents"

lemma unat_npage_bm:
  assumes "16 \<le> unat t" and "unat t < 2 ^ 52"
  shows "unat (npage_bm t) = 1 + (7 * unat t div 8 - 1) div 4096"
proof -
  have m: "unat (7 * t) = 7 * unat t" using assms(2) by (simp add: unat_word_ariths)
  then have d: "unat (7 * t div 8) = 7 * unat t div 8" by (simp add: unat_div)
  then have "1 \<le> 7 * t div 8" using assms(1) by (simp add: word_le_nat_alt)
  then have "unat ((7 * t div 8 - 1) div PAGE_SIZE) = (7 * unat t div 8 - 1) div 4096"
    using d by (simp add: unat_div unat_sub)
  moreover have "1 + (7 * unat t div 8 - 1) div 4096 < 2 ^ 64" using assms(2) by simp
  ultimately show ?thesis by (simp add: npage_bm_def unat_word_ariths)
qed

text \<open>The pages of a region, those of its bitmap first; the bitmap has room for its bits.\<close>

lemma bm_init_fields:
  assumes "region_ok e"
  defines "T \<equiv> unat (me_size e) div 4096" and "N \<equiv> unat (npage_bm (me_size e div PAGE_SIZE))"
  shows "1 \<le> N" and "N < T" and "bm_npage (bm_init mem e) = T - N"
    and "unat (bm_base (bm_init mem e)) = unat (me_base e) + 4096 * N"
    and "T - N \<le> 8 * (4096 * N)"
proof -
  have T: "unat (me_size e div PAGE_SIZE) = T" by (simp add: T_def unat_div)
  have b: "16 \<le> T" "T < 2 ^ 52"
    using assms(1) by (auto simp: T_def region_ok_def less_mult_imp_div_less)
  have N: "N = 1 + (7 * T div 8 - 1) div 4096"
    using b by (simp add: N_def unat_npage_bm T)
  show "1 \<le> N" by (simp add: N)
  show lt: "N < T" using b(1) unfolding N by linarith
  have "7 * T div 8 - 1 < 4096 * N"
    using dividend_less_times_div [of 4096 "7 * T div 8 - 1"] by (simp add: N)
  then show "T - N \<le> 8 * (4096 * N)" using b(1) by linarith
  have "npage_bm (me_size e div PAGE_SIZE) \<le> me_size e div PAGE_SIZE"
    using lt by (simp add: word_le_nat_alt T N_def)
  then show "bm_npage (bm_init mem e) = T - N"
    by (simp add: bm_init_def Let_def unat_sub T N_def)
  have "unat (me_base e) + 4096 * N < 2 ^ 64"
    using assms(1) lt by (auto simp: region_ok_def T_def)
  moreover from this have "unat (PAGE_SIZE * npage_bm (me_size e div PAGE_SIZE)) = 4096 * N"
    by (simp add: N_def unat_word_ariths)
  ultimately show "unat (bm_base (bm_init mem e)) = unat (me_base e) + 4096 * N"
    by (simp add: bm_init_def Let_def unat_add_u64)
qed

lemma bm_init_ok: "region_ok e \<Longrightarrow> bm_ok (bm_init mem e) \<and> bm_low (bm_init mem e)"
proof -
  assume r: "region_ok e"
  note f = bm_init_fields [OF r]
  have "unat (me_size e) div 4096 * 4096 \<le> unat (me_size e)" by simp
  with f r have "bm_ok (bm_init mem e)"
    by (auto simp: bm_ok_def region_ok_def)
  then show ?thesis by (simp add: bm_low_def bm_init_def Let_def)
qed

lemma bm_init_frames:
  "region_ok e \<Longrightarrow> a \<in> bm_frames (bm_init mem e) \<Longrightarrow> unat a \<in> region_bytes e"
proof -
  assume r: "region_ok e" and a: "a \<in> bm_frames (bm_init mem e)"
  note f = bm_init_fields [OF r]
  from a obtain j where j: "j < bm_npage (bm_init mem e)" "a = bm_frame (bm_init mem e) j"
    by (auto simp: bm_frames_def)
  have "unat a = unat (bm_base (bm_init mem e)) + 4096 * j"
    using j bm_init_ok [OF r] by (simp add: unat_bm_frame)
  moreover have "unat (me_size e) div 4096 * 4096 \<le> unat (me_size e)" by simp
  ultimately show ?thesis using f j(1) by (auto simp: region_bytes_def)
qed

lemma bms_init_disj:
  "layout_ok ents \<Longrightarrow> bms_disj (map (bm_init mem) ents)"
proof (induction ents)
  case Nil
  then show ?case by simp
next
  case (Cons e es)
  have "bm_frames (bm_init mem e) \<inter> bm_frames (bm_init mem f) = {}" if "f \<in> set es" for f
    using that Cons.prems bm_init_frames [of e _ mem] bm_init_frames [of f _ mem]
    by (fastforce simp: layout_ok_def)
  with Cons show ?case by (auto simp: layout_ok_def)
qed

lemma pmm_init_spec:
  assumes "layout_ok ents"
  shows "pmm_ok (pmm_init mem ents) \<and> pmm_avail (pmm_init mem ents) = clears (map (bm_init mem) ents) \<and>
    pmm_managed (pmm_init mem ents) = (\<Union>e \<in> set ents. bm_frames (bm_init mem e))"
proof -
  let ?s = "\<lparr>page_bms = map (bm_init mem) ents, page_stk = [], pmm_mutex = 0\<rparr>"
  have "pmm_ok ?s"
    using assms bms_init_disj [OF assms] bm_init_ok by (auto simp: pmm_ok_def bms_ok_def layout_ok_def)
  moreover obtain bms stk where "bm_feed_stk (map (bm_init mem) ents) [] = (bms, stk)" by fastforce
  ultimately show ?thesis
    using bm_feed_stk_pmm [of ?s bms stk] by (simp add: pmm_init_def pmm_avail_def pmm_managed_def)
qed

subsection \<open>Properties\<close>

lemma pmm_lookup_used:
  assumes "pmm_ok s" and "a \<in> pmm_managed s" and "page_align addr = a"
  shows "pmm_avl addr s = Ret (a \<notin> clears (page_bms s), s)"
proof -
  have bok: "bms_ok (page_bms s)" and m: "pmm_mutex s = 0" using assms(1) by (simp_all add: pmm_ok_def)
  have al: "page_align a = a" using assms(3) by auto
  have "a \<in> (\<Union>bm \<in> set (page_bms s). bm_frames bm)" using assms(2) by (simp add: pmm_managed_def)
  then obtain xs bm ys j where d: "page_bms s = xs @ bm # ys" "find_bm (page_bms s) a = Some (length xs)"
    "bm_ok bm" "j < bm_npage bm" "a = bm_frame bm j" "bm_ind bm a = j"
    "a \<notin> clears (xs @ ys) \<union> useds (xs @ ys)"
    using pmm_locate [OF bok al] by metis
  have "a \<in> clears (page_bms s) \<longleftrightarrow> \<not> bm_test bm j"
    using d by (auto simp: clears_append bm_clears_def bm_frame_inj)
  moreover have "s\<lparr>pmm_mutex := 0\<rparr> = s" using m by simp
  ultimately show ?thesis using m d(1,2,6) by (simp add: pmm_avl_def assms(3))
qed

lemma pmm_free_align: "pmm_free (page_align addr) s = pmm_free addr s"
  by (simp add: pmm_free_def)

text \<open>A small layout for the examples: one region of 16 pages at 1 MiB.\<close>

definition demo_layout :: "meml_ent list" where
  "demo_layout = [\<lparr>me_base = 0x100000, me_size = 0x40000\<rparr>]"

lemma demo_layout_ok: "layout_ok demo_layout"
  by (simp add: layout_ok_def demo_layout_def region_ok_def)

lemma demo_full: "clears (map (bm_init (\<lambda>_. - 1)) demo_layout) = {}"
  by (simp add: demo_layout_def bm_clears_def bm_test_bit bm_init_def Let_def)

lemma demo_managed: "0x101000 \<in> (\<Union>e \<in> set demo_layout. bm_frames (bm_init mem e))"
proof -
  have "bm_frame (bm_init mem (hd demo_layout)) 0 = 0x101000"
    "0 < bm_npage (bm_init mem (hd demo_layout))"
    by (simp_all add: demo_layout_def bm_init_def Let_def bm_frame_def npage_bm_def)
  then show ?thesis by (force simp: bm_frames_def demo_layout_def)
qed

text \<open>
  C6: \<open>pmm_alloc\<close> implements the set allocator: from a consistent state it returns (never
  spinning on its own mutex) with the mutex free again, and either no frame is available and it
  returns NULL, or it returns an available frame and exactly that frame stops being available.
\<close>
theorem pmm_alloc_correct:
  assumes "pmm_ok s"
  shows "\<exists>a s'. pmm_alloc s = Ret (a, s') \<and> pmm_ok s' \<and> pmm_mutex s' = 0 \<and>
    (if pmm_avail s = {} then a = PHYS_ADDR_NULL \<and> pmm_avail s' = {}
     else a \<noteq> PHYS_ADDR_NULL \<and> page_align a = a \<and> a \<in> pmm_avail s \<and>
          pmm_avail s' = pmm_avail s - {a})"
proof -
  obtain a s' where "pmm_alloc s = Ret (a, s')" using pmm.alloc_law [OF assms] by blast
  with pmm.alloc_Ret [OF assms this] show ?thesis by (auto simp: pmm_ok_def)
qed

theorem pmm_alloc_correct_witness:
  "\<exists>a s'. pmm_alloc (pmm_init (\<lambda>_. 0) demo_layout) = Ret (a, s') \<and> pmm_mutex s' = 0"
  using pmm_alloc_correct [of "pmm_init (\<lambda>_. 0) demo_layout"]
    pmm_init_spec [OF demo_layout_ok, of "\<lambda>_. 0"] by blast

text \<open>
  C24: \<open>pmm_free\<close> gives an allocated frame back: whatever the offset of the address inside the
  page, the frame becomes available again, nothing else changes, and the mutex is released.
\<close>
theorem pmm_free_correct:
  assumes "pmm_ok s" and "page_align addr \<in> pmm_managed s" and "page_align addr \<notin> pmm_avail s"
  shows "\<exists>s'. pmm_free addr s = Ret s' \<and> pmm_ok s' \<and> pmm_mutex s' = 0 \<and>
    pmm_managed s' = pmm_managed s \<and> pmm_avail s' = insert (page_align addr) (pmm_avail s)"
  using pmm.free_law [OF assms] by (auto simp: pmm_free_align pmm_ok_def)

theorem pmm_free_correct_witness:
  "\<exists>s'. pmm_free 0x101abc (pmm_init (\<lambda>_. - 1) demo_layout) = Ret s' \<and> pmm_avail s' = {0x101000}"
proof -
  let ?s = "pmm_init (\<lambda>_. - 1) demo_layout"
  note init = pmm_init_spec [OF demo_layout_ok, of "\<lambda>_. - 1"]
  have al: "page_align 0x101abc = 0x101000" by (simp add: page_align_def)
  have "page_align 0x101abc \<in> pmm_managed ?s" using init demo_managed by (simp add: al)
  moreover have "pmm_avail ?s = {}" using init demo_full by simp
  ultimately show ?thesis using pmm_free_correct [of ?s "0x101abc"] init by (auto simp: al)
qed

text \<open>
  C16: no frame is handed out twice and none is lost.  Starting from the layout of the machine,
  with any contents of memory, after any sequence of allocations and frees by clients that free
  only what they hold, the frames they hold and the frames still available are disjoint and
  together are exactly the frames that were available at the start.
\<close>
theorem pmm_conserves_frames:
  assumes "layout_ok ents"
  shows "\<exists>s owned. run_frames pmm_alloc pmm_free ops (pmm_init mem ents) {} = Ret (s, owned) \<and>
    pmm_ok s \<and> owned \<inter> pmm_avail s = {} \<and>
    owned \<union> pmm_avail s = clears (map (bm_init mem) ents)"
  using pmm.run_frames_conserve [of "pmm_init mem ents" "{}" ops] pmm_init_spec [OF assms, of mem]
  by simp

theorem pmm_conserves_frames_witness:
  "\<exists>s owned. run_frames pmm_alloc pmm_free [Take, Take, Give 0x101000, Take]
       (pmm_init (\<lambda>_. 0) demo_layout) {} = Ret (s, owned) \<and> owned \<inter> pmm_avail s = {}"
  using pmm_conserves_frames [OF demo_layout_ok, of "[Take, Take, Give 0x101000, Take]" "\<lambda>_. 0"]
  by blast

text \<open>
  Where \<open>pmm_init\<close> puts the bitmap of a region: the bytes that hold the bits of its frames
  all lie inside the region, in pages that are not frames of the bitmap itself, and the frames
  fill the rest of the region and no more.
\<close>
theorem pmm_bitmap_fits:
  assumes "region_ok e" and "j < bm_npage (bm_init mem e)"
  shows "unat (me_base e) + j div 8 < unat (bm_base (bm_init mem e)) \<and>
    unat (bm_base (bm_init mem e)) \<le> unat (bm_frame (bm_init mem e) j) \<and>
    unat (bm_frame (bm_init mem e) j) + 4096 \<le> unat (me_base e) + unat (me_size e)"
proof -
  note f = bm_init_fields [OF assms(1)]
  have "unat (bm_frame (bm_init mem e) j) = unat (bm_base (bm_init mem e)) + 4096 * j"
    using assms bm_init_ok by (simp add: unat_bm_frame)
  moreover have "unat (me_size e) div 4096 * 4096 \<le> unat (me_size e)" by simp
  ultimately show ?thesis using f assms(2) by auto
qed

theorem pmm_bitmap_fits_witness:
  "unat (0x100000 :: u64) + 3 div 8 < unat (bm_base (bm_init (\<lambda>_. 0) (hd demo_layout)))"
  using pmm_bitmap_fits [of "hd demo_layout" 3 "\<lambda>_. 0"] demo_layout_ok
  by (simp add: demo_layout_def layout_ok_def bm_init_def Let_def npage_bm_def)

text \<open>
  What \<open>pmm_avl\<close> answers for a managed frame: false exactly when the frame's bit is clear, so
  an allocated frame is reported with true and a frame that was never taken with false.
\<close>
theorem pmm_avl_reports_used:
  assumes "pmm_ok s" and "page_align addr \<in> pmm_managed s"
  shows "\<exists>r. pmm_avl addr s = Ret (r, s) \<and> (page_align addr \<notin> pmm_avail s \<longrightarrow> r) \<and>
    (r \<longleftrightarrow> page_align addr \<in> useds (page_bms s))"
proof -
  have "page_align addr \<in> clears (page_bms s) \<union> useds (page_bms s)"
    using assms(2) by (auto simp: pmm_managed_def clears_def useds_def bm_frames_split)
  moreover have "clears (page_bms s) \<inter> useds (page_bms s) = {}"
    using assms(1) by (simp add: pmm_ok_def clears_useds_disj)
  ultimately show ?thesis
    using pmm_lookup_used [OF assms refl] by (auto simp: pmm_avail_def)
qed

theorem pmm_avl_reports_used_witness:
  "\<exists>s. pmm_avl 0x101abc (pmm_init (\<lambda>_. - 1) demo_layout) = Ret (True, s)"
proof -
  note init = pmm_init_spec [OF demo_layout_ok, of "\<lambda>_. - 1"]
  have al: "page_align 0x101abc = 0x101000" by (simp add: page_align_def)
  show ?thesis
    using pmm_avl_reports_used [of "pmm_init (\<lambda>_. - 1) demo_layout" "0x101abc"] init demo_managed
      demo_full by (auto simp: al)
qed

end
