(* ===== verification/Paging.thy ===== *)
theory Paging
  imports Frame_Allocator Pmm
begin

section \<open>Page tables (paging.c, autil.S)\<close>

text \<open>
  The four levels of x86-64 page tables.  A table is a page frame of 512 entries of 8 bytes;
  physical memory is identity mapped, so the code reaches a table through its physical address.
  \<open>km_mem\<close> gives the quadword at the address of an entry, \<open>km_pmm\<close> is the state of the frame
  allocator, \<open>km_tlb\<close> the translations the processor has cached.  The allocator that
  \<open>next_pg_dir\<close> calls is an argument of the definitions; Pmm's \<open>pmm_alloc\<close> is what the kernel
  passes.  The lemmas follow the walk of the tables by paths: a path is the list of indices from
  the root, \<open>pg_tab\<close> the table it leads to.
\<close>

record 's kmem =
  km_mem :: "u64 \<Rightarrow> u64"
  km_pmm :: 's
  km_tlb :: "u64 \<Rightarrow> u64 option"

abbreviation PF_P :: u64 where "PF_P \<equiv> 0x1"
abbreviation PF_RW :: u64 where "PF_RW \<equiv> 0x2"
abbreviation PF_PCD :: u64 where "PF_PCD \<equiv> 0x10"
abbreviation PF_XD :: u64 where "PF_XD \<equiv> 0x8000000000000000"

subsection \<open>The operations\<close>

text \<open>\<open>rep stosq\<close>: \<open>n\<close> quadwords from \<open>dst\<close> upwards.\<close>

fun au_fms_64 :: "u64 \<Rightarrow> u64 \<Rightarrow> nat \<Rightarrow> (u64 \<Rightarrow> u64) \<Rightarrow> (u64 \<Rightarrow> u64)" where
  "au_fms_64 dst q 0 mem = mem"
| "au_fms_64 dst q (Suc n) mem = au_fms_64 (dst + 8) q n (mem(dst := q))"

record page_index =
  pi_pdpt :: u64
  pi_pdt :: u64
  pi_pt :: u64
  pi_pg :: u64

definition vaddr_to_pg_ind :: "u64 \<Rightarrow> page_index" where
  "vaddr_to_pg_ind vaddr =
     \<lparr>pi_pdpt = drop_bit 39 vaddr AND 0x1ff, pi_pdt = drop_bit 30 vaddr AND 0x1ff,
      pi_pt = drop_bit 21 vaddr AND 0x1ff, pi_pg = drop_bit 12 vaddr AND 0x1ff\<rparr>"

definition next_pg_dir :: "('s \<Rightarrow> (phys_addr_t \<times> 's) exec) \<Rightarrow> u64 \<Rightarrow> u64 \<Rightarrow> u64 \<Rightarrow> 's kmem \<Rightarrow>
    (u64 \<times> 's kmem) exec" where
  "next_pg_dir alloc cur ind flags m =
     (let e = cur + 8 * ind in
      if km_mem m e AND PF_P = 0 then
        seq (alloc (km_pmm m)) (\<lambda>(new, s).
        let mem = au_fms_64 new 0 (4096 div 8) (km_mem m);
            mem = mem(e := new);
            mem = mem(e := mem e OR (PF_P OR flags))
        in Ret (mem e AND NOT 0xfff, m\<lparr>km_mem := mem, km_pmm := s\<rparr>))
      else Ret (km_mem m e AND NOT 0xfff, m))"

definition some_next_pg_dir :: "u64 \<Rightarrow> u64 \<Rightarrow> 's kmem \<Rightarrow> u64" where
  "some_next_pg_dir cur ind m =
     (if cur = 0 \<or> km_mem m (cur + 8 * ind) AND PF_P = 0 then 0
      else km_mem m (cur + 8 * ind) AND NOT 0xfff)"

definition paging_map :: "('s \<Rightarrow> (phys_addr_t \<times> 's) exec) \<Rightarrow> u64 \<Rightarrow> phys_addr_t \<Rightarrow> u64 \<Rightarrow> u64 \<Rightarrow>
    's kmem \<Rightarrow> 's kmem exec" where
  "paging_map alloc pml4 paddr vaddr flags m =
     (let paddr = page_align paddr; pi = vaddr_to_pg_ind vaddr in
      seq (next_pg_dir alloc pml4 (pi_pdpt pi) flags m) (\<lambda>(pdpt, m).
      seq (next_pg_dir alloc pdpt (pi_pdt pi) flags m) (\<lambda>(pdt, m).
      seq (next_pg_dir alloc pdt (pi_pt pi) flags m) (\<lambda>(pt, m).
      let e = pt + 8 * pi_pg pi;
          mem = (km_mem m)(e := paddr);
          mem = mem(e := mem e OR (PF_P OR flags))
      in Ret (m\<lparr>km_mem := mem\<rparr>)))))"

definition paging_unmap :: "u64 \<Rightarrow> u64 \<Rightarrow> 's kmem \<Rightarrow> 's kmem" where
  "paging_unmap pml4 vaddr m =
     (let pi = vaddr_to_pg_ind vaddr;
          pdpt = some_next_pg_dir pml4 (pi_pdpt pi) m;
          pdt = some_next_pg_dir pdpt (pi_pdt pi) m;
          pt = some_next_pg_dir pdt (pi_pt pi) m
      in if pt = 0 then m else m\<lparr>km_mem := (km_mem m)(pt + 8 * pi_pg pi := 0)\<rparr>)"

text \<open>The first \<open>n\<close> values \<open>0, PAGE_SIZE, 2 * PAGE_SIZE, \<dots>\<close> of a loop over pages.\<close>

definition page_addr :: "nat \<Rightarrow> u64" where
  "page_addr k = of_nat (4096 * k)"

definition page_steps :: "nat \<Rightarrow> u64 list" where
  "page_steps n = map page_addr [0..<n]"

definition paging_create_map :: "('s \<Rightarrow> (phys_addr_t \<times> 's) exec) \<Rightarrow> 's kmem \<Rightarrow>
    (phys_addr_t \<times> 's kmem) exec" where
  "paging_create_map alloc m =
     seq (alloc (km_pmm m)) (\<lambda>(pml4, s).
     let m = m\<lparr>km_mem := au_fms_64 pml4 0 (4096 div 8) (km_mem m), km_pmm := s\<rparr> in
     seq (for_each (page_steps 256) (\<lambda>i. paging_map alloc pml4 i i PF_RW) m) (\<lambda>m.
     Ret (pml4, m)))"

text \<open>\<open>invlpg\<close>: the processor forgets what it cached for the page.\<close>

definition paging_invlpg :: "u64 \<Rightarrow> 's kmem \<Rightarrow> 's kmem" where
  "paging_invlpg vaddr m = m\<lparr>km_tlb := (km_tlb m)(page_align vaddr := None)\<rparr>"

subsection \<open>Addresses of entries\<close>

lemma page_align_bound: "page_align t = t \<Longrightarrow> unat t \<le> 2 ^ 64 - 4096"
  using unat_u64_bound [of t] by (auto simp: page_align_eq_iff)

lemma unat_pg_ent:
  assumes "page_align t = t" and "i < 512"
  shows "unat (t + 8 * i) = unat t + 8 * unat i"
proof -
  have i: "unat i < 512" using assms(2) by (simp add: word_less_nat_alt)
  then have "unat (8 * i) = 8 * unat i" by (simp add: unat_word_ariths)
  with i page_align_bound [OF assms(1)] show ?thesis by (simp add: unat_add_u64)
qed

lemma page_align_pg_ent:
  assumes "page_align t = t" and "i < 512"
  shows "page_align (t + 8 * i) = t"
proof -
  have i: "unat i < 512" using assms(2) by (simp add: word_less_nat_alt)
  obtain k where "unat t = 4096 * k" using assms(1) by (auto simp: page_align_eq_iff)
  with i show ?thesis by (simp add: u64_eq_iff_unat unat_page_align unat_pg_ent [OF assms])
qed

lemma pg_ent_inj:
  assumes "page_align t = t" "page_align u = u" "i < 512" "j < 512"
  shows "t + 8 * i = u + 8 * j \<longleftrightarrow> t = u \<and> i = j"
proof
  assume eq: "t + 8 * i = u + 8 * j"
  then have "page_align (t + 8 * i) = page_align (u + 8 * j)" by simp
  then have tu: "t = u" using assms by (simp add: page_align_pg_ent)
  have "unat t + 8 * unat i = unat u + 8 * unat j"
    using arg_cong [OF eq, of unat] assms by (simp add: unat_pg_ent)
  with tu show "t = u \<and> i = j" by (simp add: word_unat_eq_iff)
qed simp

lemma au_fms_64_apply:
  "au_fms_64 dst q n mem a = (if \<exists>k < n. a = dst + 8 * of_nat k then q else mem a)"
proof (induction n arbitrary: dst mem)
  case 0
  then show ?case by simp
next
  case (Suc n)
  have "(\<exists>k < Suc n. a = dst + 8 * of_nat k) \<longleftrightarrow> a = dst \<or> (\<exists>k < n. a = dst + 8 + 8 * of_nat k)"
    by (simp add: Ex_less_Suc2 algebra_simps)
  with Suc.IH show ?case by auto
qed

lemma zeroed_frame:
  assumes "page_align new = new" "page_align t = t" "i < 512"
  shows "au_fms_64 new 0 (4096 div 8) mem (t + 8 * i) = (if t = new then 0 else mem (t + 8 * i))"
proof -
  have lt: "(of_nat k :: u64) < 512" if "k < 512" for k
    using that by (simp add: word_less_nat_alt unat_of_nat)
  have "i = of_nat (unat i)" "unat i < 512" using assms(3) by (simp_all add: word_less_nat_alt)
  then have "(\<exists>k < 512. t + 8 * i = new + 8 * of_nat k) \<longleftrightarrow> t = new"
    using assms lt by (metis pg_ent_inj)
  then show ?thesis by (simp add: au_fms_64_apply)
qed

lemma vaddr_ind_bound:
  "pi_pdpt (vaddr_to_pg_ind v) < 512" "pi_pdt (vaddr_to_pg_ind v) < 512"
  "pi_pt (vaddr_to_pg_ind v) < 512" "pi_pg (vaddr_to_pg_ind v) < 512"
proof -
  have "x AND 0x1ff < 512" for x :: u64
    using and_mask_less' [of 9 x] by (simp add: mask_eq_exp_minus_1)
  then show "pi_pdpt (vaddr_to_pg_ind v) < 512" "pi_pdt (vaddr_to_pg_ind v) < 512"
    "pi_pt (vaddr_to_pg_ind v) < 512" "pi_pg (vaddr_to_pg_ind v) < 512"
    by (simp_all add: vaddr_to_pg_ind_def)
qed

subsection \<open>The tree of tables\<close>

text \<open>The table an entry points to, the table a path of indices leads to.\<close>

definition pg_next :: "(u64 \<Rightarrow> u64) \<Rightarrow> u64 \<Rightarrow> u64 \<Rightarrow> u64 option" where
  "pg_next mem t i =
     (if mem (t + 8 * i) AND PF_P = 0 then None else Some (mem (t + 8 * i) AND NOT 0xfff))"

fun pg_tab :: "(u64 \<Rightarrow> u64) \<Rightarrow> u64 \<Rightarrow> u64 list \<Rightarrow> u64 option" where
  "pg_tab mem t [] = Some t"
| "pg_tab mem t (i # is) = (case pg_next mem t i of None \<Rightarrow> None | Some u \<Rightarrow> pg_tab mem u is)"

lemma pg_tab_snoc:
  "pg_tab mem t (q @ [i]) = (case pg_tab mem t q of None \<Rightarrow> None | Some u \<Rightarrow> pg_next mem u i)"
  by (induction q arbitrary: t) (auto split: option.splits)

definition pg_path :: "u64 list \<Rightarrow> bool" where
  "pg_path q \<longleftrightarrow> length q \<le> 3 \<and> (\<forall>i \<in> set q. i < 512)"

lemma pg_path_snoc: "pg_path (q @ [i]) \<longleftrightarrow> pg_path q \<and> length q \<le> 2 \<and> i < 512"
  by (auto simp: pg_path_def)

text \<open>
  A tree of tables: different paths lead to different page frames, none of them NULL and none of
  them still available for allocation.
\<close>

definition pg_tree :: "(u64 \<Rightarrow> u64) \<Rightarrow> u64 \<Rightarrow> u64 set \<Rightarrow> bool" where
  "pg_tree mem root av \<longleftrightarrow>
     (\<forall>q t. pg_path q \<longrightarrow> pg_tab mem root q = Some t \<longrightarrow> t \<noteq> 0 \<and> page_align t = t \<and> t \<notin> av) \<and>
     (\<forall>q r t. pg_path q \<longrightarrow> pg_path r \<longrightarrow> pg_tab mem root q = Some t \<longrightarrow> pg_tab mem root r = Some t \<longrightarrow> q = r)"

lemma pg_treeD:
  assumes "pg_tree mem root av" "pg_path q" "pg_tab mem root q = Some t"
  shows "t \<noteq> 0" "page_align t = t" "t \<notin> av"
    and "pg_path r \<Longrightarrow> pg_tab mem root r = Some t \<Longrightarrow> r = q"
  using assms unfolding pg_tree_def by blast+

lemma pg_tree_mono: "pg_tree mem root av \<Longrightarrow> av' \<subseteq> av \<Longrightarrow> pg_tree mem root av'"
  unfolding pg_tree_def by blast

text \<open>The leaf entry of a virtual address, if its table exists and the entry is present.\<close>

definition pg_idx :: "u64 \<Rightarrow> u64 list" where
  "pg_idx v = (let pi = vaddr_to_pg_ind v in [pi_pdpt pi, pi_pdt pi, pi_pt pi])"

lemma pg_path_idx [simp]: "pg_path (pg_idx v)" "pg_path (take k (pg_idx v))"
proof -
  show p: "pg_path (pg_idx v)" by (simp add: pg_path_def pg_idx_def Let_def vaddr_ind_bound)
  then show "pg_path (take k (pg_idx v))"
    by (auto simp: pg_path_def dest: in_set_takeD)
qed

definition pg_walk :: "(u64 \<Rightarrow> u64) \<Rightarrow> u64 \<Rightarrow> u64 \<Rightarrow> u64 option" where
  "pg_walk mem root v =
     (case pg_tab mem root (pg_idx v) of None \<Rightarrow> None
      | Some pt \<Rightarrow> (let e = mem (pt + 8 * pi_pg (vaddr_to_pg_ind v)) in
                    if e AND PF_P = 0 then None else Some e))"

definition same_page :: "u64 \<Rightarrow> u64 \<Rightarrow> bool" where
  "same_page v w \<longleftrightarrow> vaddr_to_pg_ind v = vaddr_to_pg_ind w"

lemma same_page_iff:
  "same_page v w \<longleftrightarrow> pg_idx v = pg_idx w \<and> pi_pg (vaddr_to_pg_ind v) = pi_pg (vaddr_to_pg_ind w)"
  by (auto simp: same_page_def pg_idx_def Let_def)

text \<open>
  The processor writes through an address only if the entries of all four levels allow it.  Where every linked table is
  linked for writing, the flag of the last level decides.
\<close>

fun tabs_rw :: "(u64 \<Rightarrow> u64) \<Rightarrow> u64 \<Rightarrow> u64 list \<Rightarrow> bool" where
  "tabs_rw mem t [] = True"
| "tabs_rw mem t (i # is) = (mem (t + 8 * i) AND PF_RW \<noteq> 0 \<and> (case pg_next mem t i of None \<Rightarrow> False | Some u \<Rightarrow> tabs_rw mem u is))"

definition pg_writable :: "(u64 \<Rightarrow> u64) \<Rightarrow> u64 \<Rightarrow> u64 \<Rightarrow> bool" where
  "pg_writable mem root v \<longleftrightarrow> tabs_rw mem root (pg_idx v) \<and>
     (case pg_walk mem root v of None \<Rightarrow> False | Some e \<Rightarrow> e AND PF_RW \<noteq> 0)"

definition pg_rw :: "(u64 \<Rightarrow> u64) \<Rightarrow> u64 \<Rightarrow> bool" where
  "pg_rw mem root \<longleftrightarrow> (\<forall>q i t. pg_path (q @ [i]) \<longrightarrow> pg_tab mem root q = Some t \<longrightarrow>
     mem (t + 8 * i) AND PF_P \<noteq> 0 \<longrightarrow> mem (t + 8 * i) AND PF_RW \<noteq> 0)"

lemma pg_rwD:
  "pg_rw mem root \<Longrightarrow> pg_path (q @ [i]) \<Longrightarrow> pg_tab mem root q = Some t \<Longrightarrow> mem (t + 8 * i) AND PF_P \<noteq> 0 \<Longrightarrow>
   mem (t + 8 * i) AND PF_RW \<noteq> 0"
  unfolding pg_rw_def by blast

lemma tabs_rw_snoc:
  "tabs_rw mem t (q @ [i]) \<longleftrightarrow> tabs_rw mem t q \<and> (case pg_tab mem t q of None \<Rightarrow> False
     | Some u \<Rightarrow> mem (u + 8 * i) AND PF_RW \<noteq> 0 \<and> pg_next mem u i \<noteq> None)"
  by (induction q arbitrary: t) (auto split: option.splits)

lemma tabs_rw_tab:
  assumes "pg_rw mem root"
  shows "pg_path q \<Longrightarrow> pg_tab mem root q \<noteq> None \<Longrightarrow> tabs_rw mem root q"
proof (induction q rule: rev_induct)
  case (snoc i q)
  then obtain t where t: "pg_tab mem root q = Some t" "pg_next mem t i \<noteq> None" by (auto simp: pg_tab_snoc split: option.splits)
  then have "mem (t + 8 * i) AND PF_P \<noteq> 0" by (auto simp: pg_next_def split: if_splits)
  then show ?case
    using snoc t pg_rwD [OF assms snoc.prems(1) t(1)] by (simp add: tabs_rw_snoc pg_path_snoc)
qed simp

lemma pg_writable_rw:
  assumes "pg_rw mem root"
  shows "pg_writable mem root v \<longleftrightarrow> (case pg_walk mem root v of None \<Rightarrow> False | Some e \<Rightarrow> e AND PF_RW \<noteq> 0)"
proof -
  have "tabs_rw mem root (pg_idx v)" if "pg_walk mem root v \<noteq> None"
    using that by (intro tabs_rw_tab [OF assms]) (auto simp: pg_walk_def split: option.splits)
  then show ?thesis by (auto simp: pg_writable_def split: option.splits)
qed

lemma pg_writable_same:
  assumes "same_page v w"
  shows "pg_writable mem root v \<longleftrightarrow> pg_writable mem root w"
proof -
  have "pg_idx v = pg_idx w" "pi_pg (vaddr_to_pg_ind v) = pi_pg (vaddr_to_pg_ind w)" using assms by (simp_all add: same_page_iff)
  then show ?thesis unfolding pg_writable_def pg_walk_def by metis
qed

text \<open>
  Linking a fresh zeroed frame \<open>new\<close> as entry \<open>i\<close> of the table \<open>cur\<close>: on paths this is one map
  update, and no leaf changes.
\<close>

definition links :: "(u64 \<Rightarrow> u64) \<Rightarrow> u64 \<Rightarrow> u64 \<Rightarrow> u64 \<Rightarrow> (u64 \<Rightarrow> u64) \<Rightarrow> bool" where
  "links mem cur i new mem' \<longleftrightarrow> (\<exists>e. e AND PF_P \<noteq> 0 \<and> e AND NOT 0xfff = new \<and>
     (\<forall>t j. page_align t = t \<longrightarrow> j < 512 \<longrightarrow>
        mem' (t + 8 * j) = (if t = cur \<and> j = i then e else if t = new then 0 else mem (t + 8 * j))))"

lemma links_next:
  assumes "links mem cur i new mem'" "page_align t = t" "j < 512" "cur \<noteq> new"
  shows "pg_next mem' t j = (if t = cur \<and> j = i then Some new else if t = new then None else pg_next mem t j)"
proof -
  obtain e where e: "e AND PF_P \<noteq> 0" "e AND NOT 0xfff = new"
    "mem' (t + 8 * j) = (if t = cur \<and> j = i then e else if t = new then 0 else mem (t + 8 * j))"
    using assms(1-3) unfolding links_def by blast
  then show ?thesis using assms(4) by (cases "t = cur \<and> j = i") (auto simp: pg_next_def)
qed

lemma links_tab:
  assumes tree: "pg_tree mem root av" and lnk: "links mem cur i new mem'"
    and p: "pg_path (p @ [i])" "pg_tab mem root p = Some cur" "pg_tab mem root (p @ [i]) = None"
    and new: "new \<in> av" "page_align new = new"
  shows "pg_path q \<Longrightarrow> pg_tab mem' root q = ((pg_tab mem root)(p @ [i] \<mapsto> new)) q"
proof (induction q rule: rev_induct)
  case Nil
  then show ?case by simp
next
  case (snoc j q)
  have pp: "pg_path p" and pq: "pg_path q" and j: "j < 512"
    using p(1) snoc.prems by (auto simp: pg_path_snoc)
  note cur = pg_treeD [OF tree pp p(2)]
  have ne: "cur \<noteq> new" using cur(3) new(1) by auto
  show ?case
  proof (cases "q = p @ [i]")
    case True
    have "pg_tab mem' root (p @ [i]) = Some new" using True snoc.IH [OF pq] by simp
    then have "pg_tab mem' root (q @ [j]) = None"
      using links_next [OF lnk new(2) j ne] ne by (simp only: True pg_tab_snoc option.simps) simp
    moreover have "pg_tab mem root (q @ [j]) = None"
      by (simp only: True pg_tab_snoc [of _ _ "p @ [i]" j] p(3) option.simps)
    ultimately show ?thesis using True by simp
  next
    case False
    then have q: "pg_tab mem' root q = pg_tab mem root q" using snoc.IH [OF pq] by simp
    show ?thesis
    proof (cases "pg_tab mem root q")
      case None
      then show ?thesis using q p(2) by (auto simp: pg_tab_snoc)
    next
      case (Some t)
      note t = pg_treeD [OF tree pq Some]
      have "t \<noteq> new" using t(3) new(1) by auto
      moreover have tc: "t = cur \<longleftrightarrow> q = p" using t(4) [OF pp] p(2) Some by (metis option.inject)
      ultimately have "pg_tab mem' root (q @ [j]) =
          (if q = p \<and> j = i then Some new else pg_next mem t j)"
        using links_next [OF lnk t(2) j ne] by (simp add: pg_tab_snoc q Some)
      then show ?thesis by (simp add: pg_tab_snoc Some)
    qed
  qed
qed

lemma links_tree:
  assumes "pg_tree mem root av" "links mem cur i new mem'"
    "pg_path (p @ [i])" "pg_tab mem root p = Some cur" "pg_tab mem root (p @ [i]) = None"
    "new \<in> av" "page_align new = new" "new \<noteq> 0"
  shows "pg_tree mem' root (av - {new})"
proof -
  note tab = links_tab [OF assms(1-7)]
  have fresh: "pg_tab mem root q \<noteq> Some new" if "pg_path q" for q
    using pg_treeD(3) [OF assms(1) that] assms(6) by auto
  show ?thesis
    unfolding pg_tree_def
  proof (intro conjI allI impI)
    fix q t assume q: "pg_path q" "pg_tab mem' root q = Some t"
    show "t \<noteq> 0" and "page_align t = t" and "t \<notin> av - {new}"
    proof -
      have "t = new \<or> pg_tab mem root q = Some t"
        using tab [OF q(1)] q(2) by (cases "q = p @ [i]") simp_all
      then have "t \<noteq> 0 \<and> page_align t = t \<and> t \<notin> av - {new}"
        using pg_treeD [OF assms(1) q(1)] assms(7,8) by blast
      then show "t \<noteq> 0" "page_align t = t" "t \<notin> av - {new}" by blast+
    qed
  next
    fix q r t assume q: "pg_path q" "pg_path r" "pg_tab mem' root q = Some t" "pg_tab mem' root r = Some t"
    show "q = r"
    proof (cases "t = new")
      case True
      then show ?thesis
        using tab [OF q(1)] tab [OF q(2)] q(3,4) fresh [OF q(1)] fresh [OF q(2)]
        by (metis fun_upd_apply)
    next
      case False
      then have "pg_tab mem root q = Some t" "pg_tab mem root r = Some t"
        using tab [OF q(1)] tab [OF q(2)] q(3,4) by (metis fun_upd_apply option.inject)+
      then show ?thesis using pg_treeD(4) [OF assms(1) q(2)] q(1) by blast
    qed
  qed
qed

lemma links_walk:
  assumes "pg_tree mem root av" "links mem cur i new mem'"
    "pg_path (p @ [i])" "pg_tab mem root p = Some cur" "pg_tab mem root (p @ [i]) = None"
    "new \<in> av" "page_align new = new"
  shows "pg_walk mem' root v = pg_walk mem root v"
proof -
  have tab: "pg_tab mem' root (pg_idx v) = ((pg_tab mem root)(p @ [i] \<mapsto> new)) (pg_idx v)"
    by (rule links_tab [OF assms]) simp
  have pp: "pg_path p" "length p \<le> 2" using assms(3) by (auto simp: pg_path_snoc)
  note cur = pg_treeD [OF assms(1) pp(1) assms(4)]
  have ne: "cur \<noteq> new" using cur(3) assms(6) by auto
  let ?j = "pi_pg (vaddr_to_pg_ind v)"
  have j: "?j < 512" by (rule vaddr_ind_bound)
  show ?thesis
  proof (cases "pg_idx v = p @ [i]")
    case True
    have "mem' (new + 8 * ?j) = 0"
      using assms(2) assms(7) j ne by (auto simp: links_def)
    then show ?thesis using tab True assms(5) by (simp add: pg_walk_def)
  next
    case False
    show ?thesis
    proof (cases "pg_tab mem root (pg_idx v)")
      case None
      then show ?thesis using tab False by (simp add: pg_walk_def)
    next
      case (Some t)
      note t = pg_treeD [OF assms(1) pg_path_idx(1) Some]
      have "length (pg_idx v) = 3" by (simp add: pg_idx_def Let_def)
      then have "t \<noteq> cur" using t(4) [OF pp(1)] assms(4) pp(2) by auto
      moreover have "t \<noteq> new" using t(3) assms(6) by auto
      ultimately have "mem' (t + 8 * ?j) = mem (t + 8 * ?j)"
        using assms(2) t(2) j by (auto simp: links_def)
      then show ?thesis using tab False Some by (simp add: pg_walk_def)
    qed
  qed
qed

text \<open>A table linked for writing keeps all tables writable.\<close>

lemma links_rw:
  assumes tree: "pg_tree mem root av" and lnk: "links mem cur i new mem'"
    and p: "pg_path (p @ [i])" "pg_tab mem root p = Some cur" "pg_tab mem root (p @ [i]) = None"
    and new: "new \<in> av" "page_align new = new" and rw: "pg_rw mem root" "mem' (cur + 8 * i) AND PF_RW \<noteq> 0"
  shows "pg_rw mem' root"
  unfolding pg_rw_def
proof (intro allI impI)
  fix q j t assume q: "pg_path (q @ [j])" "pg_tab mem' root q = Some t" "mem' (t + 8 * j) AND PF_P \<noteq> 0"
  have pq: "pg_path q" "j < 512" using q(1) by (simp_all add: pg_path_snoc)
  have "pg_path p" using p(1) by (simp add: pg_path_snoc)
  from pg_treeD(3) [OF tree this p(2)] have ne: "cur \<noteq> new" using new(1) by auto
  have ent: "mem' (u + 8 * j) = mem' (cur + 8 * i) \<or> mem' (u + 8 * j) = (if u = new then 0 else mem (u + 8 * j))"
    if "page_align u = u" for u
    using lnk that pq(2) unfolding links_def by metis
  have old: "u \<noteq> new \<or> mem' (u + 8 * j) = 0" if "u = new" for u
  proof -
    obtain e where "mem' (new + 8 * j) = (if new = cur \<and> j = i then e else if new = new then 0 else mem (new + 8 * j))"
      using lnk new(2) pq(2) unfolding links_def by blast
    then show ?thesis using ne that by auto
  qed
  show "mem' (t + 8 * j) AND PF_RW \<noteq> 0"
  proof (cases "q = p @ [i]")
    case True
    then have "t = new" using links_tab [OF tree lnk p new pq(1)] q(2) by simp
    then show ?thesis using old [of new] q(3) by simp
  next
    case False
    then have t: "pg_tab mem root q = Some t" using links_tab [OF tree lnk p new pq(1)] q(2) by simp
    have "page_align t = t" "t \<noteq> new" using pg_treeD(2,3) [OF tree pq(1) t] new(1) by auto
    then show ?thesis using ent [of t] rw pg_rwD [OF rw(1) q(1) t] q(3) by auto
  qed
qed

text \<open>Writing the leaf entry of \<open>v\<close> changes no table and no other page's translation.\<close>

lemma leaf_write_next:
  assumes "pg_tree mem root av" "pg_tab mem root (pg_idx v) = Some pt" "j < 512"
    and "pg_path q" "length q \<le> 2" "pg_tab mem root q = Some t" "i < 512"
  shows "pg_next (mem(pt + 8 * j := e)) t i = pg_next mem t i"
proof -
  note t = pg_treeD [OF assms(1,4,6)] and pt = pg_treeD [OF assms(1) pg_path_idx(1) assms(2)]
  have "length (pg_idx v) = 3" by (simp add: pg_idx_def Let_def)
  then have "t \<noteq> pt" using pt(4) [OF assms(4)] assms(5,6) by auto
  then have "t + 8 * i \<noteq> pt + 8 * j"
    using t(2) pt(2) assms(3,7) by (simp add: pg_ent_inj)
  then show ?thesis by (simp add: pg_next_def)
qed

lemma leaf_write_tab:
  assumes "pg_tree mem root av" "pg_tab mem root (pg_idx v) = Some pt" "j < 512"
  shows "pg_path q \<Longrightarrow> pg_tab (mem(pt + 8 * j := e)) root q = pg_tab mem root q"
proof (induction q rule: rev_induct)
  case Nil
  then show ?case by simp
next
  case (snoc i q)
  then have q: "pg_path q" "length q \<le> 2" "i < 512" by (simp_all add: pg_path_snoc)
  show ?case
  proof (cases "pg_tab mem root q")
    case None
    then show ?thesis using snoc.IH [OF q(1)] by (simp add: pg_tab_snoc)
  next
    case (Some t)
    show ?thesis
      by (simp only: pg_tab_snoc snoc.IH [OF q(1)] Some option.simps
          leaf_write_next [OF assms q(1,2) Some q(3)])
  qed
qed

lemma leaf_write_tree:
  assumes "pg_tree mem root av" "pg_tab mem root (pg_idx v) = Some pt" "j < 512"
  shows "pg_tree (mem(pt + 8 * j := e)) root av"
  using assms(1) unfolding pg_tree_def
  by (simp add: leaf_write_tab [OF assms])

lemma leaf_write_rw:
  assumes "pg_tree mem root av" "pg_tab mem root (pg_idx v) = Some pt" "j < 512" and "pg_rw mem root"
  shows "pg_rw (mem(pt + 8 * j := e)) root"
  unfolding pg_rw_def
proof (intro allI impI)
  fix q i t assume q: "pg_path (q @ [i])" "pg_tab (mem(pt + 8 * j := e)) root q = Some t"
    "(mem(pt + 8 * j := e)) (t + 8 * i) AND PF_P \<noteq> 0"
  have pq: "pg_path q" "length q \<le> 2" "i < 512" using q(1) by (simp_all add: pg_path_snoc)
  have t: "pg_tab mem root q = Some t" using q(2) leaf_write_tab [OF assms(1-3) pq(1)] by simp
  have "length (pg_idx v) = 3" by (simp add: pg_idx_def Let_def)
  then have "t \<noteq> pt" using pg_treeD(4) [OF assms(1) pg_path_idx(1) assms(2) pq(1)] t pq(2) by auto
  moreover have "page_align t = t" "page_align pt = pt"
    using pg_treeD(2) [OF assms(1) pq(1) t] pg_treeD(2) [OF assms(1) pg_path_idx(1) assms(2)] by simp_all
  ultimately have "t + 8 * i \<noteq> pt + 8 * j" using pq(3) assms(3) by (simp add: pg_ent_inj)
  then show "(mem(pt + 8 * j := e)) (t + 8 * i) AND PF_RW \<noteq> 0" using pg_rwD [OF assms(4) q(1) t] q(3) by simp
qed

lemma leaf_write_walk:
  assumes "pg_tree mem root av" "pg_tab mem root (pg_idx v) = Some pt"
  shows "pg_walk (mem(pt + 8 * pi_pg (vaddr_to_pg_ind v) := e)) root w =
    (if same_page v w then if e AND PF_P = 0 then None else Some e else pg_walk mem root w)"
proof (cases "pg_tab mem root (pg_idx w)")
  case None
  then have "\<not> same_page v w" using assms(2) by (auto simp: same_page_iff)
  with None show ?thesis
    by (simp add: pg_walk_def leaf_write_tab [OF assms vaddr_ind_bound(4)])
next
  case (Some t)
  have "t = pt \<longleftrightarrow> pg_idx w = pg_idx v"
    using pg_treeD(4) [OF assms(1) pg_path_idx(1) assms(2) pg_path_idx(1)] Some assms(2)
    by (metis option.inject)
  moreover have "page_align t = t" "page_align pt = pt"
    using pg_treeD(2) [OF assms(1) pg_path_idx(1)] Some assms(2) by blast+
  ultimately have "t + 8 * pi_pg (vaddr_to_pg_ind w) = pt + 8 * pi_pg (vaddr_to_pg_ind v) \<longleftrightarrow>
      same_page v w"
    by (auto simp: pg_ent_inj vaddr_ind_bound same_page_iff)
  with Some show ?thesis
    by (simp add: pg_walk_def leaf_write_tab [OF assms vaddr_ind_bound(4)])
qed

subsection \<open>The entries the code writes\<close>

text \<open>Flags that stay clear of the address bits, as all of \<open>PF_*\<close> but \<open>PF_XD\<close> do.\<close>

definition low_flags :: "u64 \<Rightarrow> bool" where
  "low_flags flags \<longleftrightarrow> flags AND NOT 0xfff = 0"

lemma entry_present: "(x OR (PF_P OR f)) AND PF_P \<noteq> 0"
proof -
  have "odd (x OR (PF_P OR f))" by (simp add: even_or_iff)
  then show ?thesis by (simp add: and_one_eq odd_iff_mod_2_eq_one)
qed

lemma entry_frame:
  assumes "page_align x = x" "low_flags f"
  shows "(x OR (PF_P OR f)) AND NOT 0xfff = x"
proof -
  have "x AND NOT 0xfff = x" using assms(1) by (simp add: page_align_def)
  moreover have "PF_P AND NOT 0xfff = 0" by simp
  ultimately show ?thesis
    using assms(2) by (simp only: bit.conj_disj_distrib2 low_flags_def) simp
qed

lemma entry_rw: "page_align x = x \<Longrightarrow> (x OR (PF_P OR f)) AND PF_RW \<noteq> 0 \<longleftrightarrow> f AND PF_RW \<noteq> 0"
proof -
  assume x: "page_align x = x"
  have b: "y AND PF_RW \<noteq> 0 \<longleftrightarrow> bit y 1" for y :: u64
    using bit_iff_and_push_bit_not_eq_0 [of y 1] by (simp add: push_bit_eq_mult)
  have "x = x AND NOT (mask 12)" using x unfolding page_align_def mask_12 by (rule sym)
  then have "\<not> bit x 1" by (metis bit_and_iff bit_mask_iff bit_not_iff one_less_numeral_iff semiring_norm(76))
  then show ?thesis by (simp add: b bit_simps)
qed

lemma next_pg_dir_links:
  assumes "page_align cur = cur" "page_align new = new" "i < 512" "low_flags flags"
  shows "links mem cur i new
    ((au_fms_64 new 0 (4096 div 8) mem)(cur + 8 * i := new OR (PF_P OR flags)))"
  unfolding links_def
proof (intro exI conjI allI impI)
  show "(new OR (PF_P OR flags)) AND PF_P \<noteq> 0" by (rule entry_present)
  show "(new OR (PF_P OR flags)) AND NOT 0xfff = new" by (rule entry_frame) (rule assms)+
  fix t j :: u64 assume "page_align t = t" "j < 512"
  then show "((au_fms_64 new 0 (4096 div 8) mem)(cur + 8 * i := new OR (PF_P OR flags))) (t + 8 * j) =
      (if t = cur \<and> j = i then new OR (PF_P OR flags) else if t = new then 0 else mem (t + 8 * j))"
    using assms(1,3)
    by (simp only: fun_upd_apply zeroed_frame [OF assms(2)] pg_ent_inj)
qed

text \<open>A state with a tree of tables at \<open>root\<close>, for an allocator with this invariant.\<close>

definition pg_wf :: "('s \<Rightarrow> bool) \<Rightarrow> ('s \<Rightarrow> phys_addr_t set) \<Rightarrow> u64 \<Rightarrow> 's kmem \<Rightarrow> bool" where
  "pg_wf ok avail root m \<longleftrightarrow> ok (km_pmm m) \<and> pg_tree (km_mem m) root (avail (km_pmm m))"

text \<open>
  What it takes to have a table \<open>t\<close> at the path \<open>q\<close>: nothing if it is there, otherwise one fresh
  frame; every other table and every translation stays.
\<close>

definition opens_tab :: "('s \<Rightarrow> phys_addr_t set) \<Rightarrow> u64 \<Rightarrow> u64 list \<Rightarrow> u64 \<Rightarrow> 's kmem \<Rightarrow> 's kmem \<Rightarrow> bool" where
  "opens_tab avail root q t m m' \<longleftrightarrow>
     (\<forall>v. pg_walk (km_mem m') root v = pg_walk (km_mem m) root v) \<and>
     (\<forall>r. pg_path r \<longrightarrow> pg_tab (km_mem m') root r = ((pg_tab (km_mem m) root)(q \<mapsto> t)) r) \<and>
     (pg_tab (km_mem m) root q \<noteq> None \<longrightarrow> pg_tab (km_mem m) root q = Some t) \<and>
     km_tlb m' = km_tlb m \<and> avail (km_pmm m') \<subseteq> avail (km_pmm m) \<and>
     card (avail (km_pmm m')) =
       card (avail (km_pmm m)) - (if pg_tab (km_mem m) root q = None then 1 else 0)"

lemma opens_tab_at: "opens_tab avail root q t m m' \<Longrightarrow> pg_path q \<Longrightarrow> pg_tab (km_mem m') root q = Some t"
  by (simp add: opens_tab_def)

lemma opens_tab_other:
  "opens_tab avail root q t m m' \<Longrightarrow> pg_path r \<Longrightarrow> r \<noteq> q \<Longrightarrow>
   pg_tab (km_mem m') root r = pg_tab (km_mem m) root r"
  by (simp add: opens_tab_def)

lemma opens_tab_keeps:
  "opens_tab avail root q t m m' \<Longrightarrow> pg_path r \<Longrightarrow> pg_tab (km_mem m) root r \<noteq> None \<Longrightarrow>
   pg_tab (km_mem m') root r = pg_tab (km_mem m) root r"
  by (cases "r = q") (auto simp: opens_tab_def)

context frame_source
begin

lemma next_pg_dir_spec:
  assumes wf: "pg_wf ok avail root m" and p: "pg_path (p @ [i])"
    and cur: "pg_tab (km_mem m) root p = Some cur" and fl: "low_flags flags"
    and av: "pg_tab (km_mem m) root (p @ [i]) = None \<Longrightarrow> avail (km_pmm m) \<noteq> {}"
  shows "\<exists>t m'. next_pg_dir alloc cur i flags m = Ret (t, m') \<and> pg_wf ok avail root m' \<and>
    managed (km_pmm m') = managed (km_pmm m) \<and> opens_tab avail root (p @ [i]) t m m'"
proof -
  let ?mem = "km_mem m" and ?e = "cur + 8 * i"
  have ok: "ok (km_pmm m)" and tree: "pg_tree ?mem root (avail (km_pmm m))"
    using wf by (simp_all add: pg_wf_def)
  have pp: "pg_path p" "i < 512" using p by (simp_all add: pg_path_snoc)
  show ?thesis
  proof (cases "?mem ?e AND PF_P = 0")
    case True
    then have none: "pg_tab ?mem root (p @ [i]) = None" by (simp add: pg_tab_snoc cur pg_next_def)
    obtain new s where a: "alloc (km_pmm m) = Ret (new, s)" "ok s" "managed s = managed (km_pmm m)"
      "new \<in> avail (km_pmm m)" "avail s = avail (km_pmm m) - {new}" "new \<noteq> 0" "page_align new = new"
      using alloc_some [OF ok av [OF none]] by blast
    let ?mem' = "(au_fms_64 new 0 (4096 div 8) ?mem)(?e := new OR (PF_P OR flags))"
    have lnk: "links ?mem cur i new ?mem'"
      by (rule next_pg_dir_links) (use pg_treeD [OF tree pp(1) cur] a pp fl in auto)
    have res: "next_pg_dir alloc cur i flags m = Ret (new, m\<lparr>km_mem := ?mem', km_pmm := s\<rparr>)"
      using True a(1) entry_frame [OF a(7) fl] by (simp add: next_pg_dir_def Let_def)
    note hyps = tree lnk p cur none a(4,7)
    show ?thesis
      unfolding res
      using links_tab [OF hyps] links_tree [OF hyps a(6)] links_walk [OF hyps] a none
      by (auto simp: pg_wf_def opens_tab_def card_Diff_singleton)
  next
    case False
    then have "pg_tab ?mem root (p @ [i]) = Some (?mem ?e AND NOT 0xfff)"
      by (simp add: pg_tab_snoc cur pg_next_def)
    moreover have "next_pg_dir alloc cur i flags m = Ret (?mem ?e AND NOT 0xfff, m)"
      using False by (simp add: next_pg_dir_def Let_def)
    ultimately show ?thesis using wf by (auto simp: opens_tab_def fun_upd_idem)
  qed
qed

lemma next_pg_dir_rw:
  assumes wf: "pg_wf ok avail root m" and p: "pg_path (p @ [i])"
    and cur: "pg_tab (km_mem m) root p = Some cur" and fl: "low_flags flags"
    and av: "pg_tab (km_mem m) root (p @ [i]) = None \<Longrightarrow> avail (km_pmm m) \<noteq> {}"
    and r: "next_pg_dir alloc cur i flags m = Ret (t, m')" and rw: "flags AND PF_RW \<noteq> 0" "pg_rw (km_mem m) root"
  shows "pg_rw (km_mem m') root"
proof (cases "km_mem m (cur + 8 * i) AND PF_P = 0")
  case True
  let ?mem = "km_mem m" and ?e = "cur + 8 * i"
  have ok: "ok (km_pmm m)" and tree: "pg_tree ?mem root (avail (km_pmm m))"
    using wf by (simp_all add: pg_wf_def)
  have pp: "pg_path p" "i < 512" using p by (simp_all add: pg_path_snoc)
  have none: "pg_tab ?mem root (p @ [i]) = None" using True by (simp add: pg_tab_snoc cur pg_next_def)
  obtain new s where a: "alloc (km_pmm m) = Ret (new, s)" "new \<in> avail (km_pmm m)" "page_align new = new"
    using alloc_some [OF ok av [OF none]] by metis
  let ?mem' = "(au_fms_64 new 0 (4096 div 8) ?mem)(?e := new OR (PF_P OR flags))"
  have "links ?mem cur i new ?mem'"
    by (rule next_pg_dir_links) (use pg_treeD [OF tree pp(1) cur] a pp fl in auto)
  moreover have "?mem' ?e AND PF_RW \<noteq> 0" using entry_rw [OF a(3), of flags] rw(1) by simp
  moreover have "next_pg_dir alloc cur i flags m = Ret (new, m\<lparr>km_mem := ?mem', km_pmm := s\<rparr>)"
    using True a(1) entry_frame [OF a(3) fl] by (simp add: next_pg_dir_def Let_def)
  then have "km_mem m' = ?mem'" using r by simp
  ultimately show ?thesis using links_rw [OF tree _ p cur none a(2,3) rw(2)] by metis
next
  case False
  then show ?thesis using r rw(2) by (simp add: next_pg_dir_def Let_def)
qed

end

text \<open>How many tables on the way to \<open>v\<close> do not exist yet: the frames a mapping takes.\<close>

definition pg_missing :: "(u64 \<Rightarrow> u64) \<Rightarrow> u64 \<Rightarrow> u64 \<Rightarrow> nat" where
  "pg_missing mem root v =
     length (filter (\<lambda>k. pg_tab mem root (take k (pg_idx v)) = None) [1, 2, 3])"

lemma pg_missing_present: "pg_tab mem root (pg_idx v) \<noteq> None \<Longrightarrow> pg_missing mem root v = 0"
  by (auto simp: pg_missing_def pg_idx_def Let_def split: option.splits)

lemma pg_missing_le: "pg_missing mem root v \<le> 3"
  unfolding pg_missing_def using length_filter_le [of _ "[1, 2, 3 :: nat]"] by fastforce

text \<open>What a mapping of \<open>v\<close> with leaf entry \<open>e\<close> does to the tree at \<open>root\<close>.\<close>

definition maps_page :: "('s \<Rightarrow> phys_addr_t set) \<Rightarrow> u64 \<Rightarrow> u64 \<Rightarrow> u64 \<Rightarrow> 's kmem \<Rightarrow> 's kmem \<Rightarrow> bool" where
  "maps_page avail root v e m m' \<longleftrightarrow>
     (\<forall>w. pg_walk (km_mem m') root w = (if same_page v w then Some e else pg_walk (km_mem m) root w)) \<and>
     (\<forall>q. pg_path q \<longrightarrow> pg_tab (km_mem m) root q \<noteq> None \<longrightarrow>
        pg_tab (km_mem m') root q = pg_tab (km_mem m) root q) \<and>
     pg_tab (km_mem m') root (pg_idx v) \<noteq> None \<and> km_tlb m' = km_tlb m \<and>
     avail (km_pmm m') \<subseteq> avail (km_pmm m) \<and>
     card (avail (km_pmm m')) = card (avail (km_pmm m)) - pg_missing (km_mem m) root v \<and>
     (e AND PF_RW \<noteq> 0 \<longrightarrow> pg_rw (km_mem m) root \<longrightarrow> pg_rw (km_mem m') root)"

context frame_source
begin

lemma paging_tables:
  assumes wf: "pg_wf ok avail root m" and fl: "low_flags flags"
    and need: "pg_missing (km_mem m) root v \<le> card (avail (km_pmm m))"
  defines "i1 \<equiv> pi_pdpt (vaddr_to_pg_ind v)" and "i2 \<equiv> pi_pdt (vaddr_to_pg_ind v)"
    and "i3 \<equiv> pi_pt (vaddr_to_pg_ind v)"
  obtains t1 m1 t2 m2 t3 m3 where
    "next_pg_dir alloc root i1 flags m = Ret (t1, m1)" "opens_tab avail root [i1] t1 m m1"
    "next_pg_dir alloc t1 i2 flags m1 = Ret (t2, m2)" "opens_tab avail root [i1, i2] t2 m1 m2"
    "next_pg_dir alloc t2 i3 flags m2 = Ret (t3, m3)" "opens_tab avail root [i1, i2, i3] t3 m2 m3"
    "pg_wf ok avail root m3" "managed (km_pmm m3) = managed (km_pmm m)"
    "card (avail (km_pmm m3)) = card (avail (km_pmm m)) - pg_missing (km_mem m) root v"
    "flags AND PF_RW \<noteq> 0 \<longrightarrow> pg_rw (km_mem m) root \<longrightarrow> pg_rw (km_mem m3) root"
proof -
  have idx: "pg_idx v = [i1, i2, i3]" by (simp add: pg_idx_def Let_def i1_def i2_def i3_def)
  have paths: "pg_path ([] @ [i1])" "pg_path ([i1] @ [i2])" "pg_path ([i1, i2] @ [i3])"
    by (simp_all add: pg_path_def i1_def i2_def i3_def vaddr_ind_bound)
  let ?b = "\<lambda>q. if pg_tab (km_mem m) root q = None then 1 else (0 :: nat)"
  let ?A = "card (avail (km_pmm m))"
  have miss: "pg_missing (km_mem m) root v = ?b [i1] + ?b [i1, i2] + ?b [i1, i2, i3]"
    by (simp add: pg_missing_def idx)
  have a1: "pg_tab (km_mem m) root ([] @ [i1]) = None \<Longrightarrow> avail (km_pmm m) \<noteq> {}" using need miss by auto
  from next_pg_dir_spec [OF wf paths(1) _ fl this] obtain t1 m1 where
    m1: "next_pg_dir alloc root i1 flags m = Ret (t1, m1)" "pg_wf ok avail root m1"
      "managed (km_pmm m1) = managed (km_pmm m)" "opens_tab avail root [i1] t1 m m1" by auto
  have n1: "pg_tab (km_mem m1) root [i1, i2] = pg_tab (km_mem m) root [i1, i2]"
    "pg_tab (km_mem m1) root [i1, i2, i3] = pg_tab (km_mem m) root [i1, i2, i3]"
    using opens_tab_other [OF m1(4) paths(2)] opens_tab_other [OF m1(4) paths(3)] by simp_all
  have k1: "card (avail (km_pmm m1)) = ?A - ?b [i1]" using m1(4) by (simp add: opens_tab_def)
  then have a2: "pg_tab (km_mem m1) root ([i1] @ [i2]) = None \<Longrightarrow> avail (km_pmm m1) \<noteq> {}"
    using need miss n1 by (auto split: if_splits)
  from next_pg_dir_spec [OF m1(2) paths(2) _ fl this] obtain t2 m2 where
    m2: "next_pg_dir alloc t1 i2 flags m1 = Ret (t2, m2)" "pg_wf ok avail root m2"
      "managed (km_pmm m2) = managed (km_pmm m)" "opens_tab avail root [i1, i2] t2 m1 m2"
    using opens_tab_at [OF m1(4)] paths(1) m1(3) by auto
  have n2: "pg_tab (km_mem m2) root [i1, i2, i3] = pg_tab (km_mem m) root [i1, i2, i3]"
    using opens_tab_other [OF m2(4) paths(3)] n1 by simp
  have k2: "card (avail (km_pmm m2)) = ?A - ?b [i1] - ?b [i1, i2]"
    using m2(4) k1 n1 by (simp add: opens_tab_def)
  then have a3: "pg_tab (km_mem m2) root ([i1, i2] @ [i3]) = None \<Longrightarrow> avail (km_pmm m2) \<noteq> {}"
    using need miss n2 by (auto split: if_splits)
  from next_pg_dir_spec [OF m2(2) paths(3) _ fl this] obtain t3 m3 where
    m3: "next_pg_dir alloc t2 i3 flags m2 = Ret (t3, m3)" "pg_wf ok avail root m3"
      "managed (km_pmm m3) = managed (km_pmm m)" "opens_tab avail root [i1, i2, i3] t3 m2 m3"
    using opens_tab_at [OF m2(4)] paths(2) m2(3) by auto
  have "card (avail (km_pmm m3)) = ?A - pg_missing (km_mem m) root v"
    using m3(4) k2 n2 miss by (simp add: opens_tab_def)
  moreover have "pg_rw (km_mem m3) root" if rw: "flags AND PF_RW \<noteq> 0" "pg_rw (km_mem m) root"
  proof -
    have t: "pg_tab (km_mem m) root [] = Some root" "pg_tab (km_mem m1) root [i1] = Some t1"
      "pg_tab (km_mem m2) root [i1, i2] = Some t2"
      using opens_tab_at [OF m1(4)] opens_tab_at [OF m2(4)] paths by simp_all
    from next_pg_dir_rw [OF wf paths(1) t(1) fl a1 m1(1) rw] have "pg_rw (km_mem m1) root" .
    from next_pg_dir_rw [OF m1(2) paths(2) t(2) fl a2 m2(1) rw(1) this] have "pg_rw (km_mem m2) root" .
    from next_pg_dir_rw [OF m2(2) paths(3) t(3) fl a3 m3(1) rw(1) this] show ?thesis .
  qed
  ultimately show ?thesis using m1 m2 m3 that by blast
qed

lemma paging_map_spec:
  assumes wf: "pg_wf ok avail root m" and fl: "low_flags flags"
    and need: "pg_missing (km_mem m) root v \<le> card (avail (km_pmm m))"
  shows "\<exists>m'. paging_map alloc root paddr v flags m = Ret m' \<and> pg_wf ok avail root m' \<and>
    managed (km_pmm m') = managed (km_pmm m) \<and>
    maps_page avail root v (page_align paddr OR (PF_P OR flags)) m m'"
proof -
  let ?i1 = "pi_pdpt (vaddr_to_pg_ind v)" and ?i2 = "pi_pdt (vaddr_to_pg_ind v)"
    and ?i3 = "pi_pt (vaddr_to_pg_ind v)"
  obtain t1 m1 t2 m2 pt m3 where
    n: "next_pg_dir alloc root ?i1 flags m = Ret (t1, m1)" "next_pg_dir alloc t1 ?i2 flags m1 = Ret (t2, m2)"
      "next_pg_dir alloc t2 ?i3 flags m2 = Ret (pt, m3)"
    and o: "opens_tab avail root [?i1] t1 m m1" "opens_tab avail root [?i1, ?i2] t2 m1 m2"
      "opens_tab avail root [?i1, ?i2, ?i3] pt m2 m3"
    and wf3: "pg_wf ok avail root m3" "managed (km_pmm m3) = managed (km_pmm m)"
      "card (avail (km_pmm m3)) = card (avail (km_pmm m)) - pg_missing (km_mem m) root v"
    and rw: "flags AND PF_RW \<noteq> 0 \<longrightarrow> pg_rw (km_mem m) root \<longrightarrow> pg_rw (km_mem m3) root"
    using paging_tables [OF assms] by metis
  let ?e = "page_align paddr OR (PF_P OR flags)" and ?j = "pi_pg (vaddr_to_pg_ind v)"
  let ?m' = "m3\<lparr>km_mem := (km_mem m3)(pt + 8 * ?j := ?e)\<rparr>"
  have res: "paging_map alloc root paddr v flags m = Ret ?m'"
    using n by (simp add: paging_map_def Let_def)
  have idx: "pg_idx v = [?i1, ?i2, ?i3]" by (simp add: pg_idx_def Let_def)
  have pt: "pg_tab (km_mem m3) root (pg_idx v) = Some pt"
    using opens_tab_at [OF o(3)] pg_path_idx(1) [of v] by (simp add: idx)
  have tree: "pg_tree (km_mem m3) root (avail (km_pmm m3))" using wf3(1) by (simp add: pg_wf_def)
  note leaf = leaf_write_tree [OF tree pt vaddr_ind_bound(4)] leaf_write_walk [OF tree pt]
    leaf_write_tab [OF tree pt vaddr_ind_bound(4)] leaf_write_rw [OF tree pt vaddr_ind_bound(4)]
  have al: "page_align (page_align paddr) = page_align paddr" by simp
  have keep: "pg_tab (km_mem m3) root q = pg_tab (km_mem m) root q"
    if "pg_path q" "pg_tab (km_mem m) root q \<noteq> None" for q
    using opens_tab_keeps [OF o(1) that] opens_tab_keeps [OF o(2) that(1)]
      opens_tab_keeps [OF o(3) that(1)] that(2) by metis
  have "pg_wf ok avail root ?m'" using wf3(1) leaf(1) by (simp add: pg_wf_def)
  moreover have w: "pg_walk (km_mem m3) root w = pg_walk (km_mem m) root w" for w
    using o by (simp add: opens_tab_def)
  have "km_tlb m3 = km_tlb m" "avail (km_pmm m3) \<subseteq> avail (km_pmm m)"
    using o unfolding opens_tab_def by (simp, blast)
  then have "maps_page avail root v ?e m ?m'"
    unfolding maps_page_def
    using wf3(3) keep leaf(3,4) pt entry_present [of "page_align paddr" flags] rw entry_rw [OF al, of flags]
    by (simp add: leaf(2) w)
  ultimately show ?thesis using res wf3(2) by simp
qed

end

subsection \<open>Unmapping\<close>

lemma some_next_pg_dir_eq:
  assumes "pg_tree (km_mem m) root av" "pg_path (q @ [i])"
    and "cur = (case pg_tab (km_mem m) root q of None \<Rightarrow> 0 | Some t \<Rightarrow> t)"
  shows "some_next_pg_dir cur i m = (case pg_tab (km_mem m) root (q @ [i]) of None \<Rightarrow> 0 | Some t \<Rightarrow> t)"
proof (cases "pg_tab (km_mem m) root q")
  case None
  then show ?thesis using assms(3) by (simp add: some_next_pg_dir_def pg_tab_snoc)
next
  case (Some t)
  moreover have "pg_path q" using assms(2) by (simp add: pg_path_snoc)
  ultimately have "t \<noteq> 0" using pg_treeD(1) [OF assms(1)] by blast
  then show ?thesis using Some assms(3) by (simp add: some_next_pg_dir_def pg_tab_snoc pg_next_def)
qed

lemma paging_unmap_eq:
  assumes "pg_tree (km_mem m) root av"
  shows "paging_unmap root v m = (case pg_tab (km_mem m) root (pg_idx v) of None \<Rightarrow> m
    | Some pt \<Rightarrow> m\<lparr>km_mem := (km_mem m)(pt + 8 * pi_pg (vaddr_to_pg_ind v) := 0)\<rparr>)"
proof -
  let ?i = "vaddr_to_pg_ind v"
  have p: "pg_path ([] @ [pi_pdpt ?i])" "pg_path ([pi_pdpt ?i] @ [pi_pdt ?i])"
    "pg_path ([pi_pdpt ?i, pi_pdt ?i] @ [pi_pt ?i])"
    by (simp_all add: pg_path_def vaddr_ind_bound)
  note a = some_next_pg_dir_eq [OF assms p(1), of root]
  note b = some_next_pg_dir_eq [OF assms p(2)] and c = some_next_pg_dir_eq [OF assms p(3)]
  have idx: "pg_idx v = [pi_pdpt ?i, pi_pdt ?i, pi_pt ?i]" by (simp add: pg_idx_def Let_def)
  have pt: "some_next_pg_dir (some_next_pg_dir (some_next_pg_dir root (pi_pdpt ?i) m) (pi_pdt ?i) m)
      (pi_pt ?i) m = (case pg_tab (km_mem m) root (pg_idx v) of None \<Rightarrow> 0 | Some t \<Rightarrow> t)"
    using a b c by (simp add: idx)
  show ?thesis
  proof (cases "pg_tab (km_mem m) root (pg_idx v)")
    case None
    then show ?thesis using pt by (simp add: paging_unmap_def Let_def)
  next
    case (Some t)
    then have "t \<noteq> 0" using pg_treeD(1) [OF assms pg_path_idx(1)] by blast
    then show ?thesis using pt Some by (simp add: paging_unmap_def Let_def)
  qed
qed

lemma paging_unmap_spec:
  assumes "pg_tree (km_mem m) root av"
  shows "pg_tree (km_mem (paging_unmap root v m)) root av \<and>
    pg_walk (km_mem (paging_unmap root v m)) root w =
      (if same_page v w then None else pg_walk (km_mem m) root w) \<and>
    km_pmm (paging_unmap root v m) = km_pmm m \<and> km_tlb (paging_unmap root v m) = km_tlb m"
proof (cases "pg_tab (km_mem m) root (pg_idx v)")
  case None
  then have "same_page v w \<Longrightarrow> pg_walk (km_mem m) root w = None"
    by (simp add: pg_walk_def same_page_iff)
  with None assms show ?thesis by (simp add: paging_unmap_eq [OF assms])
next
  case (Some pt)
  show ?thesis
    using leaf_write_tree [OF assms Some vaddr_ind_bound(4)] leaf_write_walk [OF assms Some]
    by (simp add: paging_unmap_eq [OF assms] Some)
qed

subsection \<open>Mapping a list of pages\<close>

text \<open>The leaf tables the addresses of \<open>xs\<close> need and that do not exist yet.\<close>

definition missing_tabs :: "(u64 \<Rightarrow> u64) \<Rightarrow> u64 \<Rightarrow> ('p \<times> u64) list \<Rightarrow> u64 list set" where
  "missing_tabs mem root xs = {pg_idx v | p v. (p, v) \<in> set xs \<and> pg_tab mem root (pg_idx v) = None}"

lemma missing_tabs_image:
  "missing_tabs mem root xs = {q \<in> pg_idx ` snd ` set xs. pg_tab mem root q = None}"
  by (force simp: missing_tabs_def)

lemma finite_missing_tabs [simp]: "finite (missing_tabs mem root xs)"
  by (simp add: missing_tabs_image)

text \<open>The leaf entry of \<open>w\<close> after the pairs (frame, address) of \<open>xs\<close> are mapped in order.\<close>

fun walk_after :: "u64 \<Rightarrow> (u64 \<times> u64) list \<Rightarrow> (u64 \<Rightarrow> u64 option) \<Rightarrow> u64 \<Rightarrow> u64 option" where
  "walk_after flags [] f w = f w"
| "walk_after flags ((p, v) # xs) f w =
     walk_after flags xs (\<lambda>w. if same_page v w then Some (page_align p OR (PF_P OR flags)) else f w) w"

text \<open>
  Mapping a list of pages, some at a given frame and some at a frame taken from the allocator at
  that moment.  \<open>placed\<close> relates the list to the frames that were used in the end.
\<close>

definition place_page :: "('s \<Rightarrow> (phys_addr_t \<times> 's) exec) \<Rightarrow> u64 \<Rightarrow> u64 \<Rightarrow> phys_addr_t option \<times> u64 \<Rightarrow>
    's kmem \<Rightarrow> 's kmem exec" where
  "place_page alloc root flags x m =
     (case x of (Some p, v) \<Rightarrow> paging_map alloc root p v flags m
      | (None, v) \<Rightarrow> seq (alloc (km_pmm m)) (\<lambda>(p, s). paging_map alloc root p v flags (m\<lparr>km_pmm := s\<rparr>)))"

fun placed :: "(phys_addr_t option \<times> u64) list \<Rightarrow> phys_addr_t set \<Rightarrow> (u64 \<times> u64) list \<Rightarrow> bool" where
  "placed [] av ys \<longleftrightarrow> ys = []"
| "placed ((Some p, v) # xs) av ys \<longleftrightarrow> (\<exists>zs. ys = (p, v) # zs \<and> placed xs av zs)"
| "placed ((None, v) # xs) av ys \<longleftrightarrow>
     (\<exists>p zs. ys = (p, v) # zs \<and> p \<in> av \<and> page_align p = p \<and> placed xs (av - {p}) zs)"

lemma placed_mono: "placed xs av ys \<Longrightarrow> av \<subseteq> av' \<Longrightarrow> placed xs av' ys"
proof (induction xs av ys arbitrary: av' rule: placed.induct)
  case (3 v xs av ys)
  then obtain p zs where z: "ys = (p, v) # zs" "p \<in> av" "page_align p = p" "placed xs (av - {p}) zs" by auto
  have "av - {p} \<subseteq> av' - {p}" using 3(3) by blast
  from 3(1) [OF z(4) this] z 3(3) show ?case by auto
qed auto

lemma placed_given: "placed (map (\<lambda>(p, v). (Some p, v)) xs) av ys \<Longrightarrow> ys = xs"
  by (induction xs arbitrary: ys) auto

text \<open>A round of placing pages: the frames that are there are enough for it, and still enough after it.\<close>

lemma missing_tabs_budget:
  assumes tot: "3 * card (missing_tabs mem root (x # xs)) + n + length (filter (\<lambda>x. fst x = None) xs) \<le> N"
  shows "pg_missing mem root (snd x) + n \<le> N"
    and "missing_tabs mem' root xs \<subseteq> missing_tabs mem root (x # xs) - {pg_idx (snd x)} \<Longrightarrow>
      3 * card (missing_tabs mem' root xs) + length (filter (\<lambda>x. fst x = None) xs)
        \<le> N - n - pg_missing mem root (snd x)"
proof -
  let ?M = "missing_tabs mem root (x # xs)" and ?v = "snd x"
  have fin: "finite ?M" by (simp add: missing_tabs_image)
  have need: "pg_missing mem root ?v + 3 * card (?M - {pg_idx ?v}) \<le> 3 * card ?M"
  proof (cases "pg_tab mem root (pg_idx ?v)")
    case None
    then have "pg_idx ?v \<in> ?M" by (simp add: missing_tabs_image)
    then have "card ?M = Suc (card (?M - {pg_idx ?v}))" by (rule card.remove [OF fin])
    then show ?thesis using pg_missing_le [of mem root ?v] by simp
  next
    case (Some t)
    then show ?thesis using pg_missing_present [of mem root ?v] fin by (simp add: card_mono)
  qed
  then show "pg_missing mem root ?v + n \<le> N" using tot by linarith
  assume "missing_tabs mem' root xs \<subseteq> ?M - {pg_idx ?v}"
  then have "card (missing_tabs mem' root xs) \<le> card (?M - {pg_idx ?v})" using fin by (intro card_mono) simp_all
  then show "3 * card (missing_tabs mem' root xs) + length (filter (\<lambda>x. fst x = None) xs) \<le> N - n - pg_missing mem root ?v"
    using need tot by linarith
qed

context frame_source
begin

lemma place_page_frame:
  assumes wf: "pg_wf ok avail root m" and fin: "fst x = None \<Longrightarrow> avail (km_pmm m) \<noteq> {}"
  obtains p m0 where "place_page alloc root flags x m = paging_map alloc root p (snd x) flags m0"
    "pg_wf ok avail root m0" "km_mem m0 = km_mem m" "km_tlb m0 = km_tlb m"
    "avail (km_pmm m0) \<subseteq> avail (km_pmm m)"
    "card (avail (km_pmm m0)) = card (avail (km_pmm m)) - (if fst x = None then 1 else 0)"
    "\<And>xs ys A. A \<subseteq> avail (km_pmm m0) \<Longrightarrow> placed xs (avail (km_pmm m0) - A) ys \<Longrightarrow>
       placed (x # xs) (avail (km_pmm m) - A) ((p, snd x) # ys)"
proof (cases "fst x")
  case (Some p)
  then show ?thesis using that [of p m] wf by (cases x) (auto simp: place_page_def)
next
  case None
  obtain p s where a: "alloc (km_pmm m) = Ret (p, s)" "ok s" "p \<in> avail (km_pmm m)"
    "avail s = avail (km_pmm m) - {p}" "page_align p = p"
    using alloc_some [of "km_pmm m"] fin [OF None] wf unfolding pg_wf_def by metis
  let ?m0 = "m\<lparr>km_pmm := s\<rparr>"
  have "pg_wf ok avail root ?m0"
    using wf a(2,4) pg_tree_mono [of "km_mem m" root "avail (km_pmm m)" "avail s"] by (simp add: pg_wf_def)
  moreover have "place_page alloc root flags x m = paging_map alloc root p (snd x) flags ?m0"
    using None a(1) by (cases x) (simp add: place_page_def)
  moreover have "placed (x # xs) (avail (km_pmm m) - A) ((p, snd x) # ys)"
    if "A \<subseteq> avail s" "placed xs (avail s - A) ys" for xs ys A
  proof -
    have "avail s - A = avail (km_pmm m) - A - {p}" using a(4) by blast
    then show ?thesis using None a(3-5) that by (cases x) auto
  qed
  ultimately show ?thesis using that [of p ?m0] a(3,4) None by (simp add: card_Diff_singleton)
qed

lemma place_pages_spec:
  "pg_wf ok avail root m \<Longrightarrow> low_flags flags \<Longrightarrow>
   3 * card (missing_tabs (km_mem m) root xs) + length (filter (\<lambda>x. fst x = None) xs)
     \<le> card (avail (km_pmm m)) \<Longrightarrow>
   \<exists>m' ys. for_each xs (place_page alloc root flags) m = Ret m' \<and> pg_wf ok avail root m' \<and>
     km_tlb m' = km_tlb m \<and> avail (km_pmm m') \<subseteq> avail (km_pmm m) \<and>
     placed xs (avail (km_pmm m) - avail (km_pmm m')) ys \<and>
     (\<forall>w. pg_walk (km_mem m') root w = walk_after flags ys (pg_walk (km_mem m) root) w) \<and>
     (flags AND PF_RW \<noteq> 0 \<longrightarrow> pg_rw (km_mem m) root \<longrightarrow> pg_rw (km_mem m') root)"
proof (induction xs arbitrary: m)
  case Nil
  then show ?case by simp
next
  case (Cons x xs)
  let ?v = "snd x" and ?n = "if fst x = None then 1 else 0 :: nat"
  have some: "fst x = None \<Longrightarrow> avail (km_pmm m) \<noteq> {}" using Cons.prems(3) by auto
  obtain p m0 where m0: "place_page alloc root flags x m = paging_map alloc root p ?v flags m0"
    "pg_wf ok avail root m0" "km_mem m0 = km_mem m" "km_tlb m0 = km_tlb m"
    "avail (km_pmm m0) \<subseteq> avail (km_pmm m)" "card (avail (km_pmm m0)) = card (avail (km_pmm m)) - ?n"
    "\<And>xs ys A. A \<subseteq> avail (km_pmm m0) \<Longrightarrow> placed xs (avail (km_pmm m0) - A) ys \<Longrightarrow>
       placed (x # xs) (avail (km_pmm m) - A) ((p, ?v) # ys)"
    using place_page_frame [OF Cons.prems(1) some] by metis
  have tot: "3 * card (missing_tabs (km_mem m) root (x # xs)) + ?n + length (filter (\<lambda>x. fst x = None) xs)
      \<le> card (avail (km_pmm m))" using Cons.prems(3) by (auto split: if_splits)
  have "pg_missing (km_mem m0) root ?v \<le> card (avail (km_pmm m0))"
    using missing_tabs_budget(1) [OF tot] m0(3,6) by simp
  from paging_map_spec [OF m0(2) Cons.prems(2) this, of p] obtain m1 where
    m1: "paging_map alloc root p ?v flags m0 = Ret m1" "pg_wf ok avail root m1"
    and map: "maps_page avail root ?v (page_align p OR (PF_P OR flags)) m0 m1" by blast
  have "missing_tabs (km_mem m1) root xs \<subseteq> missing_tabs (km_mem m) root (x # xs) - {pg_idx ?v}"
    using map m0(3) by (force simp: missing_tabs_image maps_page_def)
  from missing_tabs_budget(2) [OF tot this]
  have "3 * card (missing_tabs (km_mem m1) root xs) + length (filter (\<lambda>x. fst x = None) xs)
      \<le> card (avail (km_pmm m1))"
    using map m0(3,6) by (simp add: maps_page_def)
  from Cons.IH [OF m1(2) Cons.prems(2) this] obtain m2 ys where
    m2: "for_each xs (place_page alloc root flags) m1 = Ret m2" "pg_wf ok avail root m2"
    "km_tlb m2 = km_tlb m1" "avail (km_pmm m2) \<subseteq> avail (km_pmm m1)" "placed xs (avail (km_pmm m1) - avail (km_pmm m2)) ys"
    "\<forall>w. pg_walk (km_mem m2) root w = walk_after flags ys (pg_walk (km_mem m1) root) w"
    "flags AND PF_RW \<noteq> 0 \<longrightarrow> pg_rw (km_mem m1) root \<longrightarrow> pg_rw (km_mem m2) root" by blast
  have al: "page_align (page_align p) = page_align p" by simp
  have rw: "flags AND PF_RW \<noteq> 0 \<longrightarrow> pg_rw (km_mem m) root \<longrightarrow> pg_rw (km_mem m2) root"
    using m2(7) map m0(3) entry_rw [OF al, of flags] by (simp add: maps_page_def)
  have sub: "avail (km_pmm m1) \<subseteq> avail (km_pmm m0)" and tlb: "km_tlb m1 = km_tlb m0"
    using map by (simp_all add: maps_page_def)
  have "pg_walk (km_mem m1) root =
      (\<lambda>w. if same_page ?v w then Some (page_align p OR (PF_P OR flags)) else pg_walk (km_mem m) root w)"
    using map unfolding maps_page_def m0(3) by auto
  then have "\<forall>w. pg_walk (km_mem m2) root w = walk_after flags ((p, ?v) # ys) (pg_walk (km_mem m) root) w"
    using m2(6) by simp
  moreover have "placed (x # xs) (avail (km_pmm m) - avail (km_pmm m2)) ((p, ?v) # ys)"
    using m2(4) sub by (intro m0(7) placed_mono [OF m2(5)]) auto
  moreover have "for_each (x # xs) (place_page alloc root flags) m = Ret m2" using m0(1) m1(1) m2(1) by simp
  moreover have "avail (km_pmm m2) \<subseteq> avail (km_pmm m)" "km_tlb m2 = km_tlb m"
    using m2(3,4) sub m0(4,5) tlb by auto
  ultimately show ?case using m2(2) rw by blast
qed

end

subsection \<open>A new map\<close>

lemma for_each_map: "for_each (map g xs) f s = for_each xs (\<lambda>x. f (g x)) s"
proof (induction xs arbitrary: s)
  case Nil
  then show ?case by simp
next
  case (Cons x xs)
  have "for_each (map g xs) f = for_each xs (\<lambda>x. f (g x))" by (rule ext) (rule Cons.IH)
  then show ?case by simp
qed

text \<open>A zeroed root has no table below it.\<close>

lemma zeroed_tree:
  fixes mem :: "u64 \<Rightarrow> u64"
  assumes "page_align root = root" "root \<noteq> 0" "root \<notin> av"
  defines "mem' \<equiv> au_fms_64 root 0 (4096 div 8) mem"
  shows "pg_tree mem' root av" and "pg_walk mem' root v = None"
    and "pg_path q \<Longrightarrow> q \<noteq> [] \<Longrightarrow> pg_tab mem' root q = None"
proof -
  have none: "pg_tab mem' root q = None" if "pg_path q" "q \<noteq> []" for q
  proof -
    obtain i r where q: "q = i # r" using \<open>q \<noteq> []\<close> by (cases q) auto
    then have "i < 512" using that(1) by (simp add: pg_path_def)
    then have "mem' (root + 8 * i) = 0"
      unfolding mem'_def using zeroed_frame [OF assms(1,1)] by metis
    then show ?thesis by (simp add: q pg_next_def)
  qed
  then show "pg_path q \<Longrightarrow> q \<noteq> [] \<Longrightarrow> pg_tab mem' root q = None" by blast
  show "pg_tree mem' root av"
    unfolding pg_tree_def using none assms(1-3) by (metis option.distinct(1) option.inject pg_tab.simps(1))
  have "pg_idx v \<noteq> []" by (simp add: pg_idx_def Let_def)
  then show "pg_walk mem' root v = None" using none by (simp add: pg_walk_def)
qed

lemma zeroed_rw:
  assumes "page_align new = new"
  shows "pg_rw (au_fms_64 new 0 (4096 div 8) mem) new"
  unfolding pg_rw_def
proof (intro allI impI)
  let ?mem = "au_fms_64 new 0 (4096 div 8) mem"
  fix q i t assume q: "pg_path (q @ [i])" "pg_tab ?mem new q = Some t" "?mem (t + 8 * i) AND PF_P \<noteq> 0"
  have "t = new"
  proof (cases q)
    case (Cons j js)
    then have "pg_next ?mem new j = None"
      using q(1) zeroed_frame [OF assms assms, of j] by (simp add: pg_path_def pg_next_def del: au_fms_64.simps)
    then show ?thesis using q(2) Cons by (simp del: au_fms_64.simps)
  qed (use q(2) in simp)
  then show "?mem (t + 8 * i) AND PF_RW \<noteq> 0"
    using q(1,3) zeroed_frame [OF assms assms, of i] by (simp add: pg_path_snoc del: au_fms_64.simps)
qed

lemma drop_bit_of_nat:
  assumes "x < 2 ^ 64"
  shows "drop_bit n (of_nat x :: u64) = of_nat (x div 2 ^ n)"
proof -
  have "x div 2 ^ n < 2 ^ 64" using assms div_le_dividend [of x "2 ^ n"] by linarith
  then have "unat (of_nat (x div 2 ^ n) :: u64) = x div 2 ^ n" by (rule unat_of_nat_u64)
  moreover have "unat (drop_bit n (of_nat x :: u64)) = drop_bit n x"
    by (simp only: unat_drop_bit_eq unat_of_nat_u64 [OF assms])
  ultimately have "unat (drop_bit n (of_nat x :: u64)) = unat (of_nat (x div 2 ^ n) :: u64)"
    by (simp only: drop_bit_eq_div)
  then show ?thesis by (simp only: u64_eq_iff_unat)
qed

lemma unat_page_addr: "k < 256 \<Longrightarrow> unat (page_addr k) = 4096 * k"
  unfolding page_addr_def by (rule unat_of_nat_u64) simp

lemma page_addr_ind:
  assumes "k < 256"
  shows "vaddr_to_pg_ind (page_addr k) = \<lparr>pi_pdpt = 0, pi_pdt = 0, pi_pt = 0, pi_pg = of_nat k\<rparr>"
proof -
  have b: "4096 * k < 2 ^ 64" "4096 * k < 2 ^ 20" using assms by simp_all
  have "(of_nat k :: u64) < 2 ^ 9"
    using assms by (simp add: word_less_nat_alt unat_of_nat)
  then have "of_nat k AND (0x1ff :: u64) = of_nat k"
    using less_mask_eq [of "of_nat k :: u64" 9] by (simp add: mask_eq_exp_minus_1)
  then show ?thesis
    unfolding vaddr_to_pg_ind_def page_addr_def drop_bit_of_nat [OF b(1)] using b(2) by simp
qed

lemma page_addr_align: "k < 256 \<Longrightarrow> page_align (page_addr k) = page_addr k"
  by (simp add: page_align_eq_iff unat_page_addr)

lemma page_addr_same:
  assumes "j < 256" "k < 256"
  shows "same_page (page_addr j) (page_addr k) \<longleftrightarrow> j = k"
proof -
  have "unat (of_nat j :: u64) = j" "unat (of_nat k :: u64) = k"
    using assms by (simp_all add: unat_of_nat)
  then have "(of_nat j :: u64) = of_nat k \<longleftrightarrow> j = k" by metis
  then show ?thesis using assms by (simp add: same_page_def page_addr_ind)
qed

lemma walk_after_identity:
  "set ks \<subseteq> {..<256} \<Longrightarrow>
   walk_after flags (map (\<lambda>k. (page_addr k, page_addr k)) ks) f w =
     (if \<exists>k \<in> set ks. same_page (page_addr k) w
      then Some (page_addr (last (filter (\<lambda>k. same_page (page_addr k) w) ks)) OR (PF_P OR flags))
      else f w)"
  by (induction ks arbitrary: f) (auto simp: page_addr_align filter_empty_conv)

lemma place_page_given: "place_page alloc root flags (Some p, v) = paging_map alloc root p v flags"
  by (simp add: place_page_def fun_eq_iff)

text \<open>A new root table with a list of pages placed in it: what starts \<open>paging_create_map\<close>.\<close>

definition fresh_root :: "phys_addr_t \<Rightarrow> 's \<Rightarrow> 's kmem \<Rightarrow> 's kmem" where
  "fresh_root pml4 s m = m\<lparr>km_mem := au_fms_64 pml4 0 (4096 div 8) (km_mem m), km_pmm := s\<rparr>"

lemma paging_create_map_place:
  "paging_create_map alloc m = seq (alloc (km_pmm m)) (\<lambda>(pml4, s).
     seq (for_each (map (\<lambda>i. (Some i, i)) (page_steps 256)) (place_page alloc pml4 PF_RW)
       (fresh_root pml4 s m)) (\<lambda>m. Ret (pml4, m)))"
  by (simp add: paging_create_map_def fresh_root_def for_each_map place_page_given Let_def del: au_fms_64.simps)

context frame_source
begin

lemma fresh_root_spec:
  assumes ok: "ok (km_pmm m)" and fl: "low_flags flags"
    and need: "1 + 3 * card (pg_idx ` snd ` set xs) + length (filter (\<lambda>x. fst x = None) xs)
      \<le> card (avail (km_pmm m))"
  shows "\<exists>pml4 s m' ys. alloc (km_pmm m) = Ret (pml4, s) \<and>
    for_each xs (place_page alloc pml4 flags) (fresh_root pml4 s m) = Ret m' \<and>
    pg_wf ok avail pml4 m' \<and> km_tlb m' = km_tlb m \<and> pml4 \<in> avail (km_pmm m) \<and>
    avail (km_pmm m') \<subseteq> avail (km_pmm m) - {pml4} \<and> placed xs (avail (km_pmm m) - {pml4} - avail (km_pmm m')) ys \<and>
    (\<forall>w. pg_walk (km_mem m') pml4 w = walk_after flags ys (\<lambda>_. None) w) \<and>
    (flags AND PF_RW \<noteq> 0 \<longrightarrow> pg_rw (km_mem m') pml4)"
proof -
  have "avail (km_pmm m) \<noteq> {}" using need by auto
  then obtain pml4 s where a: "alloc (km_pmm m) = Ret (pml4, s)" "ok s" "pml4 \<in> avail (km_pmm m)"
    "avail s = avail (km_pmm m) - {pml4}" "pml4 \<noteq> 0" "page_align pml4 = pml4"
    using alloc_some [OF ok] by metis
  let ?mem = "au_fms_64 pml4 0 (4096 div 8) (km_mem m)" and ?m1 = "fresh_root pml4 s m"
  have f: "km_mem ?m1 = ?mem" "km_pmm ?m1 = s" "km_tlb ?m1 = km_tlb m"
    by (simp_all add: fresh_root_def del: au_fms_64.simps)
  have new: "pml4 \<notin> avail s" using a(4) by simp
  have wf: "pg_wf ok avail pml4 ?m1"
    unfolding pg_wf_def f using zeroed_tree(1) [OF a(6,5) new] a(2) by (simp del: au_fms_64.simps)
  have walk0: "pg_walk ?mem pml4 = (\<lambda>_. None)"
    using zeroed_tree(2) [OF a(6,5) new] by (simp add: fun_eq_iff del: au_fms_64.simps)
  have "card (missing_tabs (km_mem ?m1) pml4 xs) \<le> card (pg_idx ` snd ` set xs)"
    unfolding missing_tabs_image by (intro card_mono) auto
  moreover have "card (avail s) = card (avail (km_pmm m)) - 1"
    using a(3,4) by (simp add: card_Diff_singleton)
  ultimately have "3 * card (missing_tabs (km_mem ?m1) pml4 xs) + length (filter (\<lambda>x. fst x = None) xs)
      \<le> card (avail (km_pmm ?m1))"
    using need unfolding f(2) by linarith
  from place_pages_spec [OF wf fl this] show ?thesis
    unfolding f walk0 a(4) using a(1,3) zeroed_rw [OF a(6)] by blast
qed

lemma paging_create_map_spec:
  assumes ok: "ok (km_pmm m)" and av: "4 \<le> card (avail (km_pmm m))"
  shows "\<exists>pml4 m'. paging_create_map alloc m = Ret (pml4, m') \<and> pg_wf ok avail pml4 m' \<and>
    km_tlb m' = km_tlb m \<and> avail (km_pmm m') \<subseteq> avail (km_pmm m) - {pml4} \<and>
    (\<forall>w. pg_walk (km_mem m') pml4 w =
       walk_after PF_RW (map (\<lambda>k. (page_addr k, page_addr k)) [0..<256]) (\<lambda>_. None) w)"
proof -
  let ?g = "\<lambda>k. (page_addr k, page_addr k)" and ?xs = "map (\<lambda>i. (Some i, i)) (page_steps 256)"
  have xs: "?xs = map (\<lambda>(p, v). (Some p, v)) (map ?g [0..<256])" by (simp add: page_steps_def)
  have "pg_idx ` snd ` set ?xs \<subseteq> {[0, 0, 0]}"
    by (auto simp: page_steps_def pg_idx_def Let_def page_addr_ind)
  then have "card (pg_idx ` snd ` set ?xs) \<le> card {[0 :: u64, 0, 0]}" by (intro card_mono) auto
  then have "1 + 3 * card (pg_idx ` snd ` set ?xs) + length (filter (\<lambda>x. fst x = None) ?xs)
      \<le> card (avail (km_pmm m))" using av by (simp add: filter_empty_conv)
  moreover have "low_flags PF_RW" by (simp add: low_flags_def)
  ultimately obtain pml4 s m' ys where r: "alloc (km_pmm m) = Ret (pml4, s)"
    "for_each ?xs (place_page alloc pml4 PF_RW) (fresh_root pml4 s m) = Ret m'"
    "pg_wf ok avail pml4 m'" "km_tlb m' = km_tlb m" "avail (km_pmm m') \<subseteq> avail (km_pmm m) - {pml4}"
    "placed ?xs (avail (km_pmm m) - {pml4} - avail (km_pmm m')) ys"
    "\<forall>w. pg_walk (km_mem m') pml4 w = walk_after PF_RW ys (\<lambda>_. None) w"
    using fresh_root_spec [OF ok] by blast
  have "ys = map ?g [0..<256]" using r(6) unfolding xs by (rule placed_given)
  moreover have "paging_create_map alloc m = Ret (pml4, m')"
    unfolding paging_create_map_place using r(1,2) by simp
  ultimately show ?thesis using r by blast
qed

end

text \<open>The 256 identity mappings of \<open>paging_create_map\<close>, as a condition on the address.\<close>

lemma unat_pg_index: "unat (drop_bit s w AND 0x1ff :: u64) = unat w div 2 ^ s mod 512"
proof -
  have "(drop_bit s w AND 0x1ff :: u64) = take_bit 9 (drop_bit s w)"
    by (simp only: take_bit_eq_mask mask_eq_exp_minus_1) simp
  moreover have "unat (take_bit 9 (drop_bit s w)) = take_bit 9 (drop_bit s (unat w))"
    by (simp only: unsigned_take_bit_eq unat_drop_bit_eq)
  ultimately show ?thesis by (simp add: take_bit_eq_mod drop_bit_eq_div)
qed

lemma split_page_number:
  "(x :: nat) mod 2 ^ 36 = x mod 512 + 512 * (x div 512 mod 512 + 512 * (x div 262144 mod 512 +
     512 * (x div 134217728 mod 512)))"
  using mod_mult2_eq [of x 512 "2 ^ 27"] mod_mult2_eq [of "x div 512" 512 "2 ^ 18"]
    mod_mult2_eq [of "x div 512 div 512" 512 "2 ^ 9"]
  by (simp add: div_mult2_eq [symmetric])

lemma same_page_addr:
  assumes "k < 256"
  shows "same_page (page_addr k) w \<longleftrightarrow> page_align (take_bit 48 w) = page_addr k"
proof -
  let ?x = "unat w div 4096"
  have digits: "a = 0 \<and> b = 0 \<and> c = 0 \<and> k = d \<longleftrightarrow> d + 512 * (c + 512 * (b + 512 * a)) = k" for a b c d
    using assms by (cases "c + 512 * (b + 512 * a)") auto
  have k: "unat (of_nat k :: u64) = k" using assms by (simp add: unat_of_nat)
  have z: "drop_bit s w AND 0x1ff = 0 \<longleftrightarrow> unat w div 2 ^ s mod 512 = 0" for s
    unfolding unat_pg_index [symmetric] by (simp add: unat_eq_0)
  have p: "of_nat k = drop_bit 12 w AND 0x1ff \<longleftrightarrow> k = ?x mod 512"
    unfolding u64_eq_iff_unat unat_pg_index k by simp
  have "same_page (page_addr k) w \<longleftrightarrow> unat w div 2 ^ 39 mod 512 = 0 \<and> unat w div 2 ^ 30 mod 512 = 0 \<and>
      unat w div 2 ^ 21 mod 512 = 0 \<and> k = ?x mod 512"
    unfolding same_page_def page_addr_ind [OF assms] z [symmetric] p [symmetric]
    by (auto simp: vaddr_to_pg_ind_def)
  also have "\<dots> \<longleftrightarrow> ?x div 134217728 mod 512 = 0 \<and> ?x div 262144 mod 512 = 0 \<and> ?x div 512 mod 512 = 0 \<and>
      k = ?x mod 512"
    by (simp add: div_mult2_eq [symmetric])
  also have "\<dots> \<longleftrightarrow> ?x mod 2 ^ 36 = k"
    unfolding split_page_number [of ?x] by (rule digits)
  also have "?x mod 2 ^ 36 = unat w mod 2 ^ 48 div 4096"
    using mod_mult2_eq [of "unat w" 4096 "2 ^ 36"] by simp
  also have "unat w mod 2 ^ 48 div 4096 = k \<longleftrightarrow> page_align (take_bit 48 w) = page_addr k"
  proof -
    have "unat (take_bit 48 w) = unat w mod 2 ^ 48"
      by (simp only: unsigned_take_bit_eq) (simp add: take_bit_eq_mod)
    then show ?thesis
      unfolding u64_eq_iff_unat unat_page_align unat_page_addr [OF assms] by auto
  qed
  finally show ?thesis .
qed

lemma walk_after_megabyte:
  "walk_after PF_RW (map (\<lambda>k. (page_addr k, page_addr k)) [0..<256]) (\<lambda>_. None) w =
     (if take_bit 48 w < 0x100000 then Some (page_align (take_bit 48 w) OR (PF_P OR PF_RW)) else None)"
proof -
  let ?t = "take_bit 48 w" and ?k = "unat (take_bit 48 w) div 4096"
  have ks: "set [0..<256] \<subseteq> {..<256 :: nat}" by auto
  have lt: "?t < 0x100000 \<longleftrightarrow> ?k < 256" by (auto simp: word_less_nat_alt)
  have eq: "page_align ?t = page_addr k \<longleftrightarrow> ?k = k" if "k < 256" for k
    using that by (simp add: u64_eq_iff_unat unat_page_align unat_page_addr)
  have sp: "same_page (page_addr k) w \<longleftrightarrow> k = ?k" if "k < 256" for k
    using same_page_addr [OF that] eq [OF that] by auto
  have f: "filter (\<lambda>k. same_page (page_addr k) w) [0..<256] = filter (\<lambda>k. k = ?k) [0..<256]"
    by (intro filter_cong refl) (simp add: sp)
  show ?thesis
  proof (cases "?k < 256")
    case True
    have "filter (\<lambda>k. k = ?k) [0..<256] \<noteq> []" using True by (simp add: filter_empty_conv)
    then have "last (filter (\<lambda>k. k = ?k) [0..<256]) = ?k"
      using last_in_set [of "filter (\<lambda>k. k = ?k) [0..<256]"] by auto
    moreover have "\<exists>k \<in> set [0..<256]. same_page (page_addr k) w" using True sp by auto
    moreover have "page_addr ?k = page_align ?t" using eq [of ?k] True by metis
    ultimately show ?thesis using True lt by (simp add: walk_after_identity [OF ks] f)
  next
    case False
    then have "\<not> (\<exists>k \<in> set [0..<256]. same_page (page_addr k) w)" using sp by auto
    then show ?thesis using False lt by (simp add: walk_after_identity [OF ks])
  qed
qed

subsection \<open>A machine to run on\<close>

text \<open>An empty table at 0x1000, and an allocator with the 63 frames of \<open>demo_layout\<close>.\<close>

definition demo_kmem :: "pmm kmem" where
  "demo_kmem = \<lparr>km_mem = (\<lambda>_. 0), km_pmm = pmm_init (\<lambda>_. 0) demo_layout, km_tlb = (\<lambda>_. None)\<rparr>"

lemma demo_clears:
  "clears (map (bm_init (\<lambda>_. 0)) demo_layout) = (\<lambda>j. 0x101000 + 4096 * of_nat j) ` {..<63 :: nat}"
  by (auto simp: demo_layout_def bm_clears_def bm_test_bit bm_init_def Let_def bm_frame_def npage_bm_def)

lemma demo_kmem_avail:
  "pmm_ok (km_pmm demo_kmem)" "0x1000 \<notin> pmm_avail (km_pmm demo_kmem)"
  "card (pmm_avail (km_pmm demo_kmem)) = 63"
proof -
  note init = pmm_init_spec [OF demo_layout_ok, of "\<lambda>_. 0"]
  show "pmm_ok (km_pmm demo_kmem)" using init by (simp add: demo_kmem_def)
  let ?f = "\<lambda>j :: nat. (0x101000 :: u64) + 4096 * of_nat j"
  have av: "pmm_avail (km_pmm demo_kmem) = ?f ` {..<63}"
    using init demo_clears by (simp add: demo_kmem_def)
  have u: "unat (?f j) = 0x101000 + 4096 * j" if "j < 63" for j
    using that by (simp add: unat_word_ariths unat_of_nat)
  then have "inj_on ?f {..<63}" by (intro inj_onI) (metis add_left_cancel lessThan_iff mult_cancel1 zero_neq_numeral)
  then show "card (pmm_avail (km_pmm demo_kmem)) = 63" by (simp add: av card_image)
  show "0x1000 \<notin> pmm_avail (km_pmm demo_kmem)"
  proof
    assume "0x1000 \<in> pmm_avail (km_pmm demo_kmem)"
    then obtain j where "j < 63" "?f j = 0x1000" by (auto simp: av)
    with u [of j] show False by simp
  qed
qed

lemma demo_kmem_rw: "pg_rw (km_mem demo_kmem) 0x1000"
  by (simp add: pg_rw_def demo_kmem_def)

lemma demo_kmem_wf: "pg_wf pmm_ok pmm_avail 0x1000 demo_kmem"
proof -
  have "pg_tab (\<lambda>_. 0) 0x1000 q = (if q = [] then Some 0x1000 else None)" for q
    by (cases q) (simp_all add: pg_next_def)
  then have "pg_tree (\<lambda>_. 0) 0x1000 (pmm_avail (km_pmm demo_kmem))"
    using demo_kmem_avail(2) by (auto simp: pg_tree_def page_align_def split: if_splits)
  then show ?thesis using demo_kmem_avail(1) by (simp add: pg_wf_def demo_kmem_def)
qed

subsection \<open>Properties\<close>



text \<open>
  C25: \<open>paging_unmap\<close> removes the translation of the page of the address, whether it was mapped or
  not, keeps the tree of tables and every other translation, and gives no frame back.
\<close>
theorem paging_unmap_correct:
  assumes "pg_wf pmm_ok pmm_avail pml4 m"
  shows "pg_wf pmm_ok pmm_avail pml4 (paging_unmap pml4 v m) \<and>
    pg_walk (km_mem (paging_unmap pml4 v m)) pml4 w =
      (if same_page v w then None else pg_walk (km_mem m) pml4 w) \<and>
    km_pmm (paging_unmap pml4 v m) = km_pmm m"
  using paging_unmap_spec [of m pml4 "pmm_avail (km_pmm m)" v w] assms by (simp add: pg_wf_def)

theorem paging_unmap_correct_witness:
  "pg_walk (km_mem (paging_unmap 0x1000 0x5000 demo_kmem)) 0x1000 0x5fff = None"
  using paging_unmap_correct [OF demo_kmem_wf, of "0x5000" "0x5fff"]
  by (simp add: same_page_def vaddr_to_pg_ind_def)

text \<open>
  C26: \<open>paging_create_map\<close> builds a tree of tables in which the first megabyte (of the 48 bits of an
  address that the tables look at) is mapped to itself, writable, and nothing else is mapped.
\<close>
theorem paging_create_map_identity:
  assumes "pmm_ok (km_pmm m)" and "4 \<le> card (pmm_avail (km_pmm m))"
  shows "\<exists>pml4 m'. paging_create_map pmm_alloc m = Ret (pml4, m') \<and> pg_wf pmm_ok pmm_avail pml4 m' \<and>
    (\<forall>w. pg_walk (km_mem m') pml4 w =
       (if take_bit 48 w < 0x100000 then Some (page_align (take_bit 48 w) OR (PF_P OR PF_RW)) else None))"
proof -
  obtain pml4 m' where m': "paging_create_map pmm_alloc m = Ret (pml4, m')" "pg_wf pmm_ok pmm_avail pml4 m'"
    "\<forall>w. pg_walk (km_mem m') pml4 w =
       walk_after PF_RW (map (\<lambda>k. (page_addr k, page_addr k)) [0..<256]) (\<lambda>_. None) w"
    using pmm.paging_create_map_spec [OF assms] by blast
  then show ?thesis by (simp add: walk_after_megabyte)
qed

theorem paging_create_map_identity_witness:
  "\<exists>pml4 m'. paging_create_map pmm_alloc demo_kmem = Ret (pml4, m') \<and>
     pg_walk (km_mem m') pml4 0xb8042 = Some 0xb8003"
proof -
  have "4 \<le> card (pmm_avail (km_pmm demo_kmem))" by (simp add: demo_kmem_avail)
  from paging_create_map_identity [OF demo_kmem_avail(1) this] obtain pml4 m' where
    "paging_create_map pmm_alloc demo_kmem = Ret (pml4, m')"
    "pg_walk (km_mem m') pml4 0xb8042 =
       (if take_bit 48 0xb8042 < (0x100000 :: u64)
        then Some (page_align (take_bit 48 0xb8042) OR (PF_P OR PF_RW)) else None)" by blast
  moreover have "take_bit 48 (0xb8042 :: u64) = 0xb8042" by (simp add: take_bit_eq_mask mask_eq_exp_minus_1)
  moreover have "page_align 0xb8042 = 0xb8000" by (simp add: page_align_def)
  ultimately show ?thesis by auto
qed

text \<open>
  The NX bit breaks the walk: when \<open>next_pg_dir\<close> adds a table with the flag \<open>PF_XD\<close>, the pointer
  it returns keeps bit 63 of the entry, so it is not the address of the new table (and on x86-64
  not a canonical address), and the next level is accessed through it.
\<close>
theorem next_pg_dir_xd:
  assumes "km_mem m (cur + 8 * ind) AND PF_P = 0" and "pmm_alloc (km_pmm m) = Ret (new, s)"
  shows "\<exists>t m'. next_pg_dir pmm_alloc cur ind (f OR PF_XD) m = Ret (t, m') \<and> bit t 63 \<and>
    (\<not> bit new 63 \<longrightarrow> t \<noteq> new)"
proof -
  let ?t = "(new OR (PF_P OR (f OR PF_XD))) AND NOT 0xfff"
  have "bit PF_XD 63" by (simp add: bit_iff_odd drop_bit_eq_div [symmetric])
  moreover have "bit (NOT 0xfff :: u64) 63" by (simp add: bit_iff_odd drop_bit_eq_div [symmetric])
  ultimately have "bit ?t 63" by (simp only: bit_and_iff bit_or_iff) simp
  moreover have "\<exists>m'. next_pg_dir pmm_alloc cur ind (f OR PF_XD) m = Ret (?t, m')"
    using assms by (simp add: next_pg_dir_def Let_def)
  ultimately show ?thesis by metis
qed

theorem next_pg_dir_xd_witness:
  "\<exists>t m'. next_pg_dir pmm_alloc 0x1000 7 (PF_RW OR PF_XD) demo_kmem = Ret (t, m') \<and> bit t 63"
proof -
  have "pmm_avail (km_pmm demo_kmem) \<noteq> {}" using demo_kmem_avail(3) by auto
  then obtain new s where "pmm_alloc (km_pmm demo_kmem) = Ret (new, s)"
    using pmm.alloc_some [OF demo_kmem_avail(1)] by metis
  moreover have "km_mem demo_kmem (0x1000 + 8 * 7) AND PF_P = 0" by (simp add: demo_kmem_def)
  ultimately show ?thesis using next_pg_dir_xd [of demo_kmem "0x1000" 7 new s PF_RW] by blast
qed

end
