(* ===== verification/Vmm.thy ===== *)
theory Vmm
  imports Paging Mem_Layout
begin

section \<open>Virtual memory (vmm.c, cpu.S)\<close>

text \<open>
  The architecture-independent layer over the page tables: it translates the \<open>VF_\<close> flags, edits
  the map that \<open>cr3\<close> points to and invalidates the page in the TLB, and at boot builds the
  address space of the kernel and switches to it.  \<open>cpu\<close> is the part of the processor this
  touches.  The addresses of the linked kernel and the answer of the bootloader are arguments of
  \<open>vmm_init\<close>.  The lemmas turn the loops of \<open>vmm_init\<close> into one list of pages, of which the
  paging theory says what is mapped in the end.
\<close>

abbreviation VF_WRITE :: u8 where "VF_WRITE \<equiv> 0x1"
abbreviation VF_NO_EXEC :: u8 where "VF_NO_EXEC \<equiv> 0x2"
abbreviation VF_NO_CACHE :: u8 where "VF_NO_CACHE \<equiv> 0x4"

abbreviation K_STK_PAGES :: nat where "K_STK_PAGES \<equiv> 8"
abbreviation K_STK_BASE :: u64 where "K_STK_BASE \<equiv> 0xffffffff40000000"

record 's cpu =
  cpu_mem :: "'s kmem"
  cpu_cr3 :: u64
  cpu_rsp :: u64
  cpu_rbp :: u64
  cpu_rip :: u64

subsection \<open>The operations\<close>

definition vmm_flags :: "u8 \<Rightarrow> u64" where
  "vmm_flags flags =
     PF_P OR of_bool (flags AND VF_WRITE \<noteq> 0) * PF_RW
          OR of_bool (flags AND VF_NO_EXEC \<noteq> 0) * PF_XD
          OR of_bool (flags AND VF_NO_CACHE \<noteq> 0) * PF_PCD"

definition vmm_map :: "('s \<Rightarrow> (phys_addr_t \<times> 's) exec) \<Rightarrow> u64 \<Rightarrow> phys_addr_t \<Rightarrow> u64 \<Rightarrow> u8 \<Rightarrow>
    's kmem \<Rightarrow> 's kmem exec" where
  "vmm_map alloc pmap paddr vaddr flags = paging_map alloc pmap paddr vaddr (vmm_flags flags)"

definition vmm_unmap :: "u64 \<Rightarrow> u64 \<Rightarrow> 's kmem \<Rightarrow> 's kmem" where
  "vmm_unmap pmap vaddr = paging_unmap pmap vaddr"

definition vmm_map_cur :: "('s \<Rightarrow> (phys_addr_t \<times> 's) exec) \<Rightarrow> phys_addr_t \<Rightarrow> u64 \<Rightarrow> u8 \<Rightarrow>
    's cpu \<Rightarrow> 's cpu exec" where
  "vmm_map_cur alloc paddr vaddr flags c =
     seq (vmm_map alloc (cpu_cr3 c) paddr vaddr flags (cpu_mem c)) (\<lambda>m.
     Ret (c\<lparr>cpu_mem := paging_invlpg vaddr m\<rparr>))"

definition vmm_unmap_cur :: "u64 \<Rightarrow> 's cpu \<Rightarrow> 's cpu" where
  "vmm_unmap_cur vaddr c =
     c\<lparr>cpu_mem := paging_invlpg vaddr (vmm_unmap (cpu_cr3 c) vaddr (cpu_mem c))\<rparr>"

text \<open>Writing \<open>cr3\<close> flushes the TLB (no page is global).\<close>

definition cpu_switch_mem_ctx :: "phys_addr_t \<Rightarrow> u64 \<Rightarrow> u64 \<Rightarrow> 's cpu \<Rightarrow> 's cpu" where
  "cpu_switch_mem_ctx cr3 stk_base jmp c =
     c\<lparr>cpu_rbp := stk_base, cpu_rsp := stk_base, cpu_cr3 := cr3,
       cpu_mem := (cpu_mem c)\<lparr>km_tlb := (\<lambda>_. None)\<rparr>, cpu_rip := jmp\<rparr>"

text \<open>
  \<open>for (size_t i = 0; i < sz; i += PAGE_SIZE)\<close>, where \<open>i\<close> wraps around: on a size within a
  page of \<open>2 ^ 64\<close> the loop never ends.
\<close>

partial_function (option) page_loop_from ::
    "u64 \<Rightarrow> (u64 \<Rightarrow> 's \<Rightarrow> 's exec) \<Rightarrow> u64 \<Rightarrow> 's \<Rightarrow> 's exec option" where
  "page_loop_from sz f i s =
     (if i < sz then
        (case f i s of
           Ret s' \<Rightarrow> page_loop_from sz f (i + PAGE_SIZE) s'
         | Spin \<Rightarrow> Some Spin
         | Fault \<Rightarrow> Some Fault)
      else Some (Ret s))"

definition page_loop :: "u64 \<Rightarrow> (u64 \<Rightarrow> 's \<Rightarrow> 's exec) \<Rightarrow> 's \<Rightarrow> 's exec" where
  "page_loop sz f s = (case page_loop_from sz f 0 s of None \<Rightarrow> Spin | Some r \<Rightarrow> r)"

definition stk_page :: "nat \<Rightarrow> u64" where
  "stk_page i = K_STK_BASE + PAGE_SIZE * of_nat i"

definition vmm_create_map :: "('s \<Rightarrow> (phys_addr_t \<times> 's) exec) \<Rightarrow> 's kmem \<Rightarrow>
    (phys_addr_t \<times> 's kmem) exec" where
  "vmm_create_map alloc m = paging_create_map alloc m"

definition vmm_init :: "('s \<Rightarrow> (phys_addr_t \<times> 's) exec) \<Rightarrow> u64 \<Rightarrow> phys_addr_t \<Rightarrow> u64 \<Rightarrow>
    meml_ent list \<Rightarrow> u64 \<Rightarrow> 's cpu \<Rightarrow> 's cpu exec" where
  "vmm_init alloc k_size pbase vbase ml_ents post_init_jmp c =
     seq (vmm_create_map alloc (cpu_mem c)) (\<lambda>(pmap, m).
     seq (page_loop k_size (\<lambda>i. vmm_map alloc pmap (pbase + i) (vbase + i) VF_WRITE) m) (\<lambda>m.
     seq (for_each ml_ents (\<lambda>e. page_loop (me_size e)
            (\<lambda>j. vmm_map alloc pmap (me_base e + j) (me_base e + j) VF_WRITE)) m) (\<lambda>m.
     seq (for_each [0..<K_STK_PAGES] (\<lambda>i m. seq (alloc (km_pmm m)) (\<lambda>(paddr, s).
            vmm_map alloc pmap paddr (stk_page i) VF_WRITE (m\<lparr>km_pmm := s\<rparr>))) m) (\<lambda>m.
     Ret (cpu_switch_mem_ctx pmap (stk_page K_STK_PAGES) post_init_jmp (c\<lparr>cpu_mem := m\<rparr>))))))"

subsection \<open>Loops over pages\<close>

lemma page_loop_from_steps:
  assumes "unat sz + 4095 < 2 ^ 64" and "n = (unat sz + 4095) div 4096" and "k \<le> n"
  shows "page_loop_from sz f (page_addr k) s = Some (for_each (map page_addr [k..<n]) f s)"
  using assms(3)
proof (induction "n - k" arbitrary: k s)
  case 0
  have "unat (page_addr k) = 4096 * k"
    unfolding page_addr_def using 0 assms(1,2) by (intro unat_of_nat_u64) auto
  then have "\<not> page_addr k < sz" using 0 assms(2) by (simp add: word_less_nat_alt)
  then show ?case using 0 by (simp add: page_loop_from.simps)
next
  case (Suc d)
  then have k: "k < n" by simp
  have "unat (page_addr k) = 4096 * k"
    unfolding page_addr_def using k assms(1,2) by (intro unat_of_nat_u64) auto
  then have lt: "page_addr k < sz" using k assms(2) by (simp add: word_less_nat_alt)
  have next': "page_addr k + 4096 = page_addr (Suc k)" by (simp add: page_addr_def)
  have ih: "page_loop_from sz f (page_addr (Suc k)) s' = Some (for_each (map page_addr [Suc k..<n]) f s')" for s'
    using Suc k by simp
  show ?case
    using lt k by (cases "f (page_addr k) s")
      (simp_all add: page_loop_from.simps [of _ _ "page_addr k"] next' ih upt_conv_Cons)
qed

lemma page_loop_steps:
  assumes "unat sz + 4095 < 2 ^ 64"
  shows "page_loop sz f s = for_each (page_steps ((unat sz + 4095) div 4096)) f s"
  using page_loop_from_steps [OF assms refl, of 0 f s] by (simp add: page_loop_def page_steps_def page_addr_def)

subsection \<open>The address space of the kernel\<close>

text \<open>The pages \<open>vmm_init\<close> places, in order; the stack pages take frames as they come.\<close>

definition span_pages :: "phys_addr_t \<Rightarrow> u64 \<Rightarrow> u64 \<Rightarrow> (phys_addr_t option \<times> u64) list" where
  "span_pages pbase vbase sz =
     map (\<lambda>i. (Some (pbase + i), vbase + i)) (page_steps ((unat sz + 4095) div 4096))"

definition stk_pages :: "(phys_addr_t option \<times> u64) list" where
  "stk_pages = map (\<lambda>i. (None, stk_page i)) [0..<K_STK_PAGES]"

definition init_pages :: "u64 \<Rightarrow> phys_addr_t \<Rightarrow> u64 \<Rightarrow> meml_ent list \<Rightarrow> (phys_addr_t option \<times> u64) list" where
  "init_pages k_size pbase vbase ents =
     span_pages 0 0 0x100000 @ span_pages pbase vbase k_size @
     concat (map (\<lambda>e. span_pages (me_base e) (me_base e) (me_size e)) ents) @ stk_pages"

lemma paging_map_present: "paging_map alloc root p v (PF_P OR f) = paging_map alloc root p v f"
proof -
  have "PF_P OR (PF_P OR f) = PF_P OR f" by (simp add: or.assoc [symmetric])
  then have "next_pg_dir alloc cur i (PF_P OR f) m = next_pg_dir alloc cur i f m"
    "x OR (PF_P OR (PF_P OR f)) = x OR (PF_P OR f)" for cur i m x
    by (simp_all only: next_pg_dir_def)
  then show ?thesis by (intro ext) (simp only: paging_map_def)
qed

lemma vmm_map_write: "vmm_map alloc root p v VF_WRITE = place_page alloc root PF_RW (Some p, v)"
proof -
  have "vmm_flags VF_WRITE = PF_P OR PF_RW" by (simp add: vmm_flags_def)
  then show ?thesis by (simp only: vmm_map_def place_page_given paging_map_present)
qed

lemma for_each_concat: "for_each xs (\<lambda>x. for_each (g x) f) s = for_each (concat (map g xs)) f s"
proof (induction xs arbitrary: s)
  case (Cons x xs)
  then have "for_each xs (\<lambda>x. for_each (g x) f) = for_each (concat (map g xs)) f" by (simp add: fun_eq_iff)
  then show ?case by (simp add: for_each_append)
qed simp

lemma for_each_cong:
  "(\<And>x t. x \<in> set xs \<Longrightarrow> f x t = g x t) \<Longrightarrow> for_each xs f s = for_each xs g s"
proof (induction xs arbitrary: s)
  case (Cons x xs)
  then have "for_each xs f = for_each xs g" by (simp add: fun_eq_iff)
  then show ?case using Cons.prems by simp
qed simp

lemma page_loop_place:
  assumes "unat sz + 4095 < 2 ^ 64"
  shows "page_loop sz (\<lambda>i. vmm_map alloc root (p + i) (v + i) VF_WRITE) s =
    for_each (span_pages p v sz) (place_page alloc root PF_RW) s"
  by (simp add: page_loop_steps [OF assms] span_pages_def for_each_map vmm_map_write)

lemma vmm_init_place:
  assumes "unat k_size + 4095 < 2 ^ 64" and "\<And>e. e \<in> set ents \<Longrightarrow> unat (me_size e) + 4095 < 2 ^ 64"
  shows "vmm_init alloc k_size pbase vbase ents jmp c =
    seq (alloc (km_pmm (cpu_mem c))) (\<lambda>(pml4, s).
    seq (for_each (init_pages k_size pbase vbase ents) (place_page alloc pml4 PF_RW)
           (fresh_root pml4 s (cpu_mem c))) (\<lambda>m.
    Ret (cpu_switch_mem_ctx pml4 (stk_page K_STK_PAGES) jmp (c\<lparr>cpu_mem := m\<rparr>))))"
proof -
  have ident: "map (\<lambda>i. (Some i, i)) (page_steps 256) = span_pages 0 0 0x100000"
    by (simp add: span_pages_def)
  have regions: "for_each ents (\<lambda>e. page_loop (me_size e)
        (\<lambda>j. vmm_map alloc root (me_base e + j) (me_base e + j) VF_WRITE)) m =
      for_each (concat (map (\<lambda>e. span_pages (me_base e) (me_base e) (me_size e)) ents))
        (place_page alloc root PF_RW) m" for root m
    unfolding for_each_concat [symmetric] by (intro for_each_cong page_loop_place assms(2))
  have stack: "for_each [0..<K_STK_PAGES] (\<lambda>i m. seq (alloc (km_pmm m)) (\<lambda>(paddr, s).
        vmm_map alloc root paddr (stk_page i) VF_WRITE (m\<lparr>km_pmm := s\<rparr>))) m =
      for_each stk_pages (place_page alloc root PF_RW) m" for root m
    unfolding stk_pages_def for_each_map
    by (intro for_each_cong) (simp add: vmm_map_write place_page_def)
  have rest: "(\<lambda>(pmap, m).
      seq (page_loop k_size (\<lambda>i. vmm_map alloc pmap (pbase + i) (vbase + i) VF_WRITE) m) (\<lambda>m.
      seq (for_each ents (\<lambda>e. page_loop (me_size e)
            (\<lambda>j. vmm_map alloc pmap (me_base e + j) (me_base e + j) VF_WRITE)) m) (\<lambda>m.
      seq (for_each [0..<K_STK_PAGES] (\<lambda>i m. seq (alloc (km_pmm m)) (\<lambda>(paddr, s).
            vmm_map alloc pmap paddr (stk_page i) VF_WRITE (m\<lparr>km_pmm := s\<rparr>))) m) (\<lambda>m.
      Ret (cpu_switch_mem_ctx pmap (stk_page K_STK_PAGES) jmp (c\<lparr>cpu_mem := m\<rparr>)))))) =
    (\<lambda>(pmap, m). seq (for_each (span_pages pbase vbase k_size @
        concat (map (\<lambda>e. span_pages (me_base e) (me_base e) (me_size e)) ents) @ stk_pages)
        (place_page alloc pmap PF_RW) m) (\<lambda>m.
      Ret (cpu_switch_mem_ctx pmap (stk_page K_STK_PAGES) jmp (c\<lparr>cpu_mem := m\<rparr>))))"
    unfolding page_loop_place [OF assms(1)] regions stack for_each_append seq_assoc ..
  show ?thesis
    unfolding vmm_init_def vmm_create_map_def rest paging_create_map_place ident init_pages_def
    by (cases "alloc (km_pmm (cpu_mem c))") (auto simp: for_each_append seq_assoc)
qed

text \<open>On canonical addresses the 36 bits the tables look at determine the page.\<close>

lemma same_page_mod: "same_page v w \<longleftrightarrow> unat v div 4096 mod 2 ^ 36 = unat w div 4096 mod 2 ^ 36"
proof -
  let ?v = "unat v div 4096" and ?w = "unat w div 4096"
  have digits: "a = a' \<and> b = b' \<and> c = c' \<and> d = d' \<longleftrightarrow>
      d + 512 * (c + 512 * (b + 512 * a)) = d' + 512 * (c' + 512 * (b' + 512 * a'))"
    if "d < 512" "d' < 512" "c < 512" "c' < 512" "b < 512" "b' < (512 :: nat)" for a b c d a' b' c' d'
  proof -
    have one: "x = x' \<and> y = y' \<longleftrightarrow> x + 512 * y = x' + 512 * y'" if "x < 512" "x' < 512" for x x' y y' :: nat
    proof
      assume eq: "x + 512 * y = x' + 512 * y'"
      have "x = (x + 512 * y) mod 512" "y = (x + 512 * y) div 512"
        "x' = (x' + 512 * y') mod 512" "y' = (x' + 512 * y') div 512" using that by simp_all
      with eq show "x = x' \<and> y = y'" by metis
    qed simp
    show ?thesis unfolding one [OF that(1,2), symmetric] one [OF that(3,4), symmetric] one [OF that(5,6), symmetric]
      by blast
  qed
  have e: "drop_bit s v AND 0x1ff = drop_bit s w AND 0x1ff \<longleftrightarrow> unat v div 2 ^ s mod 512 = unat w div 2 ^ s mod 512" for s
    unfolding unat_pg_index [symmetric] u64_eq_iff_unat ..
  have "same_page v w \<longleftrightarrow> ?v div 134217728 mod 512 = ?w div 134217728 mod 512 \<and>
      ?v div 262144 mod 512 = ?w div 262144 mod 512 \<and> ?v div 512 mod 512 = ?w div 512 mod 512 \<and>
      ?v mod 512 = ?w mod 512"
    unfolding same_page_def vaddr_to_pg_ind_def page_index.ext_inject e
    by (simp add: div_mult2_eq [symmetric])
  then show ?thesis
    unfolding split_page_number [of ?v] split_page_number [of ?w] by (simp only: digits mod_less_divisor zero_less_numeral)
qed

lemma same_page_canonical:
  assumes "canonical v" "canonical w"
  shows "same_page v w \<longleftrightarrow> page_align v = page_align w"
proof -
  have m: "x mod 2 ^ 36 = (if x < 2 ^ 35 then x else x - (2 ^ 52 - 2 ^ 36))"
    if "x < 2 ^ 35 \<or> 2 ^ 52 - 2 ^ 35 \<le> x" "x < 2 ^ 52" for x :: nat
  proof (cases "x < 2 ^ 35")
    case False
    define y where "y = x - (2 ^ 52 - 2 ^ 36)"
    have x: "x = y + (2 ^ 16 - 1) * 2 ^ 36" and y: "y < 2 ^ 36"
      using that False by (simp_all add: y_def)
    have "x mod 2 ^ 36 = y" unfolding x mod_mult_self1 using y by simp
    then show ?thesis using False by (simp add: y_def)
  qed simp
  have inj: "x mod 2 ^ 36 = y mod 2 ^ 36 \<longleftrightarrow> x = y"
    if "x < 2 ^ 35 \<or> 2 ^ 52 - 2 ^ 35 \<le> x" "x < 2 ^ 52" "y < 2 ^ 35 \<or> 2 ^ 52 - 2 ^ 35 \<le> y" "y < 2 ^ 52"
    for x y :: nat
    unfolding m [OF that(1,2)] m [OF that(3,4)] using that by auto
  have r: "(unat u div 4096 < 2 ^ 35 \<or> 2 ^ 52 - 2 ^ 35 \<le> unat u div 4096) \<and> unat u div 4096 < 2 ^ 52" if "canonical u" for u
    using that unat_u64_bound [of u] by (auto simp: canonical_def)
  have "same_page v w \<longleftrightarrow> unat v div 4096 = unat w div 4096"
    unfolding same_page_mod by (intro inj) (use r assms in blast)+
  then show ?thesis by (simp add: u64_eq_iff_unat unat_page_align)
qed

subsection \<open>What a list of mappings leaves\<close>

lemma walk_after_unique:
  assumes "\<And>p v. (p, v) \<in> set ys \<Longrightarrow> same_page v w \<Longrightarrow> page_align p = q"
  shows "walk_after flags ys f w =
    (if \<exists>p v. (p, v) \<in> set ys \<and> same_page v w then Some (q OR (PF_P OR flags)) else f w)"
  using assms
proof (induction ys arbitrary: f)
  case (Cons y ys)
  obtain p v where y: "y = (p, v)" by fastforce
  have q: "same_page v w \<Longrightarrow> page_align p = q" using Cons.prems [of p v] y by simp
  have ih: "walk_after flags ys g w = (if \<exists>p v. (p, v) \<in> set ys \<and> same_page v w
      then Some (q OR (PF_P OR flags)) else g w)" for g
    by (rule Cons.IH) (rule Cons.prems, auto)
  have "walk_after flags (y # ys) f w = (if \<exists>p v. (p, v) \<in> set ys \<and> same_page v w
      then Some (q OR (PF_P OR flags)) else if same_page v w then Some (page_align p OR (PF_P OR flags)) else f w)"
    unfolding y walk_after.simps ih ..
  then show ?case using q y by auto
qed simp

lemma placed_append_given:
  "placed (map (\<lambda>(p, v). (Some p, v)) xs @ zs) av ys \<Longrightarrow> \<exists>us. ys = xs @ us \<and> placed zs av us"
  by (induction xs arbitrary: ys) auto

lemma placed_fresh:
  "placed (map (\<lambda>v. (None, v)) vs) av ys \<Longrightarrow> \<exists>ps. ys = zip ps vs \<and> length ps = length vs \<and>
     distinct ps \<and> set ps \<subseteq> av \<and> (\<forall>p \<in> set ps. page_align p = p)"
proof (induction vs arbitrary: av ys)
  case (Cons v vs)
  then obtain p zs where z: "ys = (p, v) # zs" "p \<in> av" "page_align p = p"
    "placed (map (\<lambda>v. (None, v)) vs) (av - {p}) zs" by auto
  from Cons.IH [OF z(4)] obtain ps where "zs = zip ps vs \<and> length ps = length vs \<and>
     distinct ps \<and> set ps \<subseteq> av - {p} \<and> (\<forall>p \<in> set ps. page_align p = p)" by blast
  with z show ?case by (intro exI [of _ "p # ps"]) auto
qed simp

text \<open>The addresses of the pages a span touches.\<close>

definition in_span :: "u64 \<Rightarrow> u64 \<Rightarrow> u64 \<Rightarrow> bool" where
  "in_span base sz w \<longleftrightarrow>
     unat base \<le> unat w \<and> unat w < unat base + 4096 * ((unat sz + 4095) div 4096)"

lemma span_pages_same:
  assumes al: "page_align b = b" and top: "unat b + 4096 * ((unat sz + 4095) div 4096) \<le> 2 ^ 64"
    and can: "\<And>x. in_span b sz x \<Longrightarrow> canonical x" and w: "canonical w"
  shows "x \<in> set (span_pages p b sz) \<and> same_page (snd x) w \<longleftrightarrow>
    in_span b sz w \<and> x = (Some (p + (page_align w - b)), page_align w)"
proof -
  let ?n = "(unat sz + 4095) div 4096"
  have ub: "unat b = unat b div 4096 * 4096" using al by (simp add: page_align_eq_iff)
  have u: "unat (page_addr k) = 4096 * k" "unat (b + page_addr k) = unat b + 4096 * k" if "k < ?n" for k
  proof -
    show 1: "unat (page_addr k) = 4096 * k"
      unfolding page_addr_def using that top by (intro unat_of_nat_u64) linarith
    show "unat (b + page_addr k) = unat b + 4096 * k"
      using 1 that top by (subst unat_add_u64) auto
  qed
  have sp: "same_page (b + page_addr k) w \<longleftrightarrow> b + page_addr k = page_align w" if "k < ?n" for k
  proof -
    have "in_span b sz (b + page_addr k)" using that u by (simp add: in_span_def)
    moreover have "page_align (b + page_addr k) = b + page_addr k"
      using u(2) [OF that] ub by (simp add: page_align_eq_iff) (metis dvd_add dvd_triv_left dvd_triv_right)
    ultimately show ?thesis using same_page_canonical [OF can w] by simp
  qed
  show ?thesis
  proof
    assume "x \<in> set (span_pages p b sz) \<and> same_page (snd x) w"
    then obtain k where k: "k < ?n" "x = (Some (p + page_addr k), b + page_addr k)" "same_page (b + page_addr k) w"
      by (auto simp: span_pages_def page_steps_def)
    with sp have v: "b + page_addr k = page_align w" by simp
    then have "unat w div 4096 * 4096 = unat b + 4096 * k" using u(2) [OF k(1)] by (metis unat_page_align)
    then have "in_span b sz w" using k(1) unfolding in_span_def by linarith
    moreover have "page_addr k = page_align w - b" using v by (simp add: algebra_simps)
    ultimately show "in_span b sz w \<and> x = (Some (p + (page_align w - b)), page_align w)"
      using k(2) v by simp
  next
    assume a: "in_span b sz w \<and> x = (Some (p + (page_align w - b)), page_align w)"
    define k where "k = unat w div 4096 - unat b div 4096"
    have "unat b div 4096 \<le> unat w div 4096" using a by (simp add: in_span_def div_le_mono)
    then have w4: "unat w div 4096 * 4096 = unat b + 4096 * k" using ub unfolding k_def by linarith
    then have k: "k < ?n" using a unfolding in_span_def by linarith
    have v: "b + page_addr k = page_align w" using u(2) [OF k] w4 by (simp add: u64_eq_iff_unat unat_page_align)
    then have "page_addr k = page_align w - b" by (simp add: algebra_simps)
    then have "x = (Some (p + page_addr k), b + page_addr k)" using a v by simp
    then show "x \<in> set (span_pages p b sz) \<and> same_page (snd x) w"
      using k sp [OF k] v by (auto simp: span_pages_def page_steps_def)
  qed
qed

subsection \<open>What the boot address space is meant to be\<close>

text \<open>
  Where the linker, the bootloader and the memory map put things: the kernel in the top 2 GiB, the
  usable regions in the lower half.
\<close>

definition boot_layout :: "u64 \<Rightarrow> phys_addr_t \<Rightarrow> u64 \<Rightarrow> meml_ent list \<Rightarrow> bool" where
  "boot_layout k_size pbase vbase ents \<longleftrightarrow>
     page_align pbase = pbase \<and> page_align vbase = vbase \<and> 0xffffffff80000000 \<le> unat vbase \<and>
     unat vbase + unat k_size + 4095 < 2 ^ 64 \<and>
     (\<forall>e \<in> set ents. page_align (me_base e) = me_base e \<and> unat (me_base e) + unat (me_size e) \<le> 2 ^ 47)"

text \<open>The entry of an address: kernel image, first megabyte and regions as they are, stack, or nothing.\<close>

definition kernel_space :: "u64 \<Rightarrow> phys_addr_t \<Rightarrow> u64 \<Rightarrow> meml_ent list \<Rightarrow> phys_addr_t list \<Rightarrow>
    u64 \<Rightarrow> u64 option" where
  "kernel_space k_size pbase vbase ents stk w =
     (if in_span vbase k_size w then Some (pbase + (page_align w - vbase) OR (PF_P OR PF_RW))
      else if in_span 0 0x100000 w \<or> (\<exists>e \<in> set ents. in_span (me_base e) (me_size e) w)
      then Some (page_align w OR (PF_P OR PF_RW))
      else if in_span K_STK_BASE 0x8000 w
      then Some (stk ! (unat w div 4096 - unat K_STK_BASE div 4096) OR (PF_P OR PF_RW))
      else None)"

definition given_pages :: "(phys_addr_t option \<times> u64) list \<Rightarrow> (u64 \<times> u64) list" where
  "given_pages xs = map (\<lambda>(p, v). (the p, v)) xs"

lemma given_pages_Some:
  "(\<And>x. x \<in> set xs \<Longrightarrow> fst x \<noteq> None) \<Longrightarrow> map (\<lambda>(p, v). (Some p, v)) (given_pages xs) = xs"
  unfolding given_pages_def map_map by (intro map_idI) force

lemma span_pages_given: "x \<in> set (span_pages p b sz) \<Longrightarrow> fst x \<noteq> None"
  by (auto simp: span_pages_def)

lemma stk_page_same:
  assumes "canonical w" "i < 8"
  shows "same_page (stk_page i) w \<longleftrightarrow> unat w div 4096 = unat K_STK_BASE div 4096 + i"
proof -
  have u: "unat (stk_page i) = unat K_STK_BASE + 4096 * i"
    using assms(2) unfolding stk_page_def by (simp add: unat_word_ariths unat_of_nat)
  then have "canonical (stk_page i)" by (simp add: canonical_def)
  then have "same_page (stk_page i) w \<longleftrightarrow> unat (stk_page i) div 4096 = unat w div 4096"
    using same_page_canonical [of "stk_page i" w] assms(1) by (simp add: u64_eq_iff_unat unat_page_align)
  also have "unat (stk_page i) div 4096 = unat K_STK_BASE div 4096 + i" unfolding u by simp
  finally show ?thesis by auto
qed

lemma in_stack: "in_span K_STK_BASE 0x8000 w \<longleftrightarrow> (\<exists>i < 8. unat w div 4096 = unat K_STK_BASE div 4096 + i)"
proof
  assume "in_span K_STK_BASE 0x8000 w"
  then have "unat K_STK_BASE div 4096 \<le> unat w div 4096" "unat w div 4096 - unat K_STK_BASE div 4096 < 8"
    by (auto simp: in_span_def)
  then show "\<exists>i < 8. unat w div 4096 = unat K_STK_BASE div 4096 + i"
    by (intro exI [of _ "unat w div 4096 - unat K_STK_BASE div 4096"]) simp
qed (auto simp: in_span_def)

lemma round_up_span:
  assumes "(b :: nat) = a * 4096" "b + s \<le> 2 ^ 47"
  shows "b + 4096 * ((s + 4095) div 4096) \<le> 2 ^ 47"
proof -
  let ?q = "(s + 4095) div 4096"
  have "4096 * ?q \<le> s + 4095" by simp
  then have "4096 * (a + ?q) < 4096 * 34359738369" using assms by simp
  then have "a + ?q \<le> 34359738368" by simp
  then show ?thesis using assms(1) by simp
qed

lemma boot_spans:
  assumes "boot_layout k_size pbase vbase ents" "canonical w"
  shows "x \<in> set (span_pages pbase vbase k_size) \<and> same_page (snd x) w \<longleftrightarrow>
      in_span vbase k_size w \<and> x = (Some (pbase + (page_align w - vbase)), page_align w)"
    and "x \<in> set (span_pages 0 0 0x100000) \<and> same_page (snd x) w \<longleftrightarrow>
      in_span 0 0x100000 w \<and> x = (Some (page_align w), page_align w)"
    and "e \<in> set ents \<Longrightarrow> x \<in> set (span_pages (me_base e) (me_base e) (me_size e)) \<and> same_page (snd x) w \<longleftrightarrow>
      in_span (me_base e) (me_size e) w \<and> x = (Some (page_align w), page_align w)"
proof -
  have k: "page_align vbase = vbase" "0xffffffff80000000 \<le> unat vbase"
    "unat vbase + unat k_size + 4095 < 2 ^ 64" using assms(1) by (auto simp: boot_layout_def)
  have "unat vbase + 4096 * ((unat k_size + 4095) div 4096) \<le> 2 ^ 64" using k(3) by linarith
  moreover have "\<And>x. in_span vbase k_size x \<Longrightarrow> canonical x"
    using k(2) by (auto simp: in_span_def canonical_def)
  ultimately show "x \<in> set (span_pages pbase vbase k_size) \<and> same_page (snd x) w \<longleftrightarrow>
      in_span vbase k_size w \<and> x = (Some (pbase + (page_align w - vbase)), page_align w)"
    using k(1) assms(2) by (intro span_pages_same)
  have "\<And>x. in_span 0 0x100000 x \<Longrightarrow> canonical x" by (auto simp: in_span_def canonical_def)
  then show "x \<in> set (span_pages 0 0 0x100000) \<and> same_page (snd x) w \<longleftrightarrow>
      in_span 0 0x100000 w \<and> x = (Some (page_align w), page_align w)"
    using span_pages_same [of 0 "0x100000" w x 0] assms(2) by (simp add: page_align_def)
  assume "e \<in> set ents"
  then have e: "page_align (me_base e) = me_base e" "unat (me_base e) + unat (me_size e) \<le> 2 ^ 47"
    using assms(1) by (auto simp: boot_layout_def)
  then have "unat (me_base e) = unat (me_base e) div 4096 * 4096" by (simp add: page_align_eq_iff)
  then have top: "unat (me_base e) + 4096 * ((unat (me_size e) + 4095) div 4096) \<le> 2 ^ 47"
    using e(2) by (rule round_up_span)
  then have "\<And>x. in_span (me_base e) (me_size e) x \<Longrightarrow> canonical x"
    by (auto simp: in_span_def canonical_def)
  then show "x \<in> set (span_pages (me_base e) (me_base e) (me_size e)) \<and> same_page (snd x) w \<longleftrightarrow>
      in_span (me_base e) (me_size e) w \<and> x = (Some (page_align w), page_align w)"
    using span_pages_same [of "me_base e" "me_size e" w x "me_base e"] e(1) top assms(2) by simp
qed

lemma boot_given_same:
  assumes bl: "boot_layout k_size pbase vbase ents" and w: "canonical w"
  defines "G \<equiv> span_pages 0 0 0x100000 @ span_pages pbase vbase k_size @
     concat (map (\<lambda>e. span_pages (me_base e) (me_base e) (me_size e)) ents)"
  shows "(p, v) \<in> set (given_pages G) \<and> same_page v w \<longleftrightarrow> v = page_align w \<and>
    (in_span vbase k_size w \<and> p = pbase + (page_align w - vbase) \<or>
     (in_span 0 0x100000 w \<or> (\<exists>e \<in> set ents. in_span (me_base e) (me_size e) w)) \<and> p = page_align w)"
proof -
  have "map (\<lambda>(p, v). (Some p, v)) (given_pages G) = G"
    by (rule given_pages_Some) (auto simp: G_def dest: span_pages_given)
  then have "set G = (\<lambda>(p, v). (Some p, v)) ` set (given_pages G)" by (metis list.set_map)
  then have "(p, v) \<in> set (given_pages G) \<longleftrightarrow> (Some p, v) \<in> set G" by force
  then have "(p, v) \<in> set (given_pages G) \<and> same_page v w \<longleftrightarrow>
      ((Some p, v) \<in> set (span_pages 0 0 0x100000) \<and> same_page (snd (Some p, v)) w) \<or>
      ((Some p, v) \<in> set (span_pages pbase vbase k_size) \<and> same_page (snd (Some p, v)) w) \<or>
      (\<exists>e \<in> set ents. (Some p, v) \<in> set (span_pages (me_base e) (me_base e) (me_size e)) \<and>
         same_page (snd (Some p, v)) w)"
    by (auto simp: G_def)
  also have "\<dots> \<longleftrightarrow> (in_span 0 0x100000 w \<and> (Some p, v) = (Some (page_align w), page_align w)) \<or>
      (in_span vbase k_size w \<and> (Some p, v) = (Some (pbase + (page_align w - vbase)), page_align w)) \<or>
      (\<exists>e \<in> set ents. in_span (me_base e) (me_size e) w \<and> (Some p, v) = (Some (page_align w), page_align w))"
    unfolding boot_spans(1,2) [OF bl w] using boot_spans(3) [OF bl w] by blast
  finally show ?thesis by auto
qed

lemma page_align_add:
  assumes "page_align a = a" "page_align b = b"
  shows "page_align (a + b) = a + b"
proof -
  have "4096 dvd (unat a + unat b) mod 2 ^ 64"
    using assms by (intro dvd_mod) (auto simp: page_align_eq_iff)
  then show ?thesis by (simp add: page_align_eq_iff unat_word_ariths)
qed

lemma page_align_sub:
  assumes "page_align a = a" "page_align b = b" "b \<le> a"
  shows "page_align (a - b) = a - b"
  using assms by (simp add: page_align_eq_iff unat_sub_u64 dvd_diff_nat)

lemma stack_pairs_same:
  assumes stk: "length stk = K_STK_PAGES" and w: "canonical w"
  defines "i \<equiv> unat w div 4096 - unat K_STK_BASE div 4096"
  shows "(p, v) \<in> set (zip stk (map stk_page [0..<K_STK_PAGES])) \<and> same_page v w \<longleftrightarrow>
    in_span K_STK_BASE 0x8000 w \<and> p = stk ! i \<and> v = stk_page i"
proof -
  have "(p, v) \<in> set (zip stk (map stk_page [0..<K_STK_PAGES])) \<longleftrightarrow> (\<exists>i < 8. p = stk ! i \<and> v = stk_page i)"
    by (auto simp: set_zip stk)
  then have "(p, v) \<in> set (zip stk (map stk_page [0..<K_STK_PAGES])) \<and> same_page v w \<longleftrightarrow>
      (\<exists>i < 8. p = stk ! i \<and> v = stk_page i \<and> unat w div 4096 = unat K_STK_BASE div 4096 + i)"
    by (metis stk_page_same [OF w])
  moreover have "(\<exists>i < 8. P i \<and> Q i \<and> x = c + i) \<longleftrightarrow> (\<exists>i < 8. x = c + i) \<and> P (x - c) \<and> Q (x - c)"
    for P Q and x c :: nat by auto
  ultimately show ?thesis unfolding in_stack i_def by simp
qed

text \<open>The spans of the kernel space do not meet.\<close>

lemma boot_spans_low:
  assumes bl: "boot_layout k_size pbase vbase ents"
    and l: "in_span 0 0x100000 w \<or> (\<exists>e \<in> set ents. in_span (me_base e) (me_size e) w)"
  shows "unat w < 2 ^ 47"
proof (cases "in_span 0 0x100000 w")
  case False
  then obtain e where e: "e \<in> set ents" "in_span (me_base e) (me_size e) w" using l by blast
  then have "unat (me_base e) = unat (me_base e) div 4096 * 4096" "unat (me_base e) + unat (me_size e) \<le> 2 ^ 47"
    using bl by (auto simp: boot_layout_def page_align_eq_iff)
  from round_up_span [OF this] e(2) show ?thesis unfolding in_span_def by linarith
qed (simp add: in_span_def)

lemma boot_spans_disjoint:
  assumes bl: "boot_layout k_size pbase vbase ents"
  defines "low \<equiv> \<lambda>w. in_span 0 0x100000 w \<or> (\<exists>e \<in> set ents. in_span (me_base e) (me_size e) w)"
  shows "in_span vbase k_size w \<Longrightarrow> \<not> low w" "in_span vbase k_size w \<Longrightarrow> \<not> in_span K_STK_BASE 0x8000 w"
    "low w \<Longrightarrow> \<not> in_span K_STK_BASE 0x8000 w"
proof -
  have low: "low w \<Longrightarrow> unat w < 2 ^ 47" using boot_spans_low [OF bl] unfolding low_def .
  have ker: "in_span vbase k_size w \<Longrightarrow> 0xffffffff80000000 \<le> unat w"
    using bl by (auto simp: in_span_def boot_layout_def)
  have stack: "in_span K_STK_BASE 0x8000 w \<Longrightarrow> 0xffffffff40000000 \<le> unat w \<and> unat w < 0xffffffff40008000"
    by (auto simp: in_span_def)
  show "in_span vbase k_size w \<Longrightarrow> \<not> low w" "in_span vbase k_size w \<Longrightarrow> \<not> in_span K_STK_BASE 0x8000 w"
    "low w \<Longrightarrow> \<not> in_span K_STK_BASE 0x8000 w" using low ker stack by fastforce+
qed

lemma boot_kernel_frame:
  assumes bl: "boot_layout k_size pbase vbase ents" and w: "in_span vbase k_size w"
  shows "page_align (pbase + (page_align w - vbase)) = pbase + (page_align w - vbase)"
proof -
  have "vbase \<le> page_align w"
    using w bl by (auto simp: boot_layout_def in_span_def word_le_nat_alt unat_page_align page_align_eq_iff)
  then show ?thesis using bl by (intro page_align_add page_align_sub) (auto simp: boot_layout_def)
qed

text \<open>The pages of the boot, in the order the code maps them: the given ones, and fresh frames for the stack.\<close>

lemma boot_placed:
  assumes pl: "placed (init_pages k_size pbase vbase ents) av ys"
  obtains stk where "length stk = K_STK_PAGES" "distinct stk" "set stk \<subseteq> av" "\<forall>p \<in> set stk. page_align p = p"
    "ys = given_pages (span_pages 0 0 0x100000 @ span_pages pbase vbase k_size @
       concat (map (\<lambda>e. span_pages (me_base e) (me_base e) (me_size e)) ents)) @
       zip stk (map stk_page [0..<K_STK_PAGES])"
proof -
  define G where "G = span_pages 0 0 0x100000 @ span_pages pbase vbase k_size @
     concat (map (\<lambda>e. span_pages (me_base e) (me_base e) (me_size e)) ents)"
  have "map (\<lambda>(p, v). (Some p, v)) (given_pages G) = G"
    by (rule given_pages_Some) (auto simp: G_def dest: span_pages_given)
  then have "init_pages k_size pbase vbase ents =
      map (\<lambda>(p, v). (Some p, v)) (given_pages G) @ map (\<lambda>v. (None, v)) (map stk_page [0..<K_STK_PAGES])"
    by (simp add: init_pages_def stk_pages_def G_def)
  with pl obtain us where us: "ys = given_pages G @ us"
    "placed (map (\<lambda>v. (None, v)) (map stk_page [0..<K_STK_PAGES])) av us"
    using placed_append_given by metis
  from placed_fresh [OF us(2)] show ?thesis using that us(1) unfolding G_def by auto
qed

lemma boot_walk:
  assumes bl: "boot_layout k_size pbase vbase ents" and pl: "placed (init_pages k_size pbase vbase ents) av ys"
  shows "\<exists>stk. length stk = K_STK_PAGES \<and> distinct stk \<and> set stk \<subseteq> av \<and>
    (\<forall>w. canonical w \<longrightarrow> walk_after PF_RW ys (\<lambda>_. None) w = kernel_space k_size pbase vbase ents stk w)"
proof -
  obtain stk where stk: "length stk = K_STK_PAGES" "distinct stk" "set stk \<subseteq> av" "\<forall>p \<in> set stk. page_align p = p"
    and ys: "ys = given_pages (span_pages 0 0 0x100000 @ span_pages pbase vbase k_size @
       concat (map (\<lambda>e. span_pages (me_base e) (me_base e) (me_size e)) ents)) @
       zip stk (map stk_page [0..<K_STK_PAGES])"
    using boot_placed [OF pl] by blast
  have "walk_after PF_RW ys (\<lambda>_. None) w = kernel_space k_size pbase vbase ents stk w" if w: "canonical w" for w
  proof -
    let ?low = "in_span 0 0x100000 w \<or> (\<exists>e \<in> set ents. in_span (me_base e) (me_size e) w)"
    let ?i = "unat w div 4096 - unat K_STK_BASE div 4096"
    have mem: "(p, v) \<in> set ys \<and> same_page v w \<longleftrightarrow>
        v = page_align w \<and> in_span vbase k_size w \<and> p = pbase + (page_align w - vbase) \<or>
        v = page_align w \<and> ?low \<and> p = page_align w \<or>
        in_span K_STK_BASE 0x8000 w \<and> p = stk ! ?i \<and> v = stk_page ?i" for p v
      using boot_given_same [OF bl w, of p v] stack_pairs_same [OF stk(1) w, of p v] unfolding ys set_append by blast
    define q where "q = (if in_span vbase k_size w then pbase + (page_align w - vbase)
      else if ?low then page_align w else stk ! ?i)"
    note excl = boot_spans_disjoint [OF bl, of w]
    have fr: "in_span K_STK_BASE 0x8000 w \<Longrightarrow> page_align (stk ! ?i) = stk ! ?i"
      using stk(1,4) unfolding in_stack by auto
    have "page_align p = q" if "(p, v) \<in> set ys" "same_page v w" for p v
      using mem [of p v] that boot_kernel_frame [OF bl] excl fr unfolding q_def by auto
    then have wa: "walk_after PF_RW ys (\<lambda>_. None) w =
      (if \<exists>p v. (p, v) \<in> set ys \<and> same_page v w then Some (q OR (PF_P OR PF_RW)) else None)"
      by (rule walk_after_unique)
    have ex: "(\<exists>p v. (p, v) \<in> set ys \<and> same_page v w) \<longleftrightarrow>
        in_span vbase k_size w \<or> ?low \<or> in_span K_STK_BASE 0x8000 w"
      unfolding mem by blast
    show ?thesis unfolding wa ex kernel_space_def q_def using excl by auto
  qed
  then show ?thesis using stk by blast
qed

subsection \<open>The processor's view\<close>

text \<open>
  Every translation the TLB holds for a canonical address is the current one.
\<close>

definition tlb_coherent :: "'s cpu \<Rightarrow> bool" where
  "tlb_coherent c \<longleftrightarrow> (\<forall>w e. canonical w \<longrightarrow> km_tlb (cpu_mem c) (page_align w) = Some e \<longrightarrow>
     pg_walk (km_mem (cpu_mem c)) (cpu_cr3 c) w = Some e)"

lemma tlb_coherent_invlpg:
  assumes "tlb_coherent c" "canonical v" "km_tlb m = km_tlb (cpu_mem c)"
    and "\<And>w. \<not> same_page v w \<Longrightarrow> pg_walk (km_mem m) (cpu_cr3 c) w = pg_walk (km_mem (cpu_mem c)) (cpu_cr3 c) w"
  shows "tlb_coherent (c\<lparr>cpu_mem := paging_invlpg v m\<rparr>)"
  unfolding tlb_coherent_def
proof (intro allI impI)
  fix w e
  assume w: "canonical w" and "km_tlb (cpu_mem (c\<lparr>cpu_mem := paging_invlpg v m\<rparr>)) (page_align w) = Some e"
  then have "page_align w \<noteq> page_align v" "km_tlb (cpu_mem c) (page_align w) = Some e"
    using assms(3) by (auto simp: paging_invlpg_def split: if_splits)
  then have "\<not> same_page v w" "pg_walk (km_mem (cpu_mem c)) (cpu_cr3 c) w = Some e"
    using w assms(1,2) by (auto simp: same_page_canonical tlb_coherent_def)
  with assms(4) show "pg_walk (km_mem (cpu_mem (c\<lparr>cpu_mem := paging_invlpg v m\<rparr>)))
      (cpu_cr3 (c\<lparr>cpu_mem := paging_invlpg v m\<rparr>)) w = Some e"
    by (simp add: paging_invlpg_def)
qed

lemma vmm_flags_low: "f AND VF_NO_EXEC = 0 \<Longrightarrow> low_flags (vmm_flags f)"
  by (cases "f AND VF_WRITE = 0"; cases "f AND VF_NO_CACHE = 0") (simp_all add: vmm_flags_def low_flags_def)

context frame_source
begin

lemma vmm_map_cur_spec:
  assumes wf: "pg_wf ok avail (cpu_cr3 c) (cpu_mem c)" and fl: "flags AND VF_NO_EXEC = 0"
    and need: "pg_missing (km_mem (cpu_mem c)) (cpu_cr3 c) v \<le> card (avail (km_pmm (cpu_mem c)))"
  shows "\<exists>m. vmm_map_cur alloc paddr v flags c = Ret (c\<lparr>cpu_mem := paging_invlpg v m\<rparr>) \<and>
    pg_wf ok avail (cpu_cr3 c) m \<and> managed (km_pmm m) = managed (km_pmm (cpu_mem c)) \<and>
    maps_page avail (cpu_cr3 c) v (page_align paddr OR (PF_P OR vmm_flags flags)) (cpu_mem c) m"
  using paging_map_spec [OF wf vmm_flags_low [OF fl] need, of paddr]
  by (auto simp: vmm_map_cur_def vmm_map_def)

lemma vmm_init_spec:
  assumes bl: "boot_layout k_size pbase vbase ents" and ok: "ok (km_pmm (cpu_mem c))"
    and need: "1 + 3 * card (pg_idx ` snd ` set (init_pages k_size pbase vbase ents)) + K_STK_PAGES
      \<le> card (avail (km_pmm (cpu_mem c)))"
  shows "\<exists>c' stk. vmm_init alloc k_size pbase vbase ents jmp c = Ret c' \<and>
    pg_wf ok avail (cpu_cr3 c') (cpu_mem c') \<and> length stk = K_STK_PAGES \<and> distinct stk \<and>
    set stk \<subseteq> avail (km_pmm (cpu_mem c)) - {cpu_cr3 c'} - avail (km_pmm (cpu_mem c')) \<and>
    cpu_rsp c' = stk_page K_STK_PAGES \<and> cpu_rip c' = jmp \<and> km_tlb (cpu_mem c') = (\<lambda>_. None) \<and>
    pg_rw (km_mem (cpu_mem c')) (cpu_cr3 c') \<and>
    (\<forall>w. canonical w \<longrightarrow> pg_walk (km_mem (cpu_mem c')) (cpu_cr3 c') w = kernel_space k_size pbase vbase ents stk w)"
proof -
  let ?xs = "init_pages k_size pbase vbase ents"
  have "filter (\<lambda>x. fst x = None) ?xs = filter (\<lambda>x. fst x = None) stk_pages"
    by (auto simp: init_pages_def filter_empty_conv filter_concat dest: span_pages_given)
  also have "\<dots> = stk_pages" by (simp add: stk_pages_def)
  finally have n: "length (filter (\<lambda>x. fst x = None) ?xs) = K_STK_PAGES" by (simp add: stk_pages_def)
  have "low_flags PF_RW" by (simp add: low_flags_def)
  from fresh_root_spec [OF ok this, of ?xs] need n obtain pml4 s m' ys where
    r: "alloc (km_pmm (cpu_mem c)) = Ret (pml4, s)"
      "for_each ?xs (place_page alloc pml4 PF_RW) (fresh_root pml4 s (cpu_mem c)) = Ret m'"
      "pg_wf ok avail pml4 m'" "placed ?xs (avail (km_pmm (cpu_mem c)) - {pml4} - avail (km_pmm m')) ys"
      "\<forall>w. pg_walk (km_mem m') pml4 w = walk_after PF_RW ys (\<lambda>_. None) w" "pg_rw (km_mem m') pml4" by auto
  from boot_walk [OF bl r(4)] obtain stk where stk: "length stk = K_STK_PAGES" "distinct stk"
    "set stk \<subseteq> avail (km_pmm (cpu_mem c)) - {pml4} - avail (km_pmm m')"
    "\<forall>w. canonical w \<longrightarrow> walk_after PF_RW ys (\<lambda>_. None) w = kernel_space k_size pbase vbase ents stk w" by blast
  let ?c = "cpu_switch_mem_ctx pml4 (stk_page K_STK_PAGES) jmp (c\<lparr>cpu_mem := m'\<rparr>)"
  have "unat k_size + 4095 < 2 ^ 64" using bl by (auto simp: boot_layout_def)
  moreover have "unat (me_size e) + 4095 < 2 ^ 64" if "e \<in> set ents" for e
    using bl that by (fastforce simp: boot_layout_def)
  ultimately have "vmm_init alloc k_size pbase vbase ents jmp c = Ret ?c"
    using r(1,2) by (simp add: vmm_init_place)
  moreover have "pg_wf ok avail pml4 (m'\<lparr>km_tlb := \<lambda>_. None\<rparr>)" using r(3) by (simp add: pg_wf_def)
  ultimately show ?thesis
    using stk r(5,6) by (intro exI [of _ ?c] exI [of _ stk]) (simp add: cpu_switch_mem_ctx_def)
qed

end

subsection \<open>Properties\<close>

definition demo_cpu :: "pmm cpu" where
  "demo_cpu = \<lparr>cpu_mem = demo_kmem, cpu_cr3 = 0x1000, cpu_rsp = 0, cpu_rbp = 0, cpu_rip = 0\<rparr>"

lemma demo_cpu_wf:
  "pg_wf pmm_ok pmm_avail (cpu_cr3 demo_cpu) (cpu_mem demo_cpu)" "tlb_coherent demo_cpu"
  using demo_kmem_wf by (simp_all add: demo_cpu_def tlb_coherent_def demo_kmem_def)

lemma demo_cpu_rw: "pg_rw (km_mem (cpu_mem demo_cpu)) (cpu_cr3 demo_cpu)"
  using demo_kmem_rw by (simp add: demo_cpu_def)

text \<open>
  C9: the address space \<open>vmm_init\<close> switches to: on every canonical address the new tables hold
  exactly the kernel image at its physical place, the first megabyte and the usable regions
  mapped to themselves, and eight stack pages on eight different frames that were available
  and no longer are; everything else is unmapped.  Every table is linked for writing, so that the flags of the last
  entry are what the processor applies.  The processor runs on the new stack at the continuation.
\<close>
theorem vmm_init_kernel_space:
  assumes "boot_layout k_size pbase vbase ents" and "pmm_ok (km_pmm (cpu_mem c))"
    and "1 + 3 * card (pg_idx ` snd ` set (init_pages k_size pbase vbase ents)) + K_STK_PAGES
      \<le> card (pmm_avail (km_pmm (cpu_mem c)))"
  shows "\<exists>c' stk. vmm_init pmm_alloc k_size pbase vbase ents jmp c = Ret c' \<and>
    length stk = K_STK_PAGES \<and> distinct stk \<and>
    set stk \<subseteq> pmm_avail (km_pmm (cpu_mem c)) - {cpu_cr3 c'} - pmm_avail (km_pmm (cpu_mem c')) \<and>
    cpu_rsp c' = K_STK_BASE + 0x8000 \<and> cpu_rip c' = jmp \<and> pg_rw (km_mem (cpu_mem c')) (cpu_cr3 c') \<and>
    (\<forall>w. canonical w \<longrightarrow> pg_walk (km_mem (cpu_mem c')) (cpu_cr3 c') w = kernel_space k_size pbase vbase ents stk w)"
  using pmm.vmm_init_spec [OF assms, of jmp] by (auto simp: stk_page_def)

lemma low_idx:
  assumes "k < 512"
  shows "pg_idx (page_addr k) = [0, 0, 0]"
proof -
  have u: "unat (page_addr k) = 4096 * k"
    unfolding page_addr_def using assms by (intro unat_of_nat_u64) simp
  have "drop_bit s (page_addr k) AND 0x1ff = 0" if "2 ^ 21 \<le> (2 :: nat) ^ s" for s
  proof -
    have "4096 * k < 2 ^ s" using assms that by simp
    then have "unat (drop_bit s (page_addr k) AND 0x1ff) = 0" unfolding unat_pg_index u by simp
    then show ?thesis by (simp add: unat_eq_0)
  qed
  from this [of 39] this [of 30] this [of 21] show ?thesis
    by (simp add: pg_idx_def vaddr_to_pg_ind_def Let_def)
qed

lemma demo_boot_tables:
  "card (pg_idx ` snd ` set (init_pages 0x3000 0x200000 0xffffffff80000000 demo_layout)) \<le> 3"
proof -
  let ?T = "{[0, 0, 0], [511, 510, 0], [511, 509, 0]} :: u64 list set"
  have a: "pg_idx ` snd ` set (span_pages 0 0 0x100000) \<subseteq> ?T"
    by (auto simp: span_pages_def page_steps_def low_idx)
  have "(0x100000 :: u64) + page_addr i = page_addr (256 + i)" for i by (simp add: page_addr_def)
  then have b: "pg_idx ` snd ` set (span_pages 0x100000 0x100000 0x40000) \<subseteq> ?T"
    by (auto simp: span_pages_def page_steps_def low_idx)
  have c: "pg_idx ` snd ` set (span_pages 0x200000 0xffffffff80000000 0x3000) \<subseteq> ?T"
    by (simp add: span_pages_def page_steps_def page_addr_def upt_rec pg_idx_def vaddr_to_pg_ind_def Let_def)
  have d: "pg_idx ` snd ` set stk_pages \<subseteq> ?T"
    by (simp add: stk_pages_def stk_page_def upt_rec pg_idx_def vaddr_to_pg_ind_def Let_def)
  have "pg_idx ` snd ` set (init_pages 0x3000 0x200000 0xffffffff80000000 demo_layout) \<subseteq> ?T"
    using a b c d by (simp add: init_pages_def demo_layout_def image_Un)
  then have "card (pg_idx ` snd ` set (init_pages 0x3000 0x200000 0xffffffff80000000 demo_layout)) \<le> card ?T"
    by (intro card_mono) auto
  then show ?thesis by simp
qed

theorem vmm_init_kernel_space_witness:
  "\<exists>c'. vmm_init pmm_alloc 0x3000 0x200000 0xffffffff80000000 demo_layout 0xffffffff80000123 demo_cpu = Ret c' \<and>
     cpu_rip c' = 0xffffffff80000123 \<and>
     pg_walk (km_mem (cpu_mem c')) (cpu_cr3 c') 0xffffffff80002abc = Some 0x202003"
proof -
  have bl: "boot_layout 0x3000 0x200000 0xffffffff80000000 demo_layout"
    by (simp add: boot_layout_def demo_layout_def page_align_def)
  have "pmm_ok (km_pmm (cpu_mem demo_cpu))" by (simp add: demo_cpu_def demo_kmem_avail)
  moreover have "1 + 3 * card (pg_idx ` snd ` set (init_pages 0x3000 0x200000 0xffffffff80000000 demo_layout)) + 8
      \<le> card (pmm_avail (km_pmm (cpu_mem demo_cpu)))"
    using demo_boot_tables by (simp add: demo_cpu_def demo_kmem_avail)
  ultimately obtain c' stk where
    "vmm_init pmm_alloc 0x3000 0x200000 0xffffffff80000000 demo_layout 0xffffffff80000123 demo_cpu = Ret c'"
    "cpu_rip c' = 0xffffffff80000123"
    "\<forall>w. canonical w \<longrightarrow> pg_walk (km_mem (cpu_mem c')) (cpu_cr3 c') w =
       kernel_space 0x3000 0x200000 0xffffffff80000000 demo_layout stk w"
    using vmm_init_kernel_space [OF bl] by metis
  moreover have "canonical 0xffffffff80002abc" by (simp add: canonical_def)
  moreover have "kernel_space 0x3000 0x200000 0xffffffff80000000 demo_layout stk 0xffffffff80002abc = Some 0x202003"
    by (simp add: kernel_space_def in_span_def page_align_def)
  ultimately show ?thesis by auto
qed



text \<open>
  Unmapping a page of the running address space removes its translation from the tables and
  from the TLB, and leaves the others.
\<close>
theorem vmm_unmap_cur_coherent:
  assumes "pg_wf pmm_ok pmm_avail (cpu_cr3 c) (cpu_mem c)" and "tlb_coherent c" and "canonical v"
  shows "tlb_coherent (vmm_unmap_cur v c) \<and> km_tlb (cpu_mem (vmm_unmap_cur v c)) (page_align v) = None \<and>
    pg_wf pmm_ok pmm_avail (cpu_cr3 c) (cpu_mem (vmm_unmap_cur v c)) \<and>
    pg_walk (km_mem (cpu_mem (vmm_unmap_cur v c))) (cpu_cr3 c) w =
      (if same_page v w then None else pg_walk (km_mem (cpu_mem c)) (cpu_cr3 c) w)"
proof -
  let ?m = "paging_unmap (cpu_cr3 c) v (cpu_mem c)"
  have t: "pg_tree (km_mem (cpu_mem c)) (cpu_cr3 c) (pmm_avail (km_pmm (cpu_mem c)))"
    using assms(1) by (simp add: pg_wf_def)
  note u = paging_unmap_spec [OF t, of v]
  have "tlb_coherent (vmm_unmap_cur v c)"
    unfolding vmm_unmap_cur_def vmm_unmap_def
    using u by (intro tlb_coherent_invlpg [OF assms(2,3)]) auto
  then show ?thesis
    using u [of w] assms(1) by (simp add: vmm_unmap_cur_def vmm_unmap_def paging_invlpg_def pg_wf_def)
qed

theorem vmm_unmap_cur_coherent_witness:
  "tlb_coherent (vmm_unmap_cur 0xfffffbbb00001000 demo_cpu)"
proof -
  have "canonical 0xfffffbbb00001000" by (simp add: canonical_def)
  then show ?thesis using vmm_unmap_cur_coherent [OF demo_cpu_wf] by blast
qed

end
