(* ===== verification/Kheap.thy ===== *)
theory Kheap
  imports Vmm
begin

section \<open>The kernel heap (kheap.c)\<close>

text \<open>
  The heap is a window of the address space that grows page by page, and a linked list of blocks,
  each a header \<open>struct kh_ent\<close> followed by its data.  \<open>kh_store\<close> holds the header at an address
  (all of them are 16-aligned, so headers do not overlap partly); the list is walked through its
  \<open>next\<close> pointers, NULL being 0.  A write of a header is a page fault unless the page tables that
  \<open>cr3\<close> points to have a present, writable entry for its first and its last byte; headers are read
  where they were written.  The contents of the blocks belong to the clients.  The frame allocator is
  an argument, as in the theories below.  The lemmas show that the list always is a row of blocks without holes: the
  search of \<open>find_free\<close> can only succeed behind its last block.
\<close>

abbreviation KH_START :: u64 where "KH_START \<equiv> 0xfffffbbb00000000"
abbreviation KH_MAX_NPAGES :: u64 where "KH_MAX_NPAGES \<equiv> 0x40000"

record kh_ent =
  ke_next :: u64
  ke_size :: u64

record 's kheap =
  kh_store :: "u64 \<Rightarrow> kh_ent"
  kh_head :: u64
  kh_tail :: u64
  kh_npages :: u64
  kh_mutex :: k_mutex_t
  kh_cpu :: "'s cpu"

subsection \<open>The operations\<close>

text \<open>\<open>sizeof(struct kh_ent)\<close> is 16.\<close>

partial_function (option) is_free_from :: "(u64 \<Rightarrow> kh_ent) \<Rightarrow> u64 \<Rightarrow> u64 \<Rightarrow> u64 \<Rightarrow> u64 \<Rightarrow> bool option" where
  "is_free_from st npages base limit ent =
     (if ent = 0 then Some True
      else if base + limit > KH_START + PAGE_SIZE * npages then Some False
      else if base < ent + 16 + ke_size (st ent) \<and> base + limit > ent then Some False
      else is_free_from st npages base limit (ke_next (st ent)))"

definition is_free :: "u64 \<Rightarrow> u64 \<Rightarrow> 's kheap \<Rightarrow> bool option" where
  "is_free base limit s = is_free_from (kh_store s) (kh_npages s) base limit (kh_head s)"

definition kh_slot :: "(u64 \<Rightarrow> kh_ent) \<Rightarrow> u64 \<Rightarrow> u64" where
  "kh_slot st ent = (let addr = ent + (16 + ke_size (st ent)) in addr + (16 - addr mod 16))"

partial_function (option) find_free_from :: "u64 \<Rightarrow> 's kheap \<Rightarrow> u64 \<Rightarrow> u64 option" where
  "find_free_from n s ent =
     (if ent = 0 then Some 0
      else (case is_free (kh_slot (kh_store s) ent) (16 + n) s of
              None \<Rightarrow> None
            | Some free \<Rightarrow>
                if free then Some (kh_slot (kh_store s) ent)
                else find_free_from n s (ke_next (kh_store s ent))))"

definition find_free :: "u64 \<Rightarrow> 's kheap \<Rightarrow> u64 exec" where
  "find_free n s = from_opt (find_free_from n s (kh_head s))"

definition kh_writable :: "'s cpu \<Rightarrow> u64 \<Rightarrow> bool" where
  "kh_writable c a \<longleftrightarrow> pg_writable (km_mem (cpu_mem c)) (cpu_cr3 c) a"

definition kh_put :: "u64 \<Rightarrow> kh_ent \<Rightarrow> 's kheap \<Rightarrow> 's kheap exec" where
  "kh_put a e s =
     (if kh_writable (kh_cpu s) a \<and> kh_writable (kh_cpu s) (a + 15)
      then Ret (s\<lparr>kh_store := (kh_store s)(a := e)\<rparr>) else Fault)"

text \<open>The \<open>if (new)\<close> block of \<open>kheap_alloc\<close>: append the block and return its data.\<close>

definition kh_append :: "u64 \<Rightarrow> u64 \<Rightarrow> 's kheap \<Rightarrow> (u64 \<times> 's kheap) exec" where
  "kh_append new n s =
     seq (kh_put new \<lparr>ke_next = 0, ke_size = n\<rparr> s) (\<lambda>s.
     seq (kh_put (kh_tail s) ((kh_store s (kh_tail s))\<lparr>ke_next := new\<rparr>) s) (\<lambda>s.
     seq (k_mutex_unlock (kh_mutex s)) (\<lambda>m.
     Ret (new + 16, s\<lparr>kh_tail := new, kh_mutex := m\<rparr>))))"

definition kh_pmm_alloc :: "('s \<Rightarrow> (phys_addr_t \<times> 's) exec) \<Rightarrow> 's cpu \<Rightarrow> (phys_addr_t \<times> 's cpu) exec" where
  "kh_pmm_alloc alloc c =
     seq (alloc (km_pmm (cpu_mem c))) (\<lambda>(p, s). Ret (p, c\<lparr>cpu_mem := (cpu_mem c)\<lparr>km_pmm := s\<rparr>\<rparr>))"

definition kheap_init :: "('s \<Rightarrow> (phys_addr_t \<times> 's) exec) \<Rightarrow> 's kheap \<Rightarrow> (int \<times> 's kheap) exec" where
  "kheap_init alloc s =
     seq (kh_pmm_alloc alloc (kh_cpu s)) (\<lambda>(paddr, c).
     if paddr = 0 then Ret (1, s\<lparr>kh_cpu := c\<rparr>)
     else
       seq (vmm_map_cur alloc paddr KH_START VF_WRITE c) (\<lambda>c.
       let s = s\<lparr>kh_cpu := c, kh_npages := 1, kh_tail := KH_START, kh_head := KH_START\<rparr> in
       seq (kh_put (kh_head s) \<lparr>ke_next = 0, ke_size = 0\<rparr> s) (\<lambda>s. Ret (0, s))))"

text \<open>The loop \<open>while (kh_npages < KH_MAX_NPAGES)\<close> and what follows it.\<close>

function kh_grow :: "('s \<Rightarrow> (phys_addr_t \<times> 's) exec) \<Rightarrow> u64 \<Rightarrow> 's kheap \<Rightarrow> (u64 \<times> 's kheap) exec" where
  "kh_grow alloc n s =
     (if kh_npages s < KH_MAX_NPAGES then
        seq (kh_pmm_alloc alloc (kh_cpu s)) (\<lambda>(paddr, c).
        if paddr = 0 then
          seq (k_mutex_unlock (kh_mutex s)) (\<lambda>m. Ret (0, s\<lparr>kh_cpu := c, kh_mutex := m\<rparr>))
        else
          seq (vmm_map_cur alloc paddr (KH_START + PAGE_SIZE * kh_npages s) VF_WRITE c) (\<lambda>c.
          let s = s\<lparr>kh_cpu := c, kh_npages := kh_npages s + 1\<rparr> in
          seq (find_free n s) (\<lambda>new.
          if new \<noteq> 0 then kh_append new n s else kh_grow alloc n s)))
      else seq (k_mutex_unlock (kh_mutex s)) (\<lambda>m. Ret (0, s\<lparr>kh_mutex := m\<rparr>)))"
  by pat_completeness auto
termination
proof (relation "measure (\<lambda>(alloc, n, s). 0x40000 - unat (kh_npages s))", goal_cases)
  case (2 alloc n s)
  then show ?case by (auto simp: word_less_nat_alt unat_word_ariths)
qed simp

declare kh_grow.simps [simp del]

definition kheap_alloc :: "('s \<Rightarrow> (phys_addr_t \<times> 's) exec) \<Rightarrow> u64 \<Rightarrow> 's kheap \<Rightarrow> (u64 \<times> 's kheap) exec" where
  "kheap_alloc alloc n s =
     seq (k_mutex_lock (kh_mutex s)) (\<lambda>m.
     let s = s\<lparr>kh_mutex := m\<rparr> in
     seq (find_free n s) (\<lambda>new. if new \<noteq> 0 then kh_append new n s else kh_grow alloc n s))"

subsection \<open>Rows of blocks\<close>

text \<open>The blocks of the list in order, each with its address and data size.\<close>

definition next_slot :: "u64 \<times> u64 \<Rightarrow> u64" where
  "next_slot b = (let addr = fst b + (16 + snd b) in addr + (16 - addr mod 16))"

lemma kh_slot_next: "kh_slot st a = next_slot (a, ke_size (st a))"
  by (simp add: kh_slot_def next_slot_def)

fun kh_row :: "(u64 \<Rightarrow> kh_ent) \<Rightarrow> (u64 \<times> u64) list \<Rightarrow> bool" where
  "kh_row st [] \<longleftrightarrow> False"
| "kh_row st [(a, n)] \<longleftrightarrow> st a = \<lparr>ke_next = 0, ke_size = n\<rparr>"
| "kh_row st ((a, n) # (b, m) # bs) \<longleftrightarrow>
     st a = \<lparr>ke_next = b, ke_size = n\<rparr> \<and> b = next_slot (a, n) \<and> kh_row st ((b, m) # bs)"

text \<open>Blocks that lie inside a window of \<open>lim\<close> bytes.\<close>

definition kh_in :: "nat \<Rightarrow> u64 \<times> u64 \<Rightarrow> bool" where
  "kh_in lim b \<longleftrightarrow> 16 dvd unat (fst b) \<and> unat KH_START \<le> unat (fst b) \<and>
     unat (fst b) + 16 + unat (snd b) \<le> unat KH_START + lim"

abbreviation kh_lim :: nat where "kh_lim \<equiv> 0x40000000"

lemma kh_in_mono: "kh_in l b \<Longrightarrow> l \<le> l' \<Longrightarrow> kh_in l' b"
  by (auto simp: kh_in_def)

lemma next_slot_unat:
  assumes "kh_in kh_lim b"
  shows "unat (next_slot b) = (unat (fst b) + 16 + unat (snd b)) div 16 * 16 + 16"
proof -
  let ?e = "unat (fst b) + 16 + unat (snd b)"
  have lim: "?e \<le> 0xfffffbbb00000000 + 0x40000000" using assms by (simp add: kh_in_def)
  have e: "unat (fst b + (16 + snd b)) = ?e"
    using lim by (simp add: unat_word_ariths)
  have m: "unat ((fst b + (16 + snd b)) mod 16) = ?e mod 16" unfolding unat_mod e by simp
  have d: "unat (16 - (fst b + (16 + snd b)) mod 16) = 16 - ?e mod 16"
    using m by (subst unat_sub_u64) (simp_all add: word_le_nat_alt)
  have q: "?e div 16 * 16 + ?e mod 16 = ?e" by simp
  have "unat (next_slot b) = ?e + (16 - ?e mod 16)"
    unfolding next_slot_def Let_def using lim e d by (subst unat_add_u64) auto
  then show ?thesis using q mod_less_divisor [of 16 ?e] by linarith
qed

lemma next_slot_bounds:
  assumes "kh_in kh_lim b"
  shows "16 dvd unat (next_slot b)" "unat (fst b) + 16 + unat (snd b) < unat (next_slot b)"
    "unat (next_slot b) \<le> unat (fst b) + 32 + unat (snd b)" "next_slot b \<noteq> 0"
proof -
  note u = next_slot_unat [OF assms]
  show "16 dvd unat (next_slot b)" unfolding u by simp
  show "unat (fst b) + 16 + unat (snd b) < unat (next_slot b)" unfolding u by linarith
  show "unat (next_slot b) \<le> unat (fst b) + 32 + unat (snd b)" unfolding u by linarith
  show "next_slot b \<noteq> 0" using u by auto
qed

text \<open>A row is sorted: every block ends before the next slot of any block behind it.\<close>

lemma kh_row_sorted:
  "kh_row st ((a, n) # bs) \<Longrightarrow> \<forall>b \<in> set ((a, n) # bs). kh_in kh_lim b \<Longrightarrow> x \<in> set bs \<Longrightarrow>
   unat a + 16 + unat n < unat (fst x)"
proof (induction bs arbitrary: a n)
  case (Cons y bs)
  obtain b m where y: "y = (b, m)" by fastforce
  have r: "b = next_slot (a, n)" "kh_row st ((b, m) # bs)" using Cons.prems(1) unfolding y kh_row.simps by blast+
  have ab: "unat a + 16 + unat n < unat b"
    using next_slot_bounds(2) [of "(a, n)"] Cons.prems(2) r(1) by simp
  show ?case
  proof (cases "x = y")
    case True
    then show ?thesis using ab y by simp
  next
    case False
    then have "x \<in> set bs" "\<forall>b \<in> set ((b, m) # bs). kh_in kh_lim b" using Cons.prems y by auto
    from Cons.IH [OF r(2) this(2,1)] ab show ?thesis by linarith
  qed
qed simp

lemma kh_row_before_last:
  "kh_row st bs \<Longrightarrow> \<forall>b \<in> set bs. kh_in kh_lim b \<Longrightarrow> x \<in> set bs \<Longrightarrow>
   unat (fst x) + 16 + unat (snd x) < unat (next_slot (last bs))"
proof (induction st bs arbitrary: x rule: kh_row.induct)
  case (2 st a n)
  then show ?case using next_slot_bounds(2) [of "(a, n)"] by simp
next
  case (3 st a n b m bs)
  let ?l = "last ((b, m) # bs)"
  have ih: "unat (fst y) + 16 + unat (snd y) < unat (next_slot ?l)" if "y \<in> set ((b, m) # bs)" for y
  proof -
    have "kh_row st ((b, m) # bs)" using 3(2) unfolding kh_row.simps by blast
    moreover have "\<forall>b \<in> set ((b, m) # bs). kh_in kh_lim b" using 3(3) by simp
    ultimately show ?thesis using that by (rule 3(1))
  qed
  show ?case
  proof (cases "x = (a, n)")
    case True
    have "unat a + 16 + unat n < unat b" using kh_row_sorted [OF 3(2,3), of "(b, m)"] by simp
    then show ?thesis using True ih [of "(b, m)"] by simp
  next
    case False
    then show ?thesis using 3(4) ih [of x] by auto
  qed
qed simp

lemma kh_row_tail: "kh_row st bs \<Longrightarrow> ke_size (st (fst (last bs))) = snd (last bs)"
  by (induction st bs rule: kh_row.induct) auto

lemma kh_row_snoc:
  "kh_row st bs \<Longrightarrow> new = next_slot (last bs) \<Longrightarrow> new \<notin> fst ` set bs \<Longrightarrow> distinct (map fst bs) \<Longrightarrow>
   kh_row (st(new := \<lparr>ke_next = 0, ke_size = n\<rparr>, fst (last bs) := \<lparr>ke_next = new, ke_size = snd (last bs)\<rparr>))
     (bs @ [(new, n)])"
proof (induction st bs rule: kh_row.induct)
  case (3 st a na b m bs)
  have l: "last ((a, na) # (b, m) # bs) = last ((b, m) # bs)" by simp
  let ?st = "st(new := \<lparr>ke_next = 0, ke_size = n\<rparr>,
    fst (last ((b, m) # bs)) := \<lparr>ke_next = new, ke_size = snd (last ((b, m) # bs))\<rparr>)"
  have "fst (last ((b, m) # bs)) \<in> fst ` set ((b, m) # bs)" by (intro imageI last_in_set) simp
  then have "fst (last ((b, m) # bs)) \<noteq> a" using 3(5) by auto
  moreover have "a \<noteq> new" using 3(4) by auto
  moreover have "st a = \<lparr>ke_next = b, ke_size = na\<rparr>" "b = next_slot (a, na)" "kh_row st ((b, m) # bs)"
    using 3(2) unfolding kh_row.simps by blast+
  moreover have "kh_row ?st (((b, m) # bs) @ [(new, n)])"
  proof (rule 3(1))
    show "new = next_slot (last ((b, m) # bs))" using 3(3) unfolding l .
  qed (use 3(4,5) \<open>kh_row st ((b, m) # bs)\<close> in simp_all)
  ultimately have "kh_row ?st ((a, na) # (b, m) # bs @ [(new, n)])"
    unfolding kh_row.simps append_Cons by simp
  then show ?case unfolding l append_Cons .
qed auto

lemma kh_row_distinct:
  "kh_row st bs \<Longrightarrow> \<forall>b \<in> set bs. kh_in kh_lim b \<Longrightarrow> distinct (map fst bs)"
proof (induction st bs rule: kh_row.induct)
  case (3 st a n b m bs)
  have "a \<notin> fst ` set ((b, m) # bs)" using kh_row_sorted [OF 3(2,3)] by fastforce
  moreover have "kh_row st ((b, m) # bs)" using 3(2) unfolding kh_row.simps by blast
  then have "distinct (map fst ((b, m) # bs))" using 3(3) by (intro 3(1)) simp_all
  ultimately show ?case by simp
qed auto

declare kh_row.simps(3) [simp del]

subsection \<open>The search\<close>

text \<open>The list of a heap: its blocks, the dummy head first, all inside the mapped window.\<close>

definition kh_ok :: "'s kheap \<Rightarrow> (u64 \<times> u64) list \<Rightarrow> bool" where
  "kh_ok s bs \<longleftrightarrow> kh_row (kh_store s) bs \<and> hd bs = (KH_START, 0) \<and> kh_head s = KH_START \<and>
     kh_tail s = fst (last bs) \<and> kh_npages s \<le> KH_MAX_NPAGES \<and>
     (\<forall>b \<in> set bs. kh_in (4096 * unat (kh_npages s)) b)"

lemma kh_ok_in: "kh_ok s bs \<Longrightarrow> \<forall>b \<in> set bs. kh_in kh_lim b"
  by (auto simp: kh_ok_def word_le_nat_alt intro: kh_in_mono)

lemma kh_row_Cons:
  assumes "kh_row st ((a, n) # bs)"
  shows "ke_size (st a) = n" "bs = [] \<Longrightarrow> ke_next (st a) = 0"
    "bs \<noteq> [] \<Longrightarrow> ke_next (st a) = fst (hd bs) \<and> fst (hd bs) = next_slot (a, n) \<and> kh_row st bs"
  using assms by (cases bs; force simp: kh_row.simps)+

lemma is_free_row:
  "kh_row st bs \<Longrightarrow> \<forall>b \<in> set bs. fst b \<noteq> 0 \<Longrightarrow>
   is_free_from st np base limit (fst (hd bs)) =
     Some (base + limit \<le> KH_START + PAGE_SIZE * np \<and>
       (\<forall>b \<in> set bs. \<not> (base < fst b + 16 + snd b \<and> base + limit > fst b)))"
proof (induction bs)
  case (Cons y bs)
  obtain a n where y: "y = (a, n)" by fastforce
  note c = kh_row_Cons [OF Cons.prems(1) [unfolded y]]
  show ?case
  proof (cases "bs = []")
    case True
    then show ?thesis using c Cons.prems y by (auto simp: is_free_from.simps)
  next
    case False
    then have "is_free_from st np base limit (ke_next (st a)) =
      Some (base + limit \<le> KH_START + PAGE_SIZE * np \<and>
       (\<forall>b \<in> set bs. \<not> (base < fst b + 16 + snd b \<and> base + limit > fst b)))"
      using Cons.IH Cons.prems(2) c(3) by auto
    then show ?thesis using c(1) Cons.prems(2) y by (subst is_free_from.simps) auto
  qed
qed simp

lemma is_free_ok:
  assumes "kh_ok s bs"
  shows "is_free base limit s = Some (base + limit \<le> KH_START + PAGE_SIZE * kh_npages s \<and>
       (\<forall>b \<in> set bs. \<not> (base < fst b + 16 + snd b \<and> base + limit > fst b)))"
proof -
  have "bs \<noteq> []" using assms by (auto simp: kh_ok_def)
  then have "fst (hd bs) = kh_head s" using assms by (simp add: kh_ok_def)
  moreover have "\<forall>b \<in> set bs. fst b \<noteq> 0" using kh_ok_in [OF assms] by (auto simp: kh_in_def)
  ultimately show ?thesis
    using is_free_row [of "kh_store s" bs "kh_npages s" base limit] assms by (simp add: is_free_def kh_ok_def)
qed

text \<open>A request that does not wrap around the address space.\<close>

abbreviation kh_sane :: "u64 \<Rightarrow> bool" where
  "kh_sane n \<equiv> unat n < 2 ^ 42"

lemma kh_end: "kh_npages s \<le> KH_MAX_NPAGES \<Longrightarrow>
    unat (KH_START + PAGE_SIZE * kh_npages s) = unat KH_START + 4096 * unat (kh_npages s)"
  by (simp add: word_le_nat_alt unat_word_ariths)

lemma kh_row_next_slot: "kh_row st bs \<Longrightarrow> b \<in> set bs \<Longrightarrow> b = last bs \<or> next_slot b \<in> fst ` set bs"
proof (induction bs)
  case (Cons y bs)
  obtain a n where y: "y = (a, n)" by fastforce
  note c = kh_row_Cons [OF Cons.prems(1) [unfolded y]]
  show ?case
  proof (cases "bs = []")
    case False
    then have "next_slot y \<in> fst ` set bs" using c(3) y by (metis hd_in_set imageI)
    moreover have "b \<in> set bs \<Longrightarrow> b = last bs \<or> next_slot b \<in> fst ` set bs"
      using Cons.IH c(3) False by blast
    ultimately show ?thesis using Cons.prems(2) False by auto
  qed (use Cons.prems in simp)
qed simp

lemma block_end:
  "kh_in kh_lim b \<Longrightarrow> unat (fst b + 16 + snd b) = unat (fst b) + 16 + unat (snd b)"
  by (simp add: kh_in_def unat_word_ariths)

definition kh_fits :: "u64 \<Rightarrow> 's kheap \<Rightarrow> (u64 \<times> u64) list \<Rightarrow> bool" where
  "kh_fits n s bs \<longleftrightarrow> unat (next_slot (last bs)) + 16 + unat n \<le> unat KH_START + 4096 * unat (kh_npages s)"

lemma slot_limit:
  assumes ok: "kh_ok s bs" and n: "kh_sane n" and b: "b \<in> set bs"
  shows "unat (next_slot b + (16 + n)) = unat (next_slot b) + 16 + unat n"
proof -
  have "kh_in kh_lim b" using kh_ok_in [OF ok] b by blast
  then have "unat (next_slot b) \<le> unat KH_START + kh_lim + 16"
    using next_slot_bounds(3) [of b] by (simp add: kh_in_def)
  then show ?thesis using n by (simp add: unat_word_ariths)
qed

lemma is_free_slot:
  assumes ok: "kh_ok s bs" and n: "kh_sane n" and b: "b \<in> set bs"
  shows "is_free (next_slot b) (16 + n) s = Some (b = last bs \<and> kh_fits n s bs)"
proof -
  have row: "kh_row (kh_store s) bs" and np: "kh_npages s \<le> KH_MAX_NPAGES" using ok by (auto simp: kh_ok_def)
  note ins = kh_ok_in [OF ok]
  note lim = slot_limit [OF ok n b]
  note before = kh_row_before_last [OF row ins]
  show ?thesis
  proof (cases "b = last bs")
    case True
    have "next_slot b + (16 + n) \<le> KH_START + PAGE_SIZE * kh_npages s \<longleftrightarrow> kh_fits n s bs"
      unfolding word_le_nat_alt kh_end [OF np] kh_fits_def lim unfolding True ..
    moreover have "\<not> next_slot b < fst x + 16 + snd x" if "x \<in> set bs" for x
      using before [OF that] block_end [of x] ins that True by (simp add: word_less_nat_alt)
    ultimately show ?thesis using True by (simp add: is_free_ok [OF ok])
  next
    case False
    then obtain c where c: "c \<in> set bs" "next_slot b = fst c" using kh_row_next_slot [OF row b] by auto
    have "next_slot b < fst c + 16 + snd c" "next_slot b + (16 + n) > fst c"
      using c block_end [of c] ins lim by (simp_all add: word_less_nat_alt)
    then show ?thesis using False c(1) by (auto simp: is_free_ok [OF ok])
  qed
qed

lemma find_free_row:
  assumes ok: "kh_ok s bs" and n: "kh_sane n"
  shows "bs = pre @ suf \<Longrightarrow> suf \<noteq> [] \<Longrightarrow> find_free_from n s (fst (hd suf)) =
    Some (if kh_fits n s bs then next_slot (last bs) else 0)"
proof (induction suf arbitrary: pre)
  case (Cons y suf)
  obtain a m where y: "y = (a, m)" by fastforce
  have "kh_row (kh_store s) (pre @ y # suf)" using ok Cons.prems(1) by (simp add: kh_ok_def)
  then have "kh_row (kh_store s) (y # suf)"
    by (induction pre) (auto dest: kh_row_Cons(3))
  note c = kh_row_Cons [OF this [unfolded y]]
  have yin: "y \<in> set bs" using Cons.prems(1) by simp
  then have a0: "a \<noteq> 0" using kh_ok_in [OF ok] y by (auto simp: kh_in_def)
  have slot: "kh_slot (kh_store s) a = next_slot y" using c(1) y by (simp add: kh_slot_next)
  have step: "find_free_from n s a = (if y = last bs \<and> kh_fits n s bs then Some (next_slot y)
      else find_free_from n s (ke_next (kh_store s a)))"
    using a0 by (subst find_free_from.simps) (simp add: slot is_free_slot [OF ok n yin])
  show ?case
  proof (cases "suf = []")
    case True
    then have "last bs = (a, m)" using Cons.prems(1) y by simp
    then show ?thesis using step c(2) [OF True] by (simp add: y find_free_from.simps [of n s 0])
  next
    case False
    have "distinct (map fst bs)"
      using kh_row_distinct [of "kh_store s" bs] kh_ok_in [OF ok] ok by (simp add: kh_ok_def)
    then have "y \<noteq> last bs" using Cons.prems(1) False by (auto simp: image_iff)
    then show ?thesis using step y c(3) False Cons.IH [of "pre @ [y]"] Cons.prems(1) by simp
  qed
qed simp

lemma find_free_ok:
  assumes ok: "kh_ok s bs" and n: "kh_sane n"
  shows "find_free n s = Ret (if kh_fits n s bs then next_slot (last bs) else 0)"
proof -
  have "bs \<noteq> []" "kh_head s = fst (hd bs)" using ok by (auto simp: kh_ok_def)
  then show ?thesis using find_free_row [OF ok n, of "[]" bs] by (simp add: find_free_def)
qed

subsection \<open>The pages behind the heap\<close>

text \<open>Every page of the window is mapped in the running address space, for writing.\<close>

definition kh_page :: "nat \<Rightarrow> u64" where
  "kh_page k = KH_START + PAGE_SIZE * of_nat k"

definition kh_backed :: "'s cpu \<Rightarrow> nat \<Rightarrow> bool" where
  "kh_backed c np \<longleftrightarrow> pg_rw (km_mem (cpu_mem c)) (cpu_cr3 c) \<and> (\<forall>k < np. kh_writable c (kh_page k))"

lemma kh_addr_page:
  fixes x :: u64
  assumes "unat KH_START \<le> unat x"
  shows "same_page (kh_page ((unat x - unat KH_START) div 4096)) x"
proof -
  let ?k = "(unat x - unat KH_START) div 4096"
  let ?p = "kh_page ?k"
  have x: "unat x < 2 ^ 64" by (rule unat_u64_bound)
  have k: "unat (of_nat ?k :: u64) = ?k" using x by (intro unat_of_nat_u64) linarith
  have u: "unat ?p = unat KH_START + 4096 * ?k"
  proof -
    have "4096 * ?k \<le> unat x - unat KH_START" by simp
    then have le: "unat KH_START + 4096 * ?k < 2 ^ 64" using x assms by linarith
    then have "unat (PAGE_SIZE * of_nat ?k) = 4096 * ?k" using k by (subst unat_mult_u64) simp_all
    then show ?thesis unfolding kh_page_def using le by (subst unat_add_u64) simp_all
  qed
  have q: "unat ?p div 4096 = unat x div 4096"
  proof -
    have b: "unat KH_START = 4096 * 0xfffffbbb00000" by simp
    obtain y where y: "unat x = unat KH_START + y" using assms le_Suc_ex by blast
    then have "unat x div 4096 = 0xfffffbbb00000 + y div 4096" unfolding b by simp
    moreover have "unat ?p div 4096 = 0xfffffbbb00000 + y div 4096" using u y unfolding b by simp
    ultimately show ?thesis by simp
  qed
  have "unat ?p div 2 ^ s = unat x div 2 ^ s" if "12 \<le> s" for s
  proof -
    have "(2 :: nat) ^ s = 4096 * 2 ^ (s - 12)" using that power_add [of "2 :: nat" 12 "s - 12"] by simp
    then show ?thesis using q by (simp add: div_mult2_eq)
  qed
  then have "drop_bit s ?p AND 0x1ff = drop_bit s x AND 0x1ff" if "12 \<le> s" for s
    using that by (simp add: u64_eq_iff_unat unat_pg_index)
  then show ?thesis by (simp add: same_page_def vaddr_to_pg_ind_def)
qed

lemma kh_backed_at:
  assumes "kh_backed c np" and "unat KH_START \<le> unat x" and "unat x < unat KH_START + 4096 * np"
  shows "kh_writable c x"
proof -
  have "(unat x - unat KH_START) div 4096 < np" using assms(2,3) by linarith
  then have "kh_writable c (kh_page ((unat x - unat KH_START) div 4096))" using assms(1) by (simp add: kh_backed_def)
  then show ?thesis unfolding kh_writable_def pg_writable_same [OF kh_addr_page [OF assms(2)]] .
qed

lemma kh_put_in:
  assumes "kh_backed (kh_cpu s) (unat (kh_npages s))" and "kh_npages s \<le> KH_MAX_NPAGES"
    and "kh_in (4096 * unat (kh_npages s)) (a, m)"
  shows "kh_put a e s = Ret (s\<lparr>kh_store := (kh_store s)(a := e)\<rparr>)"
proof -
  have a: "unat KH_START \<le> unat a" "unat a + 16 \<le> unat KH_START + 4096 * unat (kh_npages s)"
    using assms(3) by (simp_all add: kh_in_def)
  have "unat (kh_npages s) \<le> 0x40000" using assms(2) by (simp add: word_le_nat_alt)
  then have "unat (a + 15) = unat a + 15" using a(2) by (subst unat_add_u64) simp_all
  then have "kh_writable (kh_cpu s) a" "kh_writable (kh_cpu s) (a + 15)"
    using kh_backed_at [OF assms(1), of a] kh_backed_at [OF assms(1), of "a + 15"] a by simp_all
  then show ?thesis by (simp add: kh_put_def)
qed

subsection \<open>Allocating\<close>

lemma kh_ok_last: "kh_ok s bs \<Longrightarrow> bs \<noteq> [] \<and> kh_in kh_lim (last bs)"
proof -
  assume ok: "kh_ok s bs"
  then have ne: "bs \<noteq> []" by (auto simp: kh_ok_def)
  then have "last bs \<in> set bs" by simp
  with ne kh_ok_in [OF ok] show ?thesis by blast
qed

lemma kh_ok_upd [simp]:
  "kh_ok (s\<lparr>kh_cpu := c\<rparr>) bs = kh_ok s bs" "kh_ok (s\<lparr>kh_mutex := m\<rparr>) bs = kh_ok s bs"
  "kh_ok (s\<lparr>kh_cpu := c, kh_mutex := m\<rparr>) bs = kh_ok s bs"
  by (simp_all add: kh_ok_def)

lemma kh_append_ok:
  assumes ok: "kh_ok s bs" and fits: "kh_fits n s bs" and m: "kh_mutex s = 1"
    and bk: "kh_backed (kh_cpu s) (unat (kh_npages s))"
  shows "\<exists>s'. kh_append (next_slot (last bs)) n s = Ret (next_slot (last bs) + 16, s') \<and>
    kh_ok s' (bs @ [(next_slot (last bs), n)]) \<and> kh_mutex s' = 0 \<and> kh_cpu s' = kh_cpu s \<and>
    kh_npages s' = kh_npages s"
proof -
  let ?new = "next_slot (last bs)" and ?l = "last bs"
  let ?st = "(kh_store s)(?new := \<lparr>ke_next = 0, ke_size = n\<rparr>, fst ?l := \<lparr>ke_next = ?new, ke_size = snd ?l\<rparr>)"
  have row: "kh_row (kh_store s) bs" and tl: "kh_tail s = fst ?l" and ne: "bs \<noteq> []"
    using ok by (auto simp: kh_ok_def)
  note ins = kh_ok_in [OF ok]
  have lin: "kh_in (4096 * unat (kh_npages s)) ?l" using ok ne by (simp add: kh_ok_def)
  have "kh_in kh_lim ?l" using ins ne by simp
  note nb = next_slot_bounds [OF this]
  have nin: "kh_in (4096 * unat (kh_npages s)) (?new, n)"
    using nb fits lin by (simp add: kh_in_def kh_fits_def)
  have new: "?new \<notin> fst ` set bs" using kh_row_before_last [OF row ins] by fastforce
  then have neq: "fst ?l \<noteq> ?new" using ne by (metis imageI last_in_set)
  have p1: "kh_put ?new \<lparr>ke_next = 0, ke_size = n\<rparr> s =
      Ret (s\<lparr>kh_store := (kh_store s)(?new := \<lparr>ke_next = 0, ke_size = n\<rparr>)\<rparr>)"
    using ok nin by (intro kh_put_in [OF bk]) (simp_all add: kh_ok_def)
  have p2: "kh_put (fst ?l) \<lparr>ke_next = ?new, ke_size = snd ?l\<rparr>
      (s\<lparr>kh_store := (kh_store s)(?new := \<lparr>ke_next = 0, ke_size = n\<rparr>)\<rparr>) = Ret (s\<lparr>kh_store := ?st\<rparr>)"
    using ok lin bk kh_put_in [of "s\<lparr>kh_store := (kh_store s)(?new := \<lparr>ke_next = 0, ke_size = n\<rparr>)\<rparr>" "fst ?l" "snd ?l"]
    by (simp add: kh_ok_def)
  have upd: "((kh_store s)(?new := \<lparr>ke_next = 0, ke_size = n\<rparr>)) (fst ?l)\<lparr>ke_next := ?new\<rparr> =
      \<lparr>ke_next = ?new, ke_size = snd ?l\<rparr>"
    using neq kh_row_tail [OF row] by (intro kh_ent.equality) simp_all
  let ?s = "s\<lparr>kh_store := ?st, kh_tail := ?new, kh_mutex := 0\<rparr>"
  have "kh_append ?new n s = Ret (?new + 16, ?s)"
    unfolding kh_append_def p1 using p2 m upd by (simp add: tl)
  moreover have "kh_row ?st (bs @ [(?new, n)])"
    using kh_row_snoc [OF row refl new kh_row_distinct [OF row ins]] .
  then have "kh_ok ?s (bs @ [(?new, n)])"
    using ok nin ne unfolding kh_ok_def by (simp add: ball_Un)
  ultimately show ?thesis by auto
qed

context frame_source
begin

text \<open>A round of growing: a page more, and then the block fits behind the last one or the next round starts.\<close>

lemma kh_ok_page:
  assumes ok: "kh_ok s bs" and lt: "kh_npages s < KH_MAX_NPAGES"
  shows "unat (kh_npages s + 1) = unat (kh_npages s) + 1" "kh_ok (s\<lparr>kh_cpu := c, kh_npages := kh_npages s + 1\<rparr>) bs"
proof -
  show np: "unat (kh_npages s + 1) = unat (kh_npages s) + 1"
    using lt by (simp add: word_less_nat_alt unat_word_ariths)
  then show "kh_ok (s\<lparr>kh_cpu := c, kh_npages := kh_npages s + 1\<rparr>) bs"
    using ok lt unfolding kh_ok_def by (auto simp: word_le_nat_alt word_less_nat_alt intro: kh_in_mono)
qed

lemma kh_grow_step:
  assumes ok: "kh_ok s bs" and n: "kh_sane n" and lt: "kh_npages s < KH_MAX_NPAGES"
    and pa: "kh_pmm_alloc alloc (kh_cpu s) = Ret (p, c1)" "p \<noteq> 0"
    and mp: "vmm_map_cur alloc p (KH_START + PAGE_SIZE * kh_npages s) VF_WRITE c1 = Ret c"
  defines "s' \<equiv> s\<lparr>kh_cpu := c, kh_npages := kh_npages s + 1\<rparr>"
  shows "kh_grow alloc n s = (if kh_fits n s' bs then kh_append (next_slot (last bs)) n s' else kh_grow alloc n s')"
proof -
  have "next_slot (last bs) \<noteq> 0" using next_slot_bounds(4) kh_ok_last [OF ok] by simp
  then show ?thesis
    using lt pa mp find_free_ok [OF kh_ok_page(2) [OF ok lt] n, of c]
    by (simp add: kh_grow.simps [of alloc n s] Let_def flip: s'_def)
qed

end

subsection \<open>Growing the window\<close>

text \<open>The pages the heap must have for a block of \<open>n\<close> bytes behind the last one.\<close>

definition kh_need :: "u64 \<Rightarrow> (u64 \<times> u64) list \<Rightarrow> nat" where
  "kh_need n bs = (unat (next_slot (last bs)) + 16 + unat n - unat KH_START + 4095) div 4096"

lemma kh_fits_need:
  assumes "kh_ok s bs"
  shows "kh_fits n s bs \<longleftrightarrow> kh_need n bs \<le> unat (kh_npages s)"
proof -
  have "kh_in kh_lim (last bs)" using kh_ok_last [OF assms] by simp
  then have "unat KH_START \<le> unat (next_slot (last bs))"
    using next_slot_bounds(2) [of "last bs"] by (simp add: kh_in_def)
  then have "kh_fits n s bs \<longleftrightarrow>
      unat (next_slot (last bs)) + 16 + unat n - unat KH_START \<le> 4096 * unat (kh_npages s)"
    unfolding kh_fits_def by linarith
  also have "\<dots> \<longleftrightarrow> kh_need n bs \<le> unat (kh_npages s)"
  proof -
    have "x \<le> 4096 * k \<longleftrightarrow> (x + 4095) div 4096 \<le> k" for x k :: nat by (auto; linarith)
    then show ?thesis unfolding kh_need_def .
  qed
  finally show ?thesis .
qed

text \<open>
  Growing needs a frame for each page to add, and frames for the tables above it: either the tables of the
  whole window are there, or there are four frames for each page up to the ones needed or the end of the window.
\<close>

definition kh_tables :: "'s cpu \<Rightarrow> bool" where
  "kh_tables c \<longleftrightarrow> (\<forall>k < 0x40000. pg_tab (km_mem (cpu_mem c)) (cpu_cr3 c) (pg_idx (kh_page k)) \<noteq> None)"

definition kh_room :: "('s \<Rightarrow> phys_addr_t set) \<Rightarrow> nat \<Rightarrow> 's kheap \<Rightarrow> bool" where
  "kh_room avail need s \<longleftrightarrow> kh_tables (kh_cpu s) \<or>
     4 * (min need 0x40000 - unat (kh_npages s)) \<le> card (avail (km_pmm (cpu_mem (kh_cpu s))))"

context frame_source
begin

lemma kh_map_page:
  assumes wf: "pg_wf ok avail (cpu_cr3 c) (cpu_mem c)" and bk: "kh_backed c k"
    and av: "kh_tables c \<and> k < 0x40000 \<and> avail (km_pmm (cpu_mem c)) \<noteq> {} \<or> 4 \<le> card (avail (km_pmm (cpu_mem c)))"
  shows "\<exists>p c1 c2. kh_pmm_alloc alloc c = Ret (p, c1) \<and> p \<noteq> 0 \<and>
    vmm_map_cur alloc p (kh_page k) VF_WRITE c1 = Ret c2 \<and> cpu_cr3 c2 = cpu_cr3 c \<and>
    pg_wf ok avail (cpu_cr3 c2) (cpu_mem c2) \<and> kh_backed c2 (Suc k) \<and> (kh_tables c \<longrightarrow> kh_tables c2) \<and>
    card (avail (km_pmm (cpu_mem c))) \<le> card (avail (km_pmm (cpu_mem c2))) + 4"
proof -
  have "avail (km_pmm (cpu_mem c)) \<noteq> {}" using av by auto
  then obtain p s where a: "alloc (km_pmm (cpu_mem c)) = Ret (p, s)" "ok s" "p \<in> avail (km_pmm (cpu_mem c))"
    "avail s = avail (km_pmm (cpu_mem c)) - {p}" "p \<noteq> 0"
    using alloc_some [of "km_pmm (cpu_mem c)"] wf unfolding pg_wf_def by metis
  let ?c1 = "c\<lparr>cpu_mem := (cpu_mem c)\<lparr>km_pmm := s\<rparr>\<rparr>"
  have wf1: "pg_wf ok avail (cpu_cr3 ?c1) (cpu_mem ?c1)"
    using wf a(2,4) pg_tree_mono [of "km_mem (cpu_mem c)" "cpu_cr3 c" "avail (km_pmm (cpu_mem c))" "avail s"]
    by (simp add: pg_wf_def)
  have card: "card (avail s) = card (avail (km_pmm (cpu_mem c))) - 1"
    using a(3,4) by (simp add: card_Diff_singleton)
  let ?miss = "pg_missing (km_mem (cpu_mem ?c1)) (cpu_cr3 ?c1) (kh_page k)"
  have miss: "?miss \<le> 3" by (rule pg_missing_le)
  have need: "?miss \<le> card (avail (km_pmm (cpu_mem ?c1)))"
  proof (cases "kh_tables c \<and> k < 0x40000")
    case True
    then have "?miss = 0" by (intro pg_missing_present) (simp add: kh_tables_def)
    then show ?thesis by simp
  next
    case False
    then have "4 \<le> card (avail (km_pmm (cpu_mem c)))" using av by blast
    then show ?thesis using card miss by simp
  qed
  have "VF_WRITE AND VF_NO_EXEC = 0" by simp
  from vmm_map_cur_spec [OF wf1 this need, of p] obtain m where
    m: "vmm_map_cur alloc p (kh_page k) VF_WRITE ?c1 = Ret (?c1\<lparr>cpu_mem := paging_invlpg (kh_page k) m\<rparr>)"
      "pg_wf ok avail (cpu_cr3 ?c1) m"
      "maps_page avail (cpu_cr3 ?c1) (kh_page k) (page_align p OR (PF_P OR vmm_flags VF_WRITE)) (cpu_mem ?c1) m"
    by blast
  let ?c2 = "?c1\<lparr>cpu_mem := paging_invlpg (kh_page k) m\<rparr>"
  have rw: "(x OR (PF_P OR vmm_flags VF_WRITE)) AND PF_RW \<noteq> 0" for x
  proof -
    have "bit ((x OR (PF_P OR vmm_flags VF_WRITE)) AND PF_RW) 1" by (simp add: vmm_flags_def bit_simps)
    then show ?thesis by (metis bit_0_eq bot_apply bot_bool_def)
  qed
  have old: "pg_rw (km_mem (cpu_mem c)) (cpu_cr3 c)" using bk by (simp add: kh_backed_def)
  then have new: "pg_rw (km_mem (cpu_mem ?c2)) (cpu_cr3 ?c2)"
    using m(3) rw [of "page_align p"] by (simp add: maps_page_def paging_invlpg_def)
  have "kh_writable ?c2 (kh_page j)" if "j < Suc k" for j
    using m(3) bk that rw [of "page_align p"] unfolding kh_writable_def pg_writable_rw [OF new]
    by (cases "j = k") (auto simp: maps_page_def kh_backed_def kh_writable_def pg_writable_rw [OF old] same_page_def paging_invlpg_def)
  then have "kh_backed ?c2 (Suc k)" using new by (simp add: kh_backed_def)
  moreover have "kh_tables c \<longrightarrow> kh_tables ?c2"
    using m(3) by (simp add: kh_tables_def maps_page_def paging_invlpg_def)
  moreover have "pg_wf ok avail (cpu_cr3 ?c2) (cpu_mem ?c2)"
    using m(2) by (simp add: pg_wf_def paging_invlpg_def)
  moreover have "card (avail (km_pmm m)) = card (avail s) - ?miss" using m(3) by (simp add: maps_page_def)
  then have "card (avail (km_pmm (cpu_mem c))) \<le> card (avail (km_pmm (cpu_mem ?c2))) + 4"
    using card miss by (simp add: paging_invlpg_def)
  moreover have "kh_pmm_alloc alloc c = Ret (p, ?c1)" using a(1) by (simp add: kh_pmm_alloc_def)
  ultimately show ?thesis using m(1) a(5) by (intro exI [of _ p] exI [of _ ?c1] exI [of _ ?c2]) simp
qed

definition kh_result :: "u64 \<Rightarrow> (u64 \<times> u64) list \<Rightarrow> u64 \<Rightarrow> 's kheap \<Rightarrow> bool" where
  "kh_result n bs r s' \<longleftrightarrow> kh_mutex s' = 0 \<and> pg_wf ok avail (cpu_cr3 (kh_cpu s')) (cpu_mem (kh_cpu s')) \<and>
     kh_backed (kh_cpu s') (unat (kh_npages s')) \<and>
     (r = 0 \<and> kh_ok s' bs \<or> r = next_slot (last bs) + 16 \<and> kh_ok s' (bs @ [(next_slot (last bs), n)]))"

text \<open>Without a frame left, growing gives up; the page tables stay as they are.\<close>

lemma kh_grow_empty:
  assumes ok: "kh_ok s bs" and m: "kh_mutex s = 1" and wf: "pg_wf ok avail (cpu_cr3 (kh_cpu s)) (cpu_mem (kh_cpu s))"
    and bk: "kh_backed (kh_cpu s) (unat (kh_npages s))"
    and e: "\<not> (kh_npages s < KH_MAX_NPAGES \<and> avail (km_pmm (cpu_mem (kh_cpu s))) \<noteq> {})"
  shows "\<exists>s'. kh_grow alloc n s = Ret (0, s') \<and> kh_result n bs 0 s'"
proof (cases "kh_npages s < KH_MAX_NPAGES")
  case True
  then obtain t where t: "alloc (km_pmm (cpu_mem (kh_cpu s))) = Ret (0, t)" "ok t" "avail t = avail (km_pmm (cpu_mem (kh_cpu s)))"
    using e alloc_none [of "km_pmm (cpu_mem (kh_cpu s))"] wf by (auto simp: pg_wf_def)
  let ?c = "(kh_cpu s)\<lparr>cpu_mem := (cpu_mem (kh_cpu s))\<lparr>km_pmm := t\<rparr>\<rparr>"
  have "kh_grow alloc n s = Ret (0, s\<lparr>kh_cpu := ?c, kh_mutex := 0\<rparr>)"
    using True m t(1) by (simp add: kh_grow.simps [of alloc n s] kh_pmm_alloc_def)
  moreover have "kh_backed ?c (unat (kh_npages s))" using bk by (simp add: kh_backed_def kh_writable_def)
  ultimately show ?thesis using ok wf t(2,3) by (simp add: kh_result_def pg_wf_def)
next
  case False
  then show ?thesis using ok wf bk m by (simp add: kh_grow.simps [of alloc n s] kh_result_def)
qed

lemma kh_grow_total:
  "kh_ok s bs \<Longrightarrow> kh_sane n \<Longrightarrow> kh_mutex s = 1 \<Longrightarrow> pg_wf ok avail (cpu_cr3 (kh_cpu s)) (cpu_mem (kh_cpu s)) \<Longrightarrow>
   kh_backed (kh_cpu s) (unat (kh_npages s)) \<Longrightarrow> unat (kh_npages s) < kh_need n bs \<Longrightarrow>
   kh_room avail (kh_need n bs) s \<Longrightarrow> \<exists>r s'. kh_grow alloc n s = Ret (r, s') \<and> kh_result n bs r s'"
proof (induction "0x40000 - unat (kh_npages s)" arbitrary: s rule: less_induct)
  case less
  note prems = less.prems
  let ?av = "avail (km_pmm (cpu_mem (kh_cpu s)))"
  show ?case
  proof (cases "kh_npages s < KH_MAX_NPAGES \<and> ?av \<noteq> {}")
    case False
    then show ?thesis using kh_grow_empty [OF prems(1,3,4,5) False] by blast
  next
    case True
    then have lt: "kh_npages s < KH_MAX_NPAGES" by simp
    then have lt': "unat (kh_npages s) < 0x40000" by (simp add: word_less_nat_alt)
    have pg: "KH_START + PAGE_SIZE * kh_npages s = kh_page (unat (kh_npages s))" by (simp add: kh_page_def)
    have "kh_tables (kh_cpu s) \<and> unat (kh_npages s) < 0x40000 \<and> ?av \<noteq> {} \<or> 4 \<le> card ?av"
      using prems(6,7) lt' True by (auto simp: kh_room_def)
    from kh_map_page [OF prems(4,5) this] obtain p c1 c2 where
      c: "kh_pmm_alloc alloc (kh_cpu s) = Ret (p, c1)" "p \<noteq> 0"
        "vmm_map_cur alloc p (KH_START + PAGE_SIZE * kh_npages s) VF_WRITE c1 = Ret c2"
        "pg_wf ok avail (cpu_cr3 c2) (cpu_mem c2)" "kh_backed c2 (Suc (unat (kh_npages s)))"
        "kh_tables (kh_cpu s) \<longrightarrow> kh_tables c2" "card ?av \<le> card (avail (km_pmm (cpu_mem c2))) + 4" unfolding pg by blast
    let ?s = "s\<lparr>kh_cpu := c2, kh_npages := kh_npages s + 1\<rparr>"
    note pg' = kh_ok_page [OF prems(1) lt] and step = kh_grow_step [OF prems(1,2) lt c(1-3)]
    have bk: "kh_backed (kh_cpu ?s) (unat (kh_npages ?s))" using c(5) pg'(1) by simp
    show ?thesis
    proof (cases "kh_fits n ?s bs")
      case True
      then show ?thesis
        using kh_append_ok [OF pg'(2) True _ bk] step prems(3) c(4) bk by (auto simp: kh_result_def)
    next
      case False
      then have more: "unat (kh_npages s) + 1 < kh_need n bs"
        using kh_fits_need [OF pg'(2) [of c2], of n] pg'(1) prems(6) by simp
      have "kh_room avail (kh_need n bs) ?s"
        using prems(7) c(6,7) pg'(1) lt' more by (auto simp: kh_room_def)
      then show ?thesis
        using less.hyps [of ?s] pg' prems(2,3) c(4) bk step False more lt' by simp
    qed
  qed
qed

lemma kheap_alloc_total:
  assumes ok: "kh_ok s bs" and n: "kh_sane n" and m: "kh_mutex s = 0"
    and wf: "pg_wf ok avail (cpu_cr3 (kh_cpu s)) (cpu_mem (kh_cpu s))"
    and bk: "kh_backed (kh_cpu s) (unat (kh_npages s))" and room: "kh_room avail (kh_need n bs) s"
  shows "\<exists>r s'. kheap_alloc alloc n s = Ret (r, s') \<and> kh_result n bs r s'"
proof -
  let ?s = "s\<lparr>kh_mutex := 1\<rparr>"
  have ok': "kh_ok ?s bs" using ok by simp
  have nz: "next_slot (last bs) \<noteq> 0" using next_slot_bounds(4) kh_ok_last [OF ok] by simp
  have ff: "find_free n ?s = Ret (if kh_fits n s bs then next_slot (last bs) else 0)"
    using find_free_ok [OF ok' n] by (simp add: kh_fits_def)
  show ?thesis
  proof (cases "kh_fits n s bs")
    case True
    then have "kh_fits n ?s bs" by (simp add: kh_fits_def)
    then show ?thesis
      using kh_append_ok [OF ok', of n] nz True m ff wf bk by (auto simp: kheap_alloc_def kh_result_def)
  next
    case False
    then have "unat (kh_npages s) < kh_need n bs" using kh_fits_need [OF ok, of n] by simp
    then have "\<exists>r s'. kh_grow alloc n ?s = Ret (r, s') \<and> kh_result n bs r s'"
      using kh_grow_total [OF ok' n] wf bk room by (simp add: kh_room_def)
    then show ?thesis using m ff False by (simp add: kheap_alloc_def)
  qed
qed

lemma kh_grow_backed:
  "kh_ok s bs \<Longrightarrow> kh_sane n \<Longrightarrow> kh_mutex s = 1 \<Longrightarrow> pg_wf ok avail (cpu_cr3 (kh_cpu s)) (cpu_mem (kh_cpu s)) \<Longrightarrow>
   kh_backed (kh_cpu s) (unat (kh_npages s)) \<Longrightarrow> unat (kh_npages s) < kh_need n bs \<Longrightarrow> kh_need n bs \<le> 0x40000 \<Longrightarrow>
   4 * (kh_need n bs - unat (kh_npages s)) \<le> card (avail (km_pmm (cpu_mem (kh_cpu s)))) \<Longrightarrow>
   \<exists>s'. kh_grow alloc n s = Ret (next_slot (last bs) + 16, s') \<and> kh_ok s' (bs @ [(next_slot (last bs), n)]) \<and>
     kh_mutex s' = 0 \<and> pg_wf ok avail (cpu_cr3 (kh_cpu s')) (cpu_mem (kh_cpu s')) \<and>
     kh_backed (kh_cpu s') (unat (kh_npages s')) \<and> unat (kh_npages s') = kh_need n bs \<and>
     card (avail (km_pmm (cpu_mem (kh_cpu s)))) \<le> card (avail (km_pmm (cpu_mem (kh_cpu s')))) + 4 * (kh_need n bs - unat (kh_npages s))"
proof (induction "kh_need n bs - unat (kh_npages s)" arbitrary: s rule: less_induct)
  case less
  note prems = less.prems
  have lt: "kh_npages s < KH_MAX_NPAGES" using prems(6,7) by (simp add: word_less_nat_alt)
  have pg: "KH_START + PAGE_SIZE * kh_npages s = kh_page (unat (kh_npages s))" by (simp add: kh_page_def)
  have "4 \<le> card (avail (km_pmm (cpu_mem (kh_cpu s))))" using prems(6,8) by linarith
  from kh_map_page [OF prems(4,5) disjI2 [OF this]] obtain p c1 c2 where
    c: "kh_pmm_alloc alloc (kh_cpu s) = Ret (p, c1)" "p \<noteq> 0"
      "vmm_map_cur alloc p (KH_START + PAGE_SIZE * kh_npages s) VF_WRITE c1 = Ret c2"
      "pg_wf ok avail (cpu_cr3 c2) (cpu_mem c2)" "kh_backed c2 (Suc (unat (kh_npages s)))"
      "card (avail (km_pmm (cpu_mem (kh_cpu s)))) \<le> card (avail (km_pmm (cpu_mem c2))) + 4" unfolding pg by blast
  let ?s = "s\<lparr>kh_cpu := c2, kh_npages := kh_npages s + 1\<rparr>"
  note pg' = kh_ok_page [OF prems(1) lt] and step = kh_grow_step [OF prems(1,2) lt c(1-3)]
  note np = pg'(1) and ok' = pg'(2) [of c2]
  show ?case
  proof (cases "kh_fits n ?s bs")
    case True
    then have nd: "unat (kh_npages ?s) = kh_need n bs"
      using kh_fits_need [OF ok', of n] prems(6) np by simp
    then have "4 * (kh_need n bs - unat (kh_npages s)) = 4" using np by simp
    with nd kh_append_ok [OF ok' True] show ?thesis
      using step True prems(3) c(4-6) np by auto
  next
    case False
    then have more: "unat (kh_npages s) + 1 < kh_need n bs"
      using kh_fits_need [OF ok', of n] np by simp
    then have "kh_need n bs - unat (kh_npages s) = Suc (kh_need n bs - unat (kh_npages ?s))" using np by simp
    with less.hyps [of ?s] more obtain s' where "kh_grow alloc n ?s = Ret (next_slot (last bs) + 16, s')" "kh_ok s' (bs @ [(next_slot (last bs), n)])"
     "kh_mutex s' = 0" "pg_wf ok avail (cpu_cr3 (kh_cpu s')) (cpu_mem (kh_cpu s'))"
     "kh_backed (kh_cpu s') (unat (kh_npages s'))" "unat (kh_npages s') = kh_need n bs"
     "card (avail (km_pmm (cpu_mem c2))) \<le> card (avail (km_pmm (cpu_mem (kh_cpu s')))) + 4 * (kh_need n bs - unat (kh_npages ?s))"
      using ok' prems(2,3,7,8) c(4-6) np by auto
    then show ?thesis using step False c(6) \<open>_ = Suc _\<close> by auto
  qed
qed

lemma kheap_alloc_backed:
  assumes ok: "kh_ok s bs" and n: "kh_sane n" and m: "kh_mutex s = 0"
    and wf: "pg_wf ok avail (cpu_cr3 (kh_cpu s)) (cpu_mem (kh_cpu s))"
    and bk: "kh_backed (kh_cpu s) (unat (kh_npages s))" and lim: "kh_need n bs \<le> 0x40000"
    and fr: "4 * (kh_need n bs - unat (kh_npages s)) \<le> card (avail (km_pmm (cpu_mem (kh_cpu s))))"
  shows "\<exists>s'. kheap_alloc alloc n s = Ret (next_slot (last bs) + 16, s') \<and>
     kh_ok s' (bs @ [(next_slot (last bs), n)]) \<and>
     kh_mutex s' = 0 \<and> pg_wf ok avail (cpu_cr3 (kh_cpu s')) (cpu_mem (kh_cpu s')) \<and>
     kh_backed (kh_cpu s') (unat (kh_npages s')) \<and> unat (kh_npages s') = max (kh_need n bs) (unat (kh_npages s)) \<and>
     card (avail (km_pmm (cpu_mem (kh_cpu s)))) \<le> card (avail (km_pmm (cpu_mem (kh_cpu s')))) + 4 * (kh_need n bs - unat (kh_npages s))"
proof -
  let ?s = "s\<lparr>kh_mutex := 1\<rparr>"
  have ok': "kh_ok ?s bs" using ok by simp
  have nz: "next_slot (last bs) \<noteq> 0" using next_slot_bounds(4) kh_ok_last [OF ok] by simp
  have ff: "find_free n ?s = Ret (if kh_fits n s bs then next_slot (last bs) else 0)"
    using find_free_ok [OF ok' n] by (simp add: kh_fits_def)
  show ?thesis
  proof (cases "kh_fits n s bs")
    case True
    then have "kh_fits n ?s bs" "max (kh_need n bs) (unat (kh_npages s)) = unat (kh_npages s)"
      using kh_fits_need [OF ok, of n] by (simp_all add: kh_fits_def)
    then show ?thesis
      using kh_append_ok [OF ok', of n] nz True m ff wf bk by (auto simp: kheap_alloc_def)
  next
    case False
    then have lt: "unat (kh_npages s) < kh_need n bs" using kh_fits_need [OF ok, of n] by simp
    with kh_grow_backed [OF ok' n] m wf bk lim fr show ?thesis
      using ff False by (auto simp: kheap_alloc_def max_def)
  qed
qed

lemma kheap_init_spec:
  assumes wf: "pg_wf ok avail (cpu_cr3 (kh_cpu s)) (cpu_mem (kh_cpu s))"
    and rw: "pg_rw (km_mem (cpu_mem (kh_cpu s))) (cpu_cr3 (kh_cpu s))"
    and fr: "4 \<le> card (avail (km_pmm (cpu_mem (kh_cpu s))))"
  shows "\<exists>s'. kheap_init alloc s = Ret (0, s') \<and> kh_ok s' [(KH_START, 0)] \<and> kh_mutex s' = kh_mutex s \<and>
    pg_wf ok avail (cpu_cr3 (kh_cpu s')) (cpu_mem (kh_cpu s')) \<and> kh_backed (kh_cpu s') 1 \<and> kh_npages s' = 1 \<and>
    card (avail (km_pmm (cpu_mem (kh_cpu s)))) \<le> card (avail (km_pmm (cpu_mem (kh_cpu s')))) + 4"
proof -
  have "kh_backed (kh_cpu s) 0" using rw by (simp add: kh_backed_def)
  from kh_map_page [OF wf this disjI2 [OF fr]] obtain p c1 c2 where
    "kh_pmm_alloc alloc (kh_cpu s) = Ret (p, c1)" "p \<noteq> 0"
      "vmm_map_cur alloc p KH_START VF_WRITE c1 = Ret c2"
      "pg_wf ok avail (cpu_cr3 c2) (cpu_mem c2)" "kh_backed c2 1"
      "card (avail (km_pmm (cpu_mem (kh_cpu s)))) \<le> card (avail (km_pmm (cpu_mem c2))) + 4"
    by (auto simp: kh_page_def)
  moreover have "kh_put KH_START e t = Ret (t\<lparr>kh_store := (kh_store t)(KH_START := e)\<rparr>)"
    if "kh_backed (kh_cpu t) 1" "kh_npages t = 1" for e and t :: "'s kheap"
    using that by (intro kh_put_in [where m = 0]) (simp_all add: kh_in_def)
  ultimately show ?thesis by (auto simp: kheap_init_def Let_def kh_ok_def kh_in_def)
qed

end

text \<open>A request that wraps: the limit of the block it asks for is address 0.\<close>

definition kh_huge :: u64 where
  "kh_huge = - (KH_START + 48)"

lemma find_free_huge:
  assumes "kh_ok s bs"
  shows "find_free kh_huge s = Ret (KH_START + 32)"
proof -
  have row: "kh_row (kh_store s) bs" "hd bs = (KH_START, 0)" "kh_head s = KH_START" using assms by (auto simp: kh_ok_def)
  then obtain bs' where "bs = (KH_START, 0) # bs'" by (cases bs) auto
  then have "ke_size (kh_store s KH_START) = 0" using kh_row_Cons(1) row(1) by metis
  then have slot: "kh_slot (kh_store s) KH_START = KH_START + 32" by (simp add: kh_slot_def)
  have "is_free (KH_START + 32) (16 + kh_huge) s = Some True"
    unfolding is_free_ok [OF assms] by (simp add: kh_huge_def)
  then show ?thesis
    unfolding find_free_def row(3) by (subst find_free_from.simps) (simp add: slot)
qed

lemma kh_append_huge:
  assumes ok: "kh_ok s bs" and m: "kh_mutex s = 1" and bk: "kh_backed (kh_cpu s) (unat (kh_npages s))"
  shows "\<exists>s'. kh_append (KH_START + 32) n s = Ret (KH_START + 48, s')"
proof -
  have ne: "bs \<noteq> []" "hd bs = (KH_START, 0)" using ok by (auto simp: kh_ok_def)
  then have "(KH_START, 0) \<in> set bs" by (metis hd_in_set)
  then have "kh_in (4096 * unat (kh_npages s)) (KH_START, 0)" using ok by (simp add: kh_ok_def)
  then have "1 \<le> unat (kh_npages s)" by (simp add: kh_in_def)
  then have "kh_put (KH_START + 32) e s = Ret (s\<lparr>kh_store := (kh_store s)(KH_START + 32 := e)\<rparr>)" for e
    using ok by (intro kh_put_in [OF bk, where m = 0]) (simp_all add: kh_ok_def kh_in_def)
  moreover have "kh_in (4096 * unat (kh_npages s)) (last bs)" "kh_tail s = fst (last bs)"
    using ok ne(1) by (auto simp: kh_ok_def)
  then have "kh_put (kh_tail s) e (s\<lparr>kh_store := st\<rparr>) = Ret (s\<lparr>kh_store := st(kh_tail s := e)\<rparr>)" for e st
    using ok bk kh_put_in [of "s\<lparr>kh_store := st\<rparr>" "fst (last bs)" "snd (last bs)"] by (simp add: kh_ok_def)
  ultimately show ?thesis using m by (simp add: kh_append_def)
qed

subsection \<open>Properties\<close>

definition demo_heap :: "pmm kheap" where
  "demo_heap = \<lparr>kh_store = (\<lambda>_. \<lparr>ke_next = 0, ke_size = 0\<rparr>), kh_head = 0, kh_tail = 0,
     kh_npages = 0, kh_mutex = 0, kh_cpu = demo_cpu\<rparr>"

lemma demo_heap_init:
  "\<exists>s. kheap_init pmm_alloc demo_heap = Ret (0, s) \<and> kh_ok s [(KH_START, 0)] \<and> kh_mutex s = 0 \<and>
    pg_wf pmm_ok pmm_avail (cpu_cr3 (kh_cpu s)) (cpu_mem (kh_cpu s)) \<and> kh_backed (kh_cpu s) 1 \<and>
    kh_npages s = 1 \<and> 40 \<le> card (pmm_avail (km_pmm (cpu_mem (kh_cpu s))))"
proof -
  have wf: "pg_wf pmm_ok pmm_avail (cpu_cr3 (kh_cpu demo_heap)) (cpu_mem (kh_cpu demo_heap))"
    using demo_cpu_wf(1) by (simp add: demo_heap_def)
  have rw: "pg_rw (km_mem (cpu_mem (kh_cpu demo_heap))) (cpu_cr3 (kh_cpu demo_heap))"
    using demo_cpu_rw by (simp add: demo_heap_def)
  have c: "card (pmm_avail (km_pmm (cpu_mem (kh_cpu demo_heap)))) = 63"
    by (simp add: demo_heap_def demo_cpu_def demo_kmem_avail)
  have "kh_mutex demo_heap = 0" by (simp add: demo_heap_def)
  then show ?thesis using pmm.kheap_init_spec [OF wf rw] c by fastforce
qed

text \<open>
  C4: \<open>kheap_alloc\<close> is safe.  From a consistent heap whose window is mapped for writing, for a request below 4 TiB,
  and with frames for the tables (the tables of the whole window exist, or there are four frames for each page to
  add), it returns with the mutex free, and either returns NULL and leaves the blocks alone, or
  returns the 16-aligned data of a new block of that size: its header and data are bytes that the page tables in use
  map for writing (at all four levels), behind the end of every other block.  The heap, its page tables and its window are consistent again.
\<close>
theorem kheap_alloc_safe:
  assumes "kh_ok s bs" and "kh_sane n" and "kh_mutex s = 0"
    and "pg_wf pmm_ok pmm_avail (cpu_cr3 (kh_cpu s)) (cpu_mem (kh_cpu s))"
    and "kh_backed (kh_cpu s) (unat (kh_npages s))" and "kh_room pmm_avail (kh_need n bs) s"
  shows "\<exists>r s'. kheap_alloc pmm_alloc n s = Ret (r, s') \<and> kh_mutex s' = 0 \<and>
    pg_wf pmm_ok pmm_avail (cpu_cr3 (kh_cpu s')) (cpu_mem (kh_cpu s')) \<and>
    kh_backed (kh_cpu s') (unat (kh_npages s')) \<and>
    (r = 0 \<and> kh_ok s' bs \<or>
     kh_ok s' (bs @ [(r - 16, n)]) \<and> 16 dvd unat r \<and>
     (\<forall>x. unat (r - 16) \<le> unat x \<and> unat x < unat r + unat n \<longrightarrow> kh_writable (kh_cpu s') x) \<and>
     (\<forall>(a, m) \<in> set bs. unat a + 16 + unat m \<le> unat (r - 16)))"
proof -
  obtain r s' where r: "kheap_alloc pmm_alloc n s = Ret (r, s')" "pmm.kh_result n bs r s'"
    using pmm.kheap_alloc_total [OF assms] by blast
  note c = r(2) [unfolded pmm.kh_result_def]
  show ?thesis
  proof (cases "r = 0 \<and> kh_ok s' bs")
    case True
    then show ?thesis using r(1) c by blast
  next
    case False
    then have n: "r = next_slot (last bs) + 16" "kh_ok s' (bs @ [(next_slot (last bs), n)])" using c by auto
    let ?b = "(next_slot (last bs), n)"
    have i: "kh_in (4096 * unat (kh_npages s')) ?b" using n(2) by (simp add: kh_ok_def)
    have "kh_in kh_lim ?b" using kh_ok_in [OF n(2)] by simp
    then have u: "unat r = unat (next_slot (last bs)) + 16"
      unfolding n(1) by (simp add: kh_in_def unat_word_ariths)
    have "kh_writable (kh_cpu s') x" if "unat (r - 16) \<le> unat x" "unat x < unat r + unat n" for x
      using that c i u n(1) by (intro kh_backed_at [of "kh_cpu s'" "unat (kh_npages s')"]) (auto simp: kh_in_def)
    moreover have "unat a + 16 + unat m \<le> unat (r - 16)" if "(a, m) \<in> set bs" for a m
      using kh_row_before_last [of "kh_store s" bs "(a, m)"] kh_ok_in [OF assms(1)] assms(1) that n(1)
      by (simp add: kh_ok_def)
    moreover have "16 dvd unat r" using i u by (simp add: kh_in_def)
    ultimately show ?thesis using r(1) c n by (intro exI [of _ r] exI [of _ s']) auto
  qed
qed

theorem kheap_alloc_safe_witness:
  "\<exists>s r s'. kheap_init pmm_alloc demo_heap = Ret (0, s) \<and> kheap_alloc pmm_alloc 5000 s = Ret (r, s') \<and>
     kh_mutex s' = 0 \<and> kh_backed (kh_cpu s') (unat (kh_npages s'))"
proof -
  obtain s where s: "kheap_init pmm_alloc demo_heap = Ret (0, s)" "kh_ok s [(KH_START, 0)]" "kh_mutex s = 0"
    "pg_wf pmm_ok pmm_avail (cpu_cr3 (kh_cpu s)) (cpu_mem (kh_cpu s))" "kh_backed (kh_cpu s) 1" "kh_npages s = 1"
    "40 \<le> card (pmm_avail (km_pmm (cpu_mem (kh_cpu s))))" using demo_heap_init by blast
  have "kh_need 5000 [(KH_START, 0)] = 2" by (simp add: kh_need_def next_slot_def)
  then have "kh_room pmm_avail (kh_need 5000 [(KH_START, 0)]) s" using s(6,7) by (simp add: kh_room_def)
  then show ?thesis using kheap_alloc_safe [OF s(2) _ s(3,4), of 5000] s(1,5,6) by auto
qed

text \<open>
  C17: \<open>kheap_alloc\<close> serves what it can: as long as the block fits below \<open>KH_MAX_NPAGES\<close> and there are
  four frames for every page to add (one for the page, three for tables), it returns the slot
  behind the last block, having grown the window exactly as far as needed, and every page of the
  window is mapped in the running address space.
\<close>
theorem kheap_alloc_serves:
  assumes "kh_ok s bs" and "kh_sane n" and "kh_mutex s = 0"
    and "pg_wf pmm_ok pmm_avail (cpu_cr3 (kh_cpu s)) (cpu_mem (kh_cpu s))"
    and "kh_backed (kh_cpu s) (unat (kh_npages s))" and "kh_need n bs \<le> 0x40000"
    and "4 * (kh_need n bs - unat (kh_npages s)) \<le> card (pmm_avail (km_pmm (cpu_mem (kh_cpu s))))"
  shows "\<exists>s'. kheap_alloc pmm_alloc n s = Ret (next_slot (last bs) + 16, s') \<and>
    kh_backed (kh_cpu s') (unat (kh_npages s')) \<and>
    unat (kh_npages s') = max (kh_need n bs) (unat (kh_npages s))"
  using pmm.kheap_alloc_backed [OF assms] by blast

theorem kheap_alloc_serves_witness:
  "\<exists>s s'. kheap_init pmm_alloc demo_heap = Ret (0, s) \<and>
     kheap_alloc pmm_alloc 5000 s = Ret (KH_START + 48, s') \<and> kh_npages s' = 2"
proof -
  obtain s where s: "kheap_init pmm_alloc demo_heap = Ret (0, s)" "kh_ok s [(KH_START, 0)]" "kh_mutex s = 0"
    "pg_wf pmm_ok pmm_avail (cpu_cr3 (kh_cpu s)) (cpu_mem (kh_cpu s))" "kh_backed (kh_cpu s) 1" "kh_npages s = 1"
    "40 \<le> card (pmm_avail (km_pmm (cpu_mem (kh_cpu s))))" using demo_heap_init by blast
  have slot: "next_slot (last [(KH_START, 0)]) = KH_START + 32" by (simp add: next_slot_def)
  have need: "kh_need 5000 [(KH_START, 0)] = 2" unfolding kh_need_def slot by simp
  from kheap_alloc_serves [OF s(2) _ s(3,4), of 5000] s(5-7) need slot obtain s' where
    "kheap_alloc pmm_alloc 5000 s = Ret (KH_START + 48, s')" "unat (kh_npages s') = 2" by auto
  moreover from this(2) have "kh_npages s' = 2" by (simp add: u64_eq_iff_unat)
  ultimately show ?thesis using s(1) by blast
qed

text \<open>
  A size that makes \<open>base + limit\<close> wrap around is not refused: on every consistent heap with a
  block, \<open>kheap_alloc\<close> of this huge size succeeds at once and returns the data of the first
  block, which is in use.
\<close>
theorem kheap_alloc_wraps:
  assumes "kh_ok s bs" and "kh_mutex s = 0" and "kh_backed (kh_cpu s) (unat (kh_npages s))" and "2 \<le> length bs"
  shows "\<exists>s'. kheap_alloc pmm_alloc kh_huge s = Ret (fst (bs ! 1) + 16, s')"
proof -
  obtain a n x bs' where bs: "bs = (a, n) # x # bs'" using assms(4)
    by (cases bs; cases "tl bs") auto
  have "(a, n) = (KH_START, 0)" "kh_row (kh_store s) bs" using assms(1) bs by (auto simp: kh_ok_def)
  then have "fst (bs ! 1) = KH_START + 32"
    using kh_row_Cons(3) [of "kh_store s" a n "x # bs'"] bs by (simp add: next_slot_def)
  moreover have "kh_ok (s\<lparr>kh_mutex := 1\<rparr>) bs" using assms(1) by simp
  ultimately show ?thesis
    using kh_append_huge [of "s\<lparr>kh_mutex := 1\<rparr>" bs kh_huge] find_free_huge [of "s\<lparr>kh_mutex := 1\<rparr>" bs] assms(2,3)
    by (simp add: kheap_alloc_def add.assoc)
qed

theorem kheap_alloc_wraps_witness:
  "\<exists>s s'. kh_ok s [(KH_START, 0), (KH_START + 32, 64)] \<and>
     kheap_alloc pmm_alloc kh_huge s = Ret (KH_START + 48, s')"
proof -
  obtain s0 where s0: "kh_ok s0 [(KH_START, 0)]" "kh_mutex s0 = 0"
    "pg_wf pmm_ok pmm_avail (cpu_cr3 (kh_cpu s0)) (cpu_mem (kh_cpu s0))" "kh_backed (kh_cpu s0) 1" "kh_npages s0 = 1"
    using demo_heap_init by blast
  have slot: "next_slot (last [(KH_START, 0)]) = KH_START + 32" by (simp add: next_slot_def)
  have need: "kh_need 64 [(KH_START, 0)] = 1" unfolding kh_need_def slot by simp
  from pmm.kheap_alloc_backed [OF s0(1) _ s0(2,3), of 64] s0(4,5) need slot obtain s :: "pmm kheap" where
    s: "kh_ok s [(KH_START, 0), (KH_START + 32, 64)]" "kh_mutex s = 0" "kh_backed (kh_cpu s) 1" "unat (kh_npages s) = 1" by auto
  from kheap_alloc_wraps [OF s(1,2)] s(3,4) have "\<exists>s'. kheap_alloc pmm_alloc kh_huge s = Ret (KH_START + 48, s')" by simp
  then show ?thesis using s(1) by blast
qed

end
