(* ===== verification/Ports.thy ===== *)
theory Ports
  imports Katomic
begin

section \<open>I/O ports and delays (port.c, port.S, kutil.c)\<close>

text \<open>
  The hardware behind the I/O ports is a parameter, a \<open>bus\<close>: what each of the \<open>in\<close> and \<open>out\<close>
  instructions does to the state \<open>'b\<close> of all devices.  \<open>port_rd\<close> and \<open>port_wr\<close> dispatch on the
  size like port.c; there is no 64 bit port access.
\<close>

datatype port_size = PS_8 | PS_16 | PS_32 | PS_64

record 'b bus =
  in_8 :: "u16 \<Rightarrow> 'b \<Rightarrow> u8 \<times> 'b"
  in_16 :: "u16 \<Rightarrow> 'b \<Rightarrow> u16 \<times> 'b"
  in_32 :: "u16 \<Rightarrow> 'b \<Rightarrow> u32 \<times> 'b"
  out_8 :: "u16 \<Rightarrow> u8 \<Rightarrow> 'b \<Rightarrow> 'b"
  out_16 :: "u16 \<Rightarrow> u16 \<Rightarrow> 'b \<Rightarrow> 'b"
  out_32 :: "u16 \<Rightarrow> u32 \<Rightarrow> 'b \<Rightarrow> 'b"

definition port_rd :: "'b bus \<Rightarrow> u16 \<Rightarrow> port_size \<Rightarrow> 'b \<Rightarrow> u64 \<times> 'b" where
  "port_rd bus p sz b =
     (case sz of
        PS_8 \<Rightarrow> (case in_8 bus p b of (v, b') \<Rightarrow> (ucast v, b'))
      | PS_16 \<Rightarrow> (case in_16 bus p b of (v, b') \<Rightarrow> (ucast v, b'))
      | PS_32 \<Rightarrow> (case in_32 bus p b of (v, b') \<Rightarrow> (ucast v, b'))
      | PS_64 \<Rightarrow> (0, b))"

definition port_wr :: "'b bus \<Rightarrow> u16 \<Rightarrow> u64 \<Rightarrow> port_size \<Rightarrow> 'b \<Rightarrow> 'b" where
  "port_wr bus p data sz b =
     (case sz of
        PS_8 \<Rightarrow> out_8 bus p (ucast (data AND 0xff)) b
      | PS_16 \<Rightarrow> out_16 bus p (ucast (data AND 0xffff)) b
      | PS_32 \<Rightarrow> out_32 bus p (ucast (data AND 0xffffffff)) b
      | PS_64 \<Rightarrow> b)"

text \<open>A read of one byte register.\<close>

definition port_rd_u8 :: "'b bus \<Rightarrow> u16 \<Rightarrow> 'b \<Rightarrow> u8 \<times> 'b" where
  "port_rd_u8 bus p b = (case port_rd bus p PS_8 b of (v, b') \<Rightarrow> (ucast v, b'))"

lemma port_rd_u8_in: "port_rd_u8 bus p b = in_8 bus p b"
  by (simp add: port_rd_u8_def port_rd_def ucast_ucast_u8 split: prod.splits)

lemma port_wr_8: "port_wr bus p data PS_8 b = out_8 bus p (ucast data) b"
proof -
  have mask_8: "(0xff :: u64) = mask 8" by (simp add: mask_eq_exp_minus_1)
  have "ucast (data AND 0xff) = (ucast data :: u8)"
    unfolding mask_8 by (rule bit_word_eqI) (auto simp: bit_simps)
  then show ?thesis by (simp add: port_wr_def)
qed

text \<open>
  \<open>for (unsigned volatile i = 0; i < ncycles; ++i)\<close> with \<open>unsigned long long ncycles\<close>: the counter
  has 32 bits.
\<close>

partial_function (option) spin_from :: "u64 \<Rightarrow> u32 \<Rightarrow> unit option" where
  "spin_from ncycles i = (if ucast i < ncycles then spin_from ncycles (i + 1) else Some ())"

definition ku_spin_cycles :: "u64 \<Rightarrow> unit exec" where
  "ku_spin_cycles ncycles = from_opt (spin_from ncycles 0)"

lemma spin_from_ends:
  assumes "unat ncycles < 2 ^ 32"
  shows "unat i \<le> unat ncycles \<Longrightarrow> spin_from ncycles i = Some ()"
proof (induction "unat ncycles - unat i" arbitrary: i)
  case 0
  then show ?case by (simp add: spin_from.simps [of ncycles i] word_less_nat_alt unat_ucast_u32)
next
  case (Suc d)
  then have lt: "unat i < unat ncycles" by simp
  then have "unat (i + 1) = unat i + 1" using assms by (simp add: unat_word_ariths)
  with Suc lt show ?case
    by (simp add: spin_from.simps [of ncycles i] word_less_nat_alt unat_ucast_u32)
qed

lemma ku_spin_cycles_ends: "unat ncycles < 2 ^ 32 \<Longrightarrow> ku_spin_cycles ncycles = Ret ()"
  using spin_from_ends [of ncycles 0] by (simp add: ku_spin_cycles_def)

lemma spin_from_never: "spin_from ncycles i = Some r \<Longrightarrow> unat ncycles < 2 ^ 32"
proof (rule spin_from.raw_induct [where P = "\<lambda>(n :: u64) i r. unat n < 2 ^ 32"])
  fix f and n :: u64 and i :: u32 and r
  assume IH: "\<And>(n :: u64) i r. f n i = Some r \<Longrightarrow> unat n < 2 ^ 32"
    and eq: "(if ucast i < n then f n (i + 1) else Some ()) = Some r"
  show "unat (n :: u64) < 2 ^ 32"
  proof (cases "ucast (i :: u32) < n")
    case True
    then show ?thesis using eq IH by simp
  next
    case False
    have "unat i < 2 ^ 32" using unsigned_less [of i] by simp
    then show ?thesis using False by (simp add: word_less_nat_alt unat_ucast_u32)
  qed
qed

subsection \<open>Properties\<close>

text \<open>
  C36: \<open>ku_spin_cycles\<close> returns exactly for counts below \<open>2 ^ 32\<close>; for larger ones the 32 bit counter
  wraps around and the loop never ends.
\<close>
theorem ku_spin_cycles_returns: "ku_spin_cycles ncycles = (if unat ncycles < 2 ^ 32 then Ret () else Spin)"
  using ku_spin_cycles_ends [of ncycles] spin_from_never [of ncycles 0]
  by (cases "spin_from ncycles 0") (auto simp: ku_spin_cycles_def)

end
