(* ===== verification/Blkdev.thy ===== *)
theory Blkdev
  imports Katomic
begin

section \<open>Block devices and partitions (blkdev.c)\<close>

text \<open>
  The registry of block devices.  A slot of the registry is a device with its partitions; a
  pointer to a device is a reference, \<open>Dev i\<close> for \<open>&blkdevs[i]\<close> and \<open>Part i j\<close> for
  \<open>&blkdevs[i].children[j]\<close>.  The driver's functions are stored in the device like the function
  pointers of the C struct (\<open>None\<close> is NULL).  A driver's read returns its code and the bytes it
  wrote to the destination, from its start; \<open>dk_hw\<close> is the state of the driver and its hardware.
  Blocks of the kernel heap come from the argument \<open>kalloc\<close>.  The pointer \<open>driver_destroy\<close>, which
  nothing in the kernel calls, is left out.
\<close>

abbreviation MAX_BLKDEV_CNT :: nat where "MAX_BLKDEV_CNT \<equiv> 512"
abbreviation BLKDEV_MAX_PARTS :: nat where "BLKDEV_MAX_PARTS \<equiv> 32"
abbreviation BF_PART :: u8 where "BF_PART \<equiv> 0x1"
abbreviation BF_SYNC_DEP_CHILD :: u8 where "BF_SYNC_DEP_CHILD \<equiv> 0x2"

datatype blkdev_dev_type = BDT_NULL | BDT_DISK_DRIVE
datatype blkdev_driver = BD_NULL | BD_ATA_PIO

datatype bd_ref = Dev nat | Part nat nat

type_synonym ('d, 'h) rd_fn = "'d \<Rightarrow> u64 \<Rightarrow> u64 \<Rightarrow> 'h \<Rightarrow> (int \<times> u8 list \<times> 'h) exec"
type_synonym ('d, 'h) wr_fn = "'d \<Rightarrow> u64 \<Rightarrow> u8 list \<Rightarrow> u64 \<Rightarrow> 'h \<Rightarrow> (int \<times> 'h) exec"

record ('d, 'h) blkdev =
  bd_driver_data :: 'd
  bd_rd :: "('d, 'h) rd_fn option"
  bd_wr :: "('d, 'h) wr_fn option"
  bd_children :: u64
  bd_part_base :: blk_addr_t
  bd_flags :: u8
  bd_dev_type :: blkdev_dev_type
  bd_driver :: blkdev_driver
  bd_blk_size :: u64
  bd_nblk :: u64
  bd_mutex :: k_mutex_t
  bd_parent_mutex :: "bd_ref option"

type_synonym ('d, 'h) bd_slot = "('d, 'h) blkdev \<times> ('d, 'h) blkdev list"

record ('d, 'h, 'k) disks =
  dk_slots :: "('d, 'h) bd_slot list"
  dk_hw :: 'h
  dk_heap :: 'k

subsection \<open>References\<close>

fun bd_at :: "bd_ref \<Rightarrow> ('d, 'h) bd_slot list \<Rightarrow> ('d, 'h) blkdev option" where
  "bd_at (Dev i) sl = (if i < length sl then Some (fst (sl ! i)) else None)"
| "bd_at (Part i j) sl =
     (if i < length sl \<and> j < length (snd (sl ! i)) then Some (snd (sl ! i) ! j) else None)"

fun bd_put :: "bd_ref \<Rightarrow> ('d, 'h) blkdev \<Rightarrow> ('d, 'h) bd_slot list \<Rightarrow> ('d, 'h) bd_slot list" where
  "bd_put (Dev i) bd sl = sl[i := (bd, snd (sl ! i))]"
| "bd_put (Part i j) bd sl = sl[i := (fst (sl ! i), (snd (sl ! i))[j := bd])]"

definition bd_get :: "bd_ref \<Rightarrow> ('d, 'h, 'k) disks \<Rightarrow> ('d, 'h) blkdev exec" where
  "bd_get r s = (case bd_at r (dk_slots s) of None \<Rightarrow> Fault | Some bd \<Rightarrow> Ret bd)"

text \<open>Locking and unlocking through a pointer to a mutex; a NULL pointer is a fault.\<close>

definition bd_lock :: "bd_ref option \<Rightarrow> ('d, 'h, 'k) disks \<Rightarrow> ('d, 'h, 'k) disks exec" where
  "bd_lock mtx s = (case mtx of None \<Rightarrow> Fault | Some r \<Rightarrow>
     seq (bd_get r s) (\<lambda>bd. seq (k_mutex_lock (bd_mutex bd)) (\<lambda>m.
     Ret (s\<lparr>dk_slots := bd_put r (bd\<lparr>bd_mutex := m\<rparr>) (dk_slots s)\<rparr>))))"

definition bd_unlock :: "bd_ref option \<Rightarrow> ('d, 'h, 'k) disks \<Rightarrow> ('d, 'h, 'k) disks exec" where
  "bd_unlock mtx s = (case mtx of None \<Rightarrow> Fault | Some r \<Rightarrow>
     seq (bd_get r s) (\<lambda>bd. seq (k_mutex_unlock (bd_mutex bd)) (\<lambda>m.
     Ret (s\<lparr>dk_slots := bd_put r (bd\<lparr>bd_mutex := m\<rparr>) (dk_slots s)\<rparr>))))"

text \<open>A write of \<open>out\<close> to the start of a buffer.\<close>

definition buf_write :: "u8 list \<Rightarrow> u8 list \<Rightarrow> u8 list exec" where
  "buf_write out dst = (if length out \<le> length dst then Ret (out @ drop (length out) dst) else Fault)"

subsection \<open>The operations\<close>

definition blkdev_register :: "('d, 'h) blkdev \<Rightarrow> ('d, 'h, 'k) disks \<Rightarrow> bd_ref option \<times> ('d, 'h, 'k) disks" where
  "blkdev_register bd s =
     (if length (dk_slots s) \<ge> MAX_BLKDEV_CNT then (None, s)
      else (Some (Dev (length (dk_slots s))), s\<lparr>dk_slots := dk_slots s @ [(bd, [])]\<rparr>))"

definition blkdevs_get :: "('d, 'h, 'k) disks \<Rightarrow> bd_ref list \<times> nat" where
  "blkdevs_get s = (map Dev [0..<length (dk_slots s)], length (dk_slots s))"

definition blkdev_info_str :: "('d, 'h) blkdev \<Rightarrow> string" where
  "blkdev_info_str bd =
     (case bd_dev_type bd of
        BDT_DISK_DRIVE \<Rightarrow> (case bd_driver bd of BD_ATA_PIO \<Rightarrow> ''dd:atapio'' | BD_NULL \<Rightarrow> ''dd:null'')
      | BDT_NULL \<Rightarrow> ''null:null'')"

fun blkdev_get_from :: "('d, 'h) bd_slot list \<Rightarrow> blkdev_dev_type \<Rightarrow> blkdev_driver \<Rightarrow> nat \<Rightarrow> nat option" where
  "blkdev_get_from [] type driver which = None"
| "blkdev_get_from (sl # sls) type driver which =
     (if bd_dev_type (fst sl) = type \<and> bd_driver (fst sl) = driver then
        (if which = 0 then Some 0
         else map_option Suc (blkdev_get_from sls type driver (which - 1)))
      else map_option Suc (blkdev_get_from sls type driver which))"

definition blkdev_get :: "blkdev_dev_type \<Rightarrow> blkdev_driver \<Rightarrow> nat \<Rightarrow> ('d, 'h, 'k) disks \<Rightarrow> bd_ref option" where
  "blkdev_get type driver which s = map_option Dev (blkdev_get_from (dk_slots s) type driver which)"

fun blkdev_get_which_from :: "('d, 'h) bd_slot list \<Rightarrow> nat \<Rightarrow> bd_ref \<Rightarrow> ('d, 'h) blkdev \<Rightarrow> nat \<Rightarrow> nat" where
  "blkdev_get_which_from [] i r bd which = MAX_BLKDEV_CNT"
| "blkdev_get_which_from (sl # sls) i r bd which =
     (if r = Dev i then which
      else blkdev_get_which_from sls (Suc i) r bd
        (if bd_dev_type (fst sl) = bd_dev_type bd \<and> bd_driver (fst sl) = bd_driver bd
         then which + 1 else which))"

definition blkdev_get_which :: "bd_ref \<Rightarrow> ('d, 'h, 'k) disks \<Rightarrow> nat exec" where
  "blkdev_get_which r s =
     seq (bd_get r s) (\<lambda>bd. Ret (blkdev_get_which_from (dk_slots s) 0 r bd 0))"

text \<open>\<open>sizeof(struct blkdev) * BLKDEV_MAX_PARTS\<close> is 96 * 32.\<close>

definition blkdev_create :: "(u64 \<Rightarrow> 'k \<Rightarrow> (u64 \<times> 'k) exec) \<Rightarrow> 'd \<Rightarrow> ('d, 'h) rd_fn option \<Rightarrow>
    ('d, 'h) wr_fn option \<Rightarrow> blkdev_dev_type \<Rightarrow> blkdev_driver \<Rightarrow> u8 \<Rightarrow> u64 \<Rightarrow> u64 \<Rightarrow>
    ('d, 'h, 'k) disks \<Rightarrow> (('d, 'h) blkdev \<times> ('d, 'h, 'k) disks) exec" where
  "blkdev_create kalloc driver_data rd wr type driver flags blk_size nblk s =
     seq (kalloc (96 * 32) (dk_heap s)) (\<lambda>(children, k).
     Ret (\<lparr>bd_driver_data = driver_data, bd_rd = rd, bd_wr = wr, bd_children = children,
           bd_part_base = 0, bd_flags = flags, bd_dev_type = type, bd_driver = driver,
           bd_blk_size = blk_size, bd_nblk = nblk, bd_mutex = 0, bd_parent_mutex = None\<rparr>,
          s\<lparr>dk_heap := k\<rparr>))"

text \<open>\<open>blkdev->children[blkdev->nchildren - 1] = part\<close>; partitions have no children themselves.\<close>

definition bd_add_child :: "bd_ref \<Rightarrow> ('d, 'h) blkdev \<Rightarrow> ('d, 'h, 'k) disks \<Rightarrow>
    (bd_ref \<times> ('d, 'h, 'k) disks) exec" where
  "bd_add_child r part s =
     (case r of
        Dev i \<Rightarrow>
          (if bd_children (fst (dk_slots s ! i)) = 0 then Fault
           else Ret (Part i (length (snd (dk_slots s ! i))),
             s\<lparr>dk_slots := (dk_slots s)[i := (fst (dk_slots s ! i), snd (dk_slots s ! i) @ [part])]\<rparr>))
      | Part i j \<Rightarrow> Fault)"

fun bd_nchildren :: "bd_ref \<Rightarrow> ('d, 'h) bd_slot list \<Rightarrow> nat" where
  "bd_nchildren (Dev i) sl = length (snd (sl ! i))"
| "bd_nchildren (Part i j) sl = 0"

definition blkdev_mk_part :: "bd_ref \<Rightarrow> blk_addr_t \<Rightarrow> u64 \<Rightarrow> ('d, 'h, 'k) disks \<Rightarrow>
    (bd_ref option \<times> ('d, 'h, 'k) disks) exec" where
  "blkdev_mk_part r base limit s =
     seq (bd_get r s) (\<lambda>bd.
     if bd_flags bd AND BF_PART \<noteq> 0 then Ret (None, s)
     else
       let mtx = (if bd_flags bd AND BF_SYNC_DEP_CHILD \<noteq> 0 then bd_parent_mutex bd else Some r) in
       seq (bd_lock mtx s) (\<lambda>s.
       if bd_nchildren r (dk_slots s) \<ge> BLKDEV_MAX_PARTS then
         seq (bd_unlock mtx s) (\<lambda>s. Ret (None, s))
       else if base + limit > bd_nblk bd then
         seq (bd_unlock mtx s) (\<lambda>s. Ret (None, s))
       else
         let part = bd\<lparr>bd_children := 0, bd_part_base := base, bd_flags := bd_flags bd OR BF_PART,
                       bd_nblk := limit, bd_mutex := 0, bd_parent_mutex := mtx\<rparr> in
         seq (bd_add_child r part s) (\<lambda>(child, s).
         seq (bd_unlock mtx s) (\<lambda>s. Ret (Some child, s)))))"

definition bd_mutex_for :: "bd_ref \<Rightarrow> ('d, 'h) blkdev \<Rightarrow> bd_ref option" where
  "bd_mutex_for r bd =
     (if bd_flags bd AND BF_PART \<noteq> 0 \<or> bd_flags bd AND BF_SYNC_DEP_CHILD \<noteq> 0
      then bd_parent_mutex bd else Some r)"

definition blkdev_rd :: "bd_ref \<Rightarrow> u8 list \<Rightarrow> blk_addr_t \<Rightarrow> u64 \<Rightarrow> ('d, 'h, 'k) disks \<Rightarrow>
    (int \<times> u8 list \<times> ('d, 'h, 'k) disks) exec" where
  "blkdev_rd r dst src n s =
     seq (bd_get r s) (\<lambda>bd.
     let mtx = bd_mutex_for r bd in
     seq (bd_lock mtx s) (\<lambda>s.
     if src + n > bd_nblk bd then seq (bd_unlock mtx s) (\<lambda>s. Ret (1, dst, s))
     else
       let at = (if bd_flags bd AND BF_PART \<noteq> 0 then src + bd_part_base bd else src) in
       (case bd_rd bd of
          None \<Rightarrow> Fault
        | Some rd \<Rightarrow>
            seq (rd (bd_driver_data bd) at n (dk_hw s)) (\<lambda>(rc, out, hw).
            seq (buf_write out dst) (\<lambda>dst.
            seq (bd_unlock mtx (s\<lparr>dk_hw := hw\<rparr>)) (\<lambda>s. Ret (0, dst, s)))))))"

definition blkdev_wr :: "bd_ref \<Rightarrow> blk_addr_t \<Rightarrow> u8 list \<Rightarrow> u64 \<Rightarrow> ('d, 'h, 'k) disks \<Rightarrow>
    (int \<times> ('d, 'h, 'k) disks) exec" where
  "blkdev_wr r dst src n s =
     seq (bd_get r s) (\<lambda>bd.
     let mtx = bd_mutex_for r bd in
     seq (bd_lock mtx s) (\<lambda>s.
     if dst + n > bd_nblk bd then seq (bd_unlock mtx s) (\<lambda>s. Ret (1, s))
     else
       let at = (if bd_flags bd AND BF_PART \<noteq> 0 then dst + bd_part_base bd else dst) in
       (case bd_wr bd of
          None \<Rightarrow> Fault
        | Some wr \<Rightarrow>
            seq (wr (bd_driver_data bd) at src n (dk_hw s)) (\<lambda>(rc, hw).
            seq (bd_unlock mtx (s\<lparr>dk_hw := hw\<rparr>)) (\<lambda>s. Ret (0, s))))))"

subsection \<open>A consistent registry\<close>

text \<open>
  A partition of the device \<open>bd\<close> in slot \<open>i\<close>: the same driver, the parent's mutex, and a range of
  blocks inside the parent.
\<close>

definition part_ok :: "nat \<Rightarrow> ('d, 'h) blkdev \<Rightarrow> ('d, 'h) blkdev \<Rightarrow> bool" where
  "part_ok i bd c \<longleftrightarrow> bd_flags c = BF_PART \<and> bd_parent_mutex c = Some (Dev i) \<and>
     bd_driver_data c = bd_driver_data bd \<and> bd_rd c = bd_rd bd \<and> bd_wr c = bd_wr bd \<and>
     bd_blk_size c = bd_blk_size bd \<and> unat (bd_part_base c) + unat (bd_nblk c) \<le> unat (bd_nblk bd)"

definition slot_ok :: "nat \<Rightarrow> ('d, 'h) bd_slot \<Rightarrow> bool" where
  "slot_ok i sl \<longleftrightarrow> bd_flags (fst sl) = 0 \<and> bd_mutex (fst sl) = 0 \<and> bd_children (fst sl) \<noteq> 0 \<and>
     length (snd sl) \<le> BLKDEV_MAX_PARTS \<and> (\<forall>c \<in> set (snd sl). part_ok i (fst sl) c)"

definition bd_ok :: "('d, 'h, 'k) disks \<Rightarrow> bool" where
  "bd_ok s \<longleftrightarrow> (\<forall>i < length (dk_slots s). slot_ok i (dk_slots s ! i))"

text \<open>The registry with the mutex of slot \<open>i\<close> held.\<close>

definition bd_held :: "nat \<Rightarrow> ('d, 'h, 'k) disks \<Rightarrow> ('d, 'h, 'k) disks" where
  "bd_held i s = s\<lparr>dk_slots := (dk_slots s)[i := ((fst (dk_slots s ! i))\<lparr>bd_mutex := 1\<rparr>, snd (dk_slots s ! i))]\<rparr>"

lemma bd_lock_dev:
  "bd_ok s \<Longrightarrow> i < length (dk_slots s) \<Longrightarrow> bd_lock (Some (Dev i)) s = Ret (bd_held i s)"
  by (simp add: bd_lock_def bd_get_def bd_held_def bd_ok_def slot_ok_def)

lemma bd_unlock_held:
  assumes "bd_ok s" "i < length (dk_slots s)"
  shows "bd_unlock (Some (Dev i)) (bd_held i s) = Ret s"
    and "bd_unlock (Some (Dev i)) (bd_held i s\<lparr>dk_hw := h\<rparr>) = Ret (s\<lparr>dk_hw := h\<rparr>)"
proof -
  have "bd_mutex (fst (dk_slots s ! i)) = 0" using assms by (simp add: bd_ok_def slot_ok_def)
  then have "(fst (dk_slots s ! i))\<lparr>bd_mutex := 0\<rparr> = fst (dk_slots s ! i)" by simp
  then have "(dk_slots s)[i := ((fst (dk_slots s ! i))\<lparr>bd_mutex := 0\<rparr>, snd (dk_slots s ! i))] = dk_slots s"
    by simp
  then show "bd_unlock (Some (Dev i)) (bd_held i s) = Ret s"
    "bd_unlock (Some (Dev i)) (bd_held i s\<lparr>dk_hw := h\<rparr>) = Ret (s\<lparr>dk_hw := h\<rparr>)"
    using assms(2) by (simp_all add: bd_unlock_def bd_get_def bd_held_def)
qed

text \<open>What both kinds of device do once the bound is checked: call the driver and copy.\<close>

definition drv_read :: "('d, 'h) blkdev \<Rightarrow> u8 list \<Rightarrow> u64 \<Rightarrow> u64 \<Rightarrow> ('d, 'h, 'k) disks \<Rightarrow>
    (int \<times> u8 list \<times> ('d, 'h, 'k) disks) exec" where
  "drv_read bd dst at n s = (case bd_rd bd of None \<Rightarrow> Fault | Some rd \<Rightarrow>
     seq (rd (bd_driver_data bd) at n (dk_hw s)) (\<lambda>(rc, out, hw).
     seq (buf_write out dst) (\<lambda>dst. Ret (0, dst, s\<lparr>dk_hw := hw\<rparr>))))"

lemma bd_held_hw [simp]: "dk_hw (bd_held i s) = dk_hw s" by (simp add: bd_held_def)

lemma drv_read_held:
  assumes "bd_ok s" "i < length (dk_slots s)"
  shows "(case bd_rd bd of None \<Rightarrow> Fault | Some rd \<Rightarrow>
      seq (rd (bd_driver_data bd) at n (dk_hw (bd_held i s))) (\<lambda>(rc, out, hw).
      seq (buf_write out dst) (\<lambda>dst.
      seq (bd_unlock (Some (Dev i)) (bd_held i s\<lparr>dk_hw := hw\<rparr>)) (\<lambda>s. Ret (0, dst, s))))) =
    drv_read bd dst at n s"
  unfolding drv_read_def
  by (auto simp: bd_unlock_held(2) [OF assms] split: option.splits intro!: seq_cong)

lemma blkdev_rd_dev:
  assumes ok: "bd_ok s" and i: "i < length (dk_slots s)"
  shows "blkdev_rd (Dev i) dst src n s =
    (if src + n > bd_nblk (fst (dk_slots s ! i)) then Ret (1, dst, s)
     else drv_read (fst (dk_slots s ! i)) dst src n s)"
proof -
  let ?bd = "fst (dk_slots s ! i)"
  have fl: "bd_flags ?bd = 0" using ok i by (simp add: bd_ok_def slot_ok_def)
  then have m: "bd_mutex_for (Dev i) ?bd = Some (Dev i)" by (simp add: bd_mutex_for_def)
  have g: "bd_get (Dev i) s = Ret ?bd" using i by (simp add: bd_get_def)
  show ?thesis
    unfolding Let_def drv_read_held [OF ok i, symmetric] blkdev_rd_def g seq.simps m bd_lock_dev [OF ok i]
      bd_unlock_held [OF ok i] fl
    by simp
qed

lemma blkdev_rd_part:
  assumes ok: "bd_ok s" and i: "i < length (dk_slots s)" and j: "j < length (snd (dk_slots s ! i))"
  shows "blkdev_rd (Part i j) dst src n s =
    (let c = snd (dk_slots s ! i) ! j in
     if src + n > bd_nblk c then Ret (1, dst, s) else drv_read c dst (src + bd_part_base c) n s)"
proof -
  let ?c = "snd (dk_slots s ! i) ! j"
  have "part_ok i (fst (dk_slots s ! i)) ?c" using ok i j by (simp add: bd_ok_def slot_ok_def)
  then have fl: "bd_flags ?c = BF_PART" "bd_parent_mutex ?c = Some (Dev i)" by (simp_all add: part_ok_def)
  then have m: "bd_mutex_for (Part i j) ?c = Some (Dev i)" by (simp add: bd_mutex_for_def)
  have g: "bd_get (Part i j) s = Ret ?c" using i j by (simp add: bd_get_def)
  show ?thesis
    unfolding Let_def drv_read_held [OF ok i, symmetric] blkdev_rd_def g seq.simps m bd_lock_dev [OF ok i]
      bd_unlock_held [OF ok i] fl
    by simp
qed

subsection \<open>Partitioning and looking up\<close>

definition mk_part_of :: "nat \<Rightarrow> ('d, 'h) blkdev \<Rightarrow> u64 \<Rightarrow> u64 \<Rightarrow> ('d, 'h) blkdev" where
  "mk_part_of i bd base limit = bd\<lparr>bd_children := 0, bd_part_base := base, bd_flags := BF_PART,
     bd_nblk := limit, bd_mutex := 0, bd_parent_mutex := Some (Dev i)\<rparr>"

lemma blkdev_mk_part_dev:
  assumes ok: "bd_ok s" and i: "i < length (dk_slots s)"
  shows "blkdev_mk_part (Dev i) base limit s =
    (let (bd, cs) = dk_slots s ! i in
     if length cs \<ge> BLKDEV_MAX_PARTS \<or> base + limit > bd_nblk bd then Ret (None, s)
     else Ret (Some (Part i (length cs)),
       s\<lparr>dk_slots := (dk_slots s)[i := (bd, cs @ [mk_part_of i bd base limit])]\<rparr>))"
proof -
  obtain bd cs where sl: "dk_slots s ! i = (bd, cs)" by fastforce
  have b: "bd_flags bd = 0" "bd_mutex bd = 0" "bd_children bd \<noteq> 0"
    using ok i sl by (auto simp: bd_ok_def slot_ok_def dest!: spec [of _ i])
  have g: "bd_get (Dev i) s = Ret bd" using i sl by (simp add: bd_get_def)
  have h: "dk_slots (bd_held i s) ! i = (bd\<lparr>bd_mutex := 1\<rparr>, cs)" "length (dk_slots (bd_held i s)) = length (dk_slots s)"
    using i sl by (simp_all add: bd_held_def)
  let ?p = "mk_part_of i bd base limit"
  have add: "bd_add_child (Dev i) ?p (bd_held i s) = Ret (Part i (length cs),
      bd_held i s\<lparr>dk_slots := (dk_slots s)[i := (bd\<lparr>bd_mutex := 1\<rparr>, cs @ [?p])]\<rparr>)"
    using i sl b(3) by (simp add: bd_add_child_def h) (simp add: bd_held_def)
  have p: "bd\<lparr>bd_children := 0, bd_part_base := base, bd_flags := bd_flags bd OR BF_PART,
      bd_nblk := limit, bd_mutex := 0, bd_parent_mutex := Some (Dev i)\<rparr> = ?p"
    by (simp add: mk_part_of_def b(1))
  have bd: "bd\<lparr>bd_mutex := 0\<rparr> = bd" using b(2) by simp
  have un: "bd_unlock (Some (Dev i)) (bd_held i s\<lparr>dk_slots := (dk_slots s)[i := (bd\<lparr>bd_mutex := 1\<rparr>, cs @ [?p])]\<rparr>) =
      Ret (s\<lparr>dk_slots := (dk_slots s)[i := (bd, cs @ [?p])]\<rparr>)"
    using i bd by (simp add: bd_unlock_def bd_get_def bd_held_def)
  show ?thesis
    unfolding blkdev_mk_part_def g seq.simps sl prod.case Let_def b(1)
    using i by (simp add: bd_lock_dev [OF ok i] bd_unlock_held [OF ok i] h p [simplified b(1), simplified] add un)
qed

lemma blkdev_mk_part_ok:
  assumes ok: "bd_ok s" and i: "i < length (dk_slots s)" and w: "unat base + unat limit < 2 ^ 64"
    and r: "blkdev_mk_part (Dev i) base limit s = Ret (r, s')"
  shows "bd_ok s'"
proof -
  obtain bd cs where sl: "dk_slots s ! i = (bd, cs)" by fastforce
  have b: "slot_ok i (bd, cs)" using ok i sl by (auto simp: bd_ok_def dest!: spec [of _ i])
  show ?thesis
  proof (cases "length cs \<ge> BLKDEV_MAX_PARTS \<or> base + limit > bd_nblk bd")
    case True
    then show ?thesis using r ok by (auto simp: blkdev_mk_part_dev [OF ok i] sl)
  next
    case False
    let ?p = "mk_part_of i bd base limit"
    have s': "s' = s\<lparr>dk_slots := (dk_slots s)[i := (bd, cs @ [?p])]\<rparr>"
      using r False by (auto simp: blkdev_mk_part_dev [OF ok i] sl Let_def)
    have "unat (base + limit) \<le> unat (bd_nblk bd)" using False by (simp add: word_le_nat_alt not_less)
    then have "part_ok i bd ?p"
      using w by (simp add: part_ok_def mk_part_of_def unat_add_u64)
    then have "slot_ok i (bd, cs @ [?p])" using b False by (auto simp: slot_ok_def)
    then show ?thesis using ok i unfolding s' bd_ok_def by (auto simp: nth_list_update)
  qed
qed

lemma blkdev_register_ok:
  assumes "bd_ok s" "bd_flags bd = 0" "bd_mutex bd = 0" "bd_children bd \<noteq> 0"
  shows "bd_ok (snd (blkdev_register bd s))"
  using assms by (auto simp: blkdev_register_def bd_ok_def slot_ok_def nth_append)

definition bd_kind :: "('d, 'h) bd_slot \<Rightarrow> blkdev_dev_type \<times> blkdev_driver" where
  "bd_kind sl = (bd_dev_type (fst sl), bd_driver (fst sl))"

lemma blkdev_get_from_count:
  "blkdev_get_from sls type driver which = Some i \<longleftrightarrow>
   i < length sls \<and> bd_kind (sls ! i) = (type, driver) \<and>
   which = length (filter (\<lambda>sl. bd_kind sl = (type, driver)) (take i sls))"
proof (induction sls arbitrary: i which)
  case (Cons sl sls)
  show ?case
    by (cases i) (auto simp: Cons.IH bd_kind_def)
qed simp

lemma blkdev_get_which_from_count:
  "blkdev_get_which_from sls k (Dev (k + i)) bd w =
   (if i < length sls
    then w + length (filter (\<lambda>sl. bd_kind sl = (bd_dev_type bd, bd_driver bd)) (take i sls))
    else MAX_BLKDEV_CNT)"
proof (induction sls arbitrary: k i w)
  case (Cons sl sls)
  show ?case
  proof (cases i)
    case (Suc j)
    have "blkdev_get_which_from sls (Suc k) (Dev (k + i)) bd v =
      blkdev_get_which_from sls (Suc k) (Dev (Suc k + j)) bd v" for v using Suc by simp
    then show ?thesis using Suc by (simp only: blkdev_get_which_from.simps Cons.IH) (simp add: bd_kind_def)
  qed simp
qed simp

subsection \<open>The interface of a driver, and what a device offers\<close>

text \<open>
  What the readers of block devices rely on: a driver's function reads one block of a valid device.
  \<open>sector\<close> is the content of the disk.  The theory of a driver interprets this on its function.
\<close>

locale blk_driver =
  fixes rd :: "('d, 'h) rd_fn"
    and ready :: "'h \<Rightarrow> bool"
    and valid :: "'d \<Rightarrow> bool"
    and sector :: "'h \<Rightarrow> 'd \<Rightarrow> u64 \<Rightarrow> u8 list"
    and bsize :: "'d \<Rightarrow> nat"
    and cap :: "'d \<Rightarrow> nat"
  assumes rd_one: "ready h \<Longrightarrow> valid d \<Longrightarrow> unat b < cap d \<Longrightarrow>
      \<exists>h'. rd d b 1 h = Ret (0, sector h d b, h') \<and> ready h' \<and> sector h' = sector h"
    and sector_len: "ready h \<Longrightarrow> valid d \<Longrightarrow> unat b < cap d \<Longrightarrow> length (sector h d b) = bsize d"
begin

definition dev_ok :: "('d, 'h) blkdev \<Rightarrow> bool" where
  "dev_ok bd \<longleftrightarrow> bd_rd bd = Some rd \<and> valid (bd_driver_data bd) \<and>
     unat (bd_blk_size bd) = bsize (bd_driver_data bd) \<and>
     unat (bd_part_base bd) + unat (bd_nblk bd) \<le> cap (bd_driver_data bd)"

definition served :: "('d, 'h, 'k) disks \<Rightarrow> bool" where
  "served s \<longleftrightarrow> bd_ok s \<and> ready (dk_hw s) \<and>
     (\<forall>i < length (dk_slots s). dev_ok (fst (dk_slots s ! i)) \<and> bd_part_base (fst (dk_slots s ! i)) = 0 \<and>
        (\<forall>c \<in> set (snd (dk_slots s ! i)). dev_ok c))"

text \<open>Block \<open>b\<close> of a device or partition.\<close>

definition block :: "('d, 'h) blkdev \<Rightarrow> 'h \<Rightarrow> u64 \<Rightarrow> u8 list" where
  "block bd h b = sector h (bd_driver_data bd) (bd_part_base bd + b)"

lemma served_dev: "served s \<Longrightarrow> bd_at r (dk_slots s) = Some bd \<Longrightarrow> dev_ok bd"
  by (cases r) (auto simp: served_def split: if_splits)

lemma drv_read_one:
  assumes "ready (dk_hw s)" "dev_ok bd" "unat b < unat (bd_nblk bd)" "unat (bd_blk_size bd) \<le> length dst"
  shows "\<exists>h. drv_read bd dst (b + bd_part_base bd) 1 s =
      Ret (0, block bd (dk_hw s) b @ drop (unat (bd_blk_size bd)) dst, s\<lparr>dk_hw := h\<rparr>) \<and> ready h \<and>
      sector h = sector (dk_hw s) \<and> length (block bd (dk_hw s) b) = unat (bd_blk_size bd)"
proof -
  let ?d = "bd_driver_data bd" and ?a = "b + bd_part_base bd"
  have d: "bd_rd bd = Some rd" "valid ?d" "unat (bd_blk_size bd) = bsize ?d"
    "unat (bd_part_base bd) + unat (bd_nblk bd) \<le> cap ?d" using assms(2) by (auto simp: dev_ok_def)
  have "unat ?a \<le> unat b + unat (bd_part_base bd)" by (simp add: unat_word_ariths)
  then have a: "unat ?a < cap ?d" using assms(3) d(4) by linarith
  obtain h where h: "rd ?d ?a 1 (dk_hw s) = Ret (0, sector (dk_hw s) ?d ?a, h)" "ready h" "sector h = sector (dk_hw s)"
    using rd_one [OF assms(1) d(2) a] by blast
  have l: "length (sector (dk_hw s) ?d ?a) = unat (bd_blk_size bd)"
    using sector_len [OF assms(1) d(2) a] d(3) by simp
  have "drv_read bd dst ?a 1 s = Ret (0, sector (dk_hw s) ?d ?a @ drop (unat (bd_blk_size bd)) dst, s\<lparr>dk_hw := h\<rparr>)"
    using h(1) l assms(4) by (simp add: drv_read_def d(1) buf_write_def)
  then show ?thesis using h l by (auto simp: block_def add.commute)
qed

lemma served_hw: "served s \<Longrightarrow> ready h \<Longrightarrow> served (s\<lparr>dk_hw := h\<rparr>)"
  by (simp add: served_def bd_ok_def)

text \<open>Reading one block of a registered device or partition.\<close>

lemma blkdev_rd_one:
  assumes s: "served s" and r: "bd_at r (dk_slots s) = Some bd" and b: "b < bd_nblk bd"
    and dst: "unat (bd_blk_size bd) \<le> length dst"
  shows "\<exists>h. blkdev_rd r dst b 1 s =
      Ret (0, block bd (dk_hw s) b @ drop (unat (bd_blk_size bd)) dst, s\<lparr>dk_hw := h\<rparr>) \<and>
      served (s\<lparr>dk_hw := h\<rparr>) \<and> sector h = sector (dk_hw s) \<and>
      length (block bd (dk_hw s) b) = unat (bd_blk_size bd)"
proof -
  have ok: "bd_ok s" and rdy: "ready (dk_hw s)" using s by (simp_all add: served_def)
  have "unat b < unat (bd_nblk bd)" using b by (simp add: word_less_nat_alt)
  from drv_read_one [OF rdy served_dev [OF s r] this dst] obtain h where
    h: "drv_read bd dst (b + bd_part_base bd) 1 s =
      Ret (0, block bd (dk_hw s) b @ drop (unat (bd_blk_size bd)) dst, s\<lparr>dk_hw := h\<rparr>)" "ready h"
      "sector h = sector (dk_hw s)" "length (block bd (dk_hw s) b) = unat (bd_blk_size bd)" by blast
  have le: "\<not> bd_nblk bd < b + 1" using inc_le [OF b] by (simp add: not_less add.commute)
  have "blkdev_rd r dst b 1 s = drv_read bd dst (b + bd_part_base bd) 1 s"
  proof (cases r)
    case (Dev i)
    then have i: "i < length (dk_slots s)" "bd = fst (dk_slots s ! i)" using r by (auto split: if_splits)
    then have "bd_part_base bd = 0" using s by (simp add: served_def)
    then show ?thesis using blkdev_rd_dev [OF ok i(1), of dst b 1] le i(2) Dev by simp
  next
    case (Part i j)
    then have i: "i < length (dk_slots s)" "j < length (snd (dk_slots s ! i))" "bd = snd (dk_slots s ! i) ! j"
      using r by (auto split: if_splits)
    then show ?thesis using blkdev_rd_part [OF ok i(1,2), of dst b 1] le Part by (simp add: Let_def)
  qed
  then show ?thesis using h served_hw [OF s h(2)] by auto
qed

end

subsection \<open>A disk in memory to run on\<close>

definition ram_rd :: "(unit, u64 \<Rightarrow> u8 list) rd_fn" where
  "ram_rd d b n h = Ret (0, concat (map (\<lambda>i. h (b + of_nat i)) [0..<unat n]), h)"

definition ram_dev :: "u64 \<Rightarrow> (unit, u64 \<Rightarrow> u8 list) blkdev" where
  "ram_dev nblk = \<lparr>bd_driver_data = (), bd_rd = Some ram_rd, bd_wr = None, bd_children = 0x1000,
     bd_part_base = 0, bd_flags = 0, bd_dev_type = BDT_DISK_DRIVE, bd_driver = BD_ATA_PIO,
     bd_blk_size = 2, bd_nblk = nblk, bd_mutex = 0, bd_parent_mutex = None\<rparr>"

definition ram_disks :: "(unit, u64 \<Rightarrow> u8 list, unit) disks" where
  "ram_disks = \<lparr>dk_slots = [(ram_dev 100, [mk_part_of 0 (ram_dev 100) 10 20]), (ram_dev 7, [])],
     dk_hw = (\<lambda>b. [ucast b, 0xee]), dk_heap = ()\<rparr>"

lemma ram_disks_ok: "bd_ok ram_disks"
  by (auto simp: bd_ok_def ram_disks_def slot_ok_def part_ok_def mk_part_of_def ram_dev_def less_Suc_eq)

subsection \<open>Properties\<close>

text \<open>
  C28: a partition is a window on its device: a read that fits in the partition is the read of its
  device at the blocks shifted by the base of the partition, and these are blocks of the device.
\<close>
theorem partition_reads_device:
  assumes "bd_ok s" and "i < length (dk_slots s)" and "j < length (snd (dk_slots s ! i))"
    and "unat src + unat n \<le> unat (bd_nblk (snd (dk_slots s ! i) ! j))"
  shows "blkdev_rd (Part i j) dst src n s =
      blkdev_rd (Dev i) dst (src + bd_part_base (snd (dk_slots s ! i) ! j)) n s \<and>
    unat (src + bd_part_base (snd (dk_slots s ! i) ! j)) + unat n \<le> unat (bd_nblk (fst (dk_slots s ! i)))"
proof -
  let ?bd = "fst (dk_slots s ! i)" and ?c = "snd (dk_slots s ! i) ! j"
  have c: "part_ok i ?bd ?c" using assms(1-3) by (simp add: bd_ok_def slot_ok_def)
  have nb: "unat (bd_nblk ?bd) < 2 ^ 64" by (rule unat_u64_bound)
  have fit: "unat (bd_part_base ?c) + unat (bd_nblk ?c) \<le> unat (bd_nblk ?bd)" using c by (simp add: part_ok_def)
  have a: "unat (src + bd_part_base ?c) = unat src + unat (bd_part_base ?c)"
    using assms(4) fit nb by (intro unat_add_u64) linarith
  have "unat (src + n) = unat src + unat n"
    using assms(4) fit nb by (intro unat_add_u64) linarith
  then have p: "\<not> src + n > bd_nblk ?c" using assms(4) by (simp add: word_less_nat_alt)
  have "unat (src + bd_part_base ?c + n) = unat src + unat (bd_part_base ?c) + unat n"
    using a assms(4) fit nb by (subst unat_add_u64) auto
  then have d: "\<not> src + bd_part_base ?c + n > bd_nblk ?bd"
    using assms(4) fit by (simp add: word_less_nat_alt)
  have "drv_read ?c = (drv_read ?bd :: _ \<Rightarrow> _ \<Rightarrow> _ \<Rightarrow> ('a, 'b, 'c) disks \<Rightarrow> _)"
    using c by (simp add: fun_eq_iff drv_read_def part_ok_def cong: option.case_cong)
  then show ?thesis
    using a assms(4) fit p d
    by (simp add: blkdev_rd_part [OF assms(1-3)] blkdev_rd_dev [OF assms(1,2)] Let_def)
qed

theorem partition_reads_device_witness:
  "blkdev_rd (Part 0 0) [0, 0, 0, 0, 9] 3 2 ram_disks = blkdev_rd (Dev 0) [0, 0, 0, 0, 9] 13 2 ram_disks"
  using partition_reads_device [OF ram_disks_ok, of 0 0 3 2 "[0, 0, 0, 0, 9]"]
  by (simp add: ram_disks_def mk_part_of_def ram_dev_def)

text \<open>
  C27: \<open>blkdev_mk_part\<close> on a device, for any range, adds a partition with the range asked for, as its last child, or
  refuses and changes nothing: when there are 32 already, or when the end of the range is behind the device.  The end is
  computed in 64 bits: a range that wraps around is judged by its wrapped end, and then accepted
  although it leaves the device; exactly in this case the registry is not consistent afterwards.  Other devices are not
  touched and every mutex is free again.
\<close>
theorem blkdev_mk_part_correct:
  assumes "bd_ok s" and "i < length (dk_slots s)" and "dk_slots s ! i = (bd, cs)"
  shows "\<exists>r s'. blkdev_mk_part (Dev i) base limit s = Ret (r, s') \<and>
    (if length cs < BLKDEV_MAX_PARTS \<and> (unat base + unat limit) mod 2 ^ 64 \<le> unat (bd_nblk bd)
     then r = Some (Part i (length cs)) \<and>
       s' = s\<lparr>dk_slots := (dk_slots s)[i := (bd, cs @ [mk_part_of i bd base limit])]\<rparr>
     else r = None \<and> s' = s) \<and>
    (bd_ok s' \<longleftrightarrow> r = None \<or> unat base + unat limit \<le> unat (bd_nblk bd))"
proof -
  note r = blkdev_mk_part_dev [OF assms(1,2), of base limit, unfolded assms(3) prod.case]
  have "unat (base + limit) = (unat base + unat limit) mod 2 ^ 64" by (simp add: unat_word_ariths)
  then have le: "base + limit > bd_nblk bd \<longleftrightarrow> unat (bd_nblk bd) < (unat base + unat limit) mod 2 ^ 64"
    by (simp add: word_less_nat_alt)
  have nb: "unat (bd_nblk bd) < 2 ^ 64" by (rule unat_u64_bound)
  show ?thesis
  proof (cases "length cs < BLKDEV_MAX_PARTS \<and> (unat base + unat limit) mod 2 ^ 64 \<le> unat (bd_nblk bd)")
    case False
    then have "length cs \<ge> BLKDEV_MAX_PARTS \<or> base + limit > bd_nblk bd" using le by auto
    then show ?thesis using False r assms(1) by simp
  next
    case True
    let ?s = "s\<lparr>dk_slots := (dk_slots s)[i := (bd, cs @ [mk_part_of i bd base limit])]\<rparr>"
    have ret: "blkdev_mk_part (Dev i) base limit s = Ret (Some (Part i (length cs)), ?s)" using True r le by simp
    have "bd_ok ?s \<longleftrightarrow> unat base + unat limit \<le> unat (bd_nblk bd)"
    proof
      assume "bd_ok ?s"
      then have "slot_ok i (bd, cs @ [mk_part_of i bd base limit])" using assms(2) by (auto simp: bd_ok_def dest!: spec [of _ i])
      then show "unat base + unat limit \<le> unat (bd_nblk bd)" by (simp add: slot_ok_def part_ok_def mk_part_of_def)
    next
      assume "unat base + unat limit \<le> unat (bd_nblk bd)"
      then show "bd_ok ?s" using blkdev_mk_part_ok [OF assms(1,2) _ ret] nb by linarith
    qed
    then show ?thesis using True ret by simp
  qed
qed

theorem blkdev_mk_part_correct_witness:
  "(\<exists>s'. blkdev_mk_part (Dev 0) 50 51 ram_disks = Ret (None, s') \<and> s' = ram_disks) \<and>
   (\<exists>s'. blkdev_mk_part (Dev 0) (- 10) 20 ram_disks = Ret (Some (Part 0 1), s') \<and> \<not> bd_ok s')"
proof -
  have l: "0 < length (dk_slots ram_disks)" "dk_slots ram_disks ! 0 = (ram_dev 100, [mk_part_of 0 (ram_dev 100) 10 20])"
    by (simp_all add: ram_disks_def)
  have u: "unat (- 10 :: u64) = 18446744073709551606" by simp
  show ?thesis
    using blkdev_mk_part_correct [OF ram_disks_ok l, of 50 51] blkdev_mk_part_correct [OF ram_disks_ok l, of "- 10" 20] u
    by (auto simp: ram_dev_def)
qed

text \<open>
  \<open>blkdev_get_which\<close> and \<open>blkdev_get\<close> are inverse: the number of a registered device among those
  of its type and driver looks it up again.
\<close>
theorem blkdev_get_which_roundtrip:
  assumes "i < length (dk_slots s)"
  shows "\<exists>w. blkdev_get_which (Dev i) s = Ret w \<and>
    blkdev_get (bd_dev_type (fst (dk_slots s ! i))) (bd_driver (fst (dk_slots s ! i))) w s = Some (Dev i)"
proof -
  let ?bd = "fst (dk_slots s ! i)"
  have "blkdev_get_which (Dev i) s = Ret (length (filter (\<lambda>sl. bd_kind sl = (bd_dev_type ?bd, bd_driver ?bd))
      (take i (dk_slots s))))"
    using assms blkdev_get_which_from_count [of "dk_slots s" 0 i ?bd 0]
    by (simp add: blkdev_get_which_def bd_get_def)
  moreover have "bd_kind (dk_slots s ! i) = (bd_dev_type ?bd, bd_driver ?bd)" by (simp add: bd_kind_def)
  ultimately show ?thesis using assms by (simp add: blkdev_get_def blkdev_get_from_count)
qed

theorem blkdev_get_which_roundtrip_witness:
  "\<exists>w. blkdev_get_which (Dev 1) ram_disks = Ret w \<and> blkdev_get BDT_DISK_DRIVE BD_ATA_PIO w ram_disks = Some (Dev 1)"
  using blkdev_get_which_roundtrip [of 1 ram_disks] by (simp add: ram_disks_def ram_dev_def)

text \<open>
  The code a driver returns is lost: whenever the bound check passes and the driver's function
  returns, with any code, \<open>blkdev_rd\<close> returns 0 and the destination has whatever the driver wrote.
\<close>
theorem blkdev_rd_ignores_driver_error:
  assumes "bd_ok s" and "i < length (dk_slots s)" and "src + n \<le> bd_nblk (fst (dk_slots s ! i))"
    and "bd_rd (fst (dk_slots s ! i)) = Some rd"
    and "rd (bd_driver_data (fst (dk_slots s ! i))) src n (dk_hw s) = Ret (rc, [], hw)"
  shows "blkdev_rd (Dev i) dst src n s = Ret (0, dst, s\<lparr>dk_hw := hw\<rparr>)"
  using assms(3-5) by (simp add: blkdev_rd_dev [OF assms(1,2)] drv_read_def buf_write_def not_less)

theorem blkdev_rd_ignores_driver_error_witness:
  "\<exists>(s :: (unit, u64 \<Rightarrow> u8 list, unit) disks) s'. blkdev_rd (Dev 0) [1, 2] 0 1 s = Ret (0, [1, 2], s') \<and>
     (\<exists>rd. bd_rd (fst (dk_slots s ! 0)) = Some rd \<and> rd () 0 1 (dk_hw s) = Ret (1, [], dk_hw s))"
proof -
  let ?rd = "\<lambda>d b n h. Ret (1 :: int, [], h)"
  let ?s = "\<lparr>dk_slots = [((ram_dev 100)\<lparr>bd_rd := Some ?rd\<rparr>, [])], dk_hw = (\<lambda>_. []), dk_heap = ()\<rparr>"
  have "bd_ok ?s" by (simp add: bd_ok_def slot_ok_def ram_dev_def)
  from blkdev_rd_ignores_driver_error [OF this, of 0 0 1 ?rd 1 "\<lambda>_. []" "[1, 2]"]
  have "blkdev_rd (Dev 0) [1, 2] 0 1 ?s = Ret (0, [1, 2], ?s)" by (simp add: ram_dev_def)
  moreover have "bd_rd (fst (dk_slots ?s ! 0)) = Some ?rd" by simp
  ultimately show ?thesis by (intro exI [of _ ?s]) auto
qed

end
