(* ===== verification/Blk_Cache.thy ===== *)
theory Blk_Cache
  imports Blkdev
begin

section \<open>Cached reads of bytes (blk_cache.c)\<close>

text \<open>
  A cache of one block over a device.  \<open>bc_buf\<close> is the buffer from the kernel heap; NULL is a
  buffer without any byte, and what a new buffer holds is whatever memory holds, the argument
  \<open>junk\<close>.  Reading or writing behind the end of a buffer is a fault.  \<open>byte_reader\<close> is what the
  file system relies on, reads that stay inside one block; it holds over every driver, which is
  the sublocale at the end of the lemmas.
\<close>

record blk_cache =
  bc_blkdev :: bd_ref
  bc_buf :: "u8 list"
  bc_loaded_blk :: blk_addr_t
  bc_mutex :: k_mutex_t

subsection \<open>The operations\<close>

definition heap_buf :: "(u64 \<Rightarrow> u8) \<Rightarrow> u64 \<Rightarrow> u64 \<Rightarrow> u8 list" where
  "heap_buf junk p n = (if p = 0 then [] else map (\<lambda>i. junk (p + of_nat i)) [0..<unat n])"

text \<open>\<open>ku_memcpy(dst, &buf[off], n)\<close>.\<close>

definition copy_out :: "u8 list \<Rightarrow> u64 \<Rightarrow> u64 \<Rightarrow> u8 list \<Rightarrow> u8 list exec" where
  "copy_out buf off n dst =
     (if unat off + unat n \<le> length buf then buf_write (take (unat n) (drop (unat off) buf)) dst else Fault)"

definition blk_cache_create :: "(u64 \<Rightarrow> 'k \<Rightarrow> (u64 \<times> 'k) exec) \<Rightarrow> (u64 \<Rightarrow> u8) \<Rightarrow> bd_ref \<Rightarrow>
    ('d, 'h, 'k) disks \<Rightarrow> (blk_cache \<times> ('d, 'h, 'k) disks) exec" where
  "blk_cache_create kalloc junk r s =
     seq (bd_get r s) (\<lambda>bd.
     seq (kalloc (bd_blk_size bd) (dk_heap s)) (\<lambda>(p, k).
     Ret (\<lparr>bc_blkdev = r, bc_buf = heap_buf junk p (bd_blk_size bd), bc_loaded_blk = bd_nblk bd,
           bc_mutex = 0\<rparr>, s\<lparr>dk_heap := k\<rparr>)))"

definition bc_unlock :: "blk_cache \<Rightarrow> blk_cache exec" where
  "bc_unlock c = seq (k_mutex_unlock (bc_mutex c)) (\<lambda>m. Ret (c\<lparr>bc_mutex := m\<rparr>))"

definition blk_cache_rd :: "(u64 \<Rightarrow> 'k \<Rightarrow> (u64 \<times> 'k) exec) \<Rightarrow> (u64 \<Rightarrow> u8) \<Rightarrow> blk_cache \<Rightarrow> u8 list \<Rightarrow>
    u64 \<Rightarrow> u64 \<Rightarrow> ('d, 'h, 'k) disks \<Rightarrow> (int \<times> u8 list \<times> blk_cache \<times> ('d, 'h, 'k) disks) exec" where
  "blk_cache_rd kalloc junk c dst addr n s =
     (if n = 0 then Ret (0, dst, c, s)
      else
        seq (k_mutex_lock (bc_mutex c)) (\<lambda>m.
        let c = c\<lparr>bc_mutex := m\<rparr>; r = bc_blkdev c in
        seq (bd_get r s) (\<lambda>bd.
        let bs = bd_blk_size bd in
        if bs = 0 then Fault
        else
          let lba_lb = addr div bs; lba_ub = (addr + n - 1) div bs; byte_addr = addr mod bs in
          if lba_lb \<noteq> lba_ub then
            let cnt = (n + bs - 1) div bs in
            seq (kalloc (bs * cnt) (dk_heap s)) (\<lambda>(p, k).
            let s = s\<lparr>dk_heap := k\<rparr> in
            seq (blkdev_rd r (heap_buf junk p (bs * cnt)) lba_lb cnt s) (\<lambda>(rc, rd_buf, s).
            if rc \<noteq> 0 then seq (bc_unlock c) (\<lambda>c. Ret (1, dst, c, s))
            else
              seq (copy_out rd_buf byte_addr n dst) (\<lambda>dst.
              seq (bc_unlock c) (\<lambda>c. Ret (0, dst, c, s)))))
          else if lba_lb \<noteq> bc_loaded_blk c then
            seq (blkdev_rd r (bc_buf c) lba_lb 1 s) (\<lambda>(rc, buf, s).
            let c = c\<lparr>bc_buf := buf\<rparr> in
            if rc \<noteq> 0 then seq (bc_unlock c) (\<lambda>c. Ret (1, dst, c, s))
            else
              let c = c\<lparr>bc_loaded_blk := lba_lb\<rparr> in
              seq (copy_out buf byte_addr n dst) (\<lambda>dst.
              seq (bc_unlock c) (\<lambda>c. Ret (0, dst, c, s))))
          else
            seq (copy_out (bc_buf c) byte_addr n dst) (\<lambda>dst.
            seq (bc_unlock c) (\<lambda>c. Ret (0, dst, c, s))))))"

subsection \<open>The interface of a reader of bytes\<close>

locale byte_reader =
  fixes crd :: "blk_cache \<Rightarrow> u8 list \<Rightarrow> u64 \<Rightarrow> u64 \<Rightarrow> 'w \<Rightarrow> (int \<times> u8 list \<times> blk_cache \<times> 'w) exec"
    and good :: "blk_cache \<Rightarrow> 'w \<Rightarrow> bool"
    and content :: "blk_cache \<Rightarrow> 'w \<Rightarrow> nat \<Rightarrow> u8"
    and bsize :: "blk_cache \<Rightarrow> 'w \<Rightarrow> nat"
    and total :: "blk_cache \<Rightarrow> 'w \<Rightarrow> nat"
  assumes crd_law: "good c w \<Longrightarrow> n \<noteq> 0 \<Longrightarrow> unat n \<le> length dst \<Longrightarrow> unat addr + unat n \<le> total c w \<Longrightarrow>
      unat addr mod bsize c w + unat n \<le> bsize c w \<Longrightarrow>
      \<exists>c' w'. crd c dst addr n w =
          Ret (0, map (content c w) [unat addr..<unat addr + unat n] @ drop (unat n) dst, c', w') \<and>
        good c' w' \<and> content c' w' = content c w \<and> bsize c' w' = bsize c w \<and> total c' w' = total c w"

subsection \<open>The cache is coherent\<close>

lemma bc_unlock_held [simp]: "bc_mutex c = 1 \<Longrightarrow> bc_unlock c = Ret (c\<lparr>bc_mutex := 0\<rparr>)"
  by (simp add: bc_unlock_def)

lemma map_nth_range: "off + n \<le> length xs \<Longrightarrow> map (\<lambda>i. xs ! i) [off..<off + n] = take n (drop off xs)"
  by (rule nth_equalityI) simp_all

lemma in_one_block:
  assumes n: "(n :: u64) \<noteq> 0" and small: "unat addr + unat n < 2 ^ 64"
    and blk: "unat addr mod unat bs + unat n \<le> unat bs"
  shows "(addr + n - 1) div bs = addr div bs"
proof -
  have n0: "0 < unat n" using n by (simp add: unat_gt_0)
  have u: "unat (addr + n) = unat addr + unat n" using small by (rule unat_add_u64)
  then have "1 \<le> addr + n" using n0 by (simp add: word_le_nat_alt)
  then have "unat (addr + n - 1) = unat addr + unat n - 1" using u by (simp add: unat_sub_u64)
  moreover have "unat addr + unat n - 1 = unat addr mod unat bs + (unat n - 1) + unat addr div unat bs * unat bs"
    using n0 mod_div_mult_eq [of "unat addr" "unat bs"] by linarith
  moreover have "unat addr mod unat bs + (unat n - 1) < unat bs" using blk n0 by linarith
  ultimately have "unat (addr + n - 1) div unat bs = unat addr div unat bs" using quot_rem(1) by metis
  then show ?thesis by (simp add: u64_eq_iff_unat unat_div)
qed

locale cached_driver = blk_driver rd ready valid sector bsize cap
  for rd :: "('d, 'h) rd_fn" and ready :: "'h \<Rightarrow> bool" and valid :: "'d \<Rightarrow> bool"
    and sector :: "'h \<Rightarrow> 'd \<Rightarrow> u64 \<Rightarrow> u8 list" and bsize :: "'d \<Rightarrow> nat" and cap :: "'d \<Rightarrow> nat" +
  fixes kalloc :: "u64 \<Rightarrow> 'k \<Rightarrow> (u64 \<times> 'k) exec" and junk :: "u64 \<Rightarrow> u8"
begin

definition bc_dev :: "blk_cache \<Rightarrow> ('d, 'h, 'k) disks \<Rightarrow> ('d, 'h) blkdev" where
  "bc_dev c s = the (bd_at (bc_blkdev c) (dk_slots s))"

definition bc_bsize :: "blk_cache \<Rightarrow> ('d, 'h, 'k) disks \<Rightarrow> nat" where
  "bc_bsize c s = unat (bd_blk_size (bc_dev c s))"

definition bc_total :: "blk_cache \<Rightarrow> ('d, 'h, 'k) disks \<Rightarrow> nat" where
  "bc_total c s = unat (bd_nblk (bc_dev c s)) * bc_bsize c s"

definition bc_byte :: "blk_cache \<Rightarrow> ('d, 'h, 'k) disks \<Rightarrow> nat \<Rightarrow> u8" where
  "bc_byte c s a = block (bc_dev c s) (dk_hw s) (of_nat (a div bc_bsize c s)) ! (a mod bc_bsize c s)"

text \<open>When a block of the device is loaded, the buffer is that block.\<close>

definition bc_ok :: "blk_cache \<Rightarrow> ('d, 'h, 'k) disks \<Rightarrow> bool" where
  "bc_ok c s \<longleftrightarrow> served s \<and> bc_mutex c = 0 \<and> bd_at (bc_blkdev c) (dk_slots s) \<noteq> None \<and>
     0 < bc_bsize c s \<and> bc_total c s < 2 ^ 64 \<and> length (bc_buf c) = bc_bsize c s \<and>
     (bc_loaded_blk c < bd_nblk (bc_dev c s) \<longrightarrow>
        bc_buf c = block (bc_dev c s) (dk_hw s) (bc_loaded_blk c))"

lemma in_block_range:
  assumes "A mod bs + n \<le> (bs :: nat)" "0 < n"
  shows "map (\<lambda>a. f (a div bs) (a mod bs)) [A..<A + n] = map (f (A div bs)) [A mod bs..<A mod bs + n]"
proof (rule nth_equalityI)
  fix i assume "i < length (map (\<lambda>a. f (a div bs) (a mod bs)) [A..<A + n])"
  then have i: "i < n" by simp
  have "(A + i) div bs = A div bs" "(A + i) mod bs = A mod bs + i"
  proof -
    have eq: "A + i = A mod bs + i + A div bs * bs" by simp
    have lt: "A mod bs + i < bs" using i assms(1) by simp
    show "(A + i) div bs = A div bs" "(A + i) mod bs = A mod bs + i"
      unfolding eq using quot_rem [OF lt] by blast+
  qed
  then show "map (\<lambda>a. f (a div bs) (a mod bs)) [A..<A + n] ! i = map (f (A div bs)) [A mod bs..<A mod bs + n] ! i"
    using i by simp
qed simp

text \<open>The bytes of a range in one block, as the copy out of the loaded buffer has them.\<close>

lemma bc_bytes_in_block:
  assumes at: "bc_dev c s = bd" "bs = bd_blk_size bd" and n: "n \<noteq> 0"
    and blk: "unat addr mod unat bs + unat n \<le> unat bs" and len: "length (block bd (dk_hw s) (addr div bs)) = unat bs"
    and dst: "unat n \<le> length dst"
  shows "copy_out (block bd (dk_hw s) (addr div bs)) (addr mod bs) n dst =
    Ret (map (bc_byte c s) [unat addr..<unat addr + unat n] @ drop (unat n) dst)"
proof -
  let ?b = "block bd (dk_hw s) (addr div bs)"
  have bsz: "bc_bsize c s = unat bs" by (simp add: bc_bsize_def at)
  have n0: "0 < unat n" using n by (simp add: unat_gt_0)
  have "of_nat (unat addr div unat bs) = addr div bs" by (simp flip: unat_div)
  then have "map (bc_byte c s) [unat addr..<unat addr + unat n] =
      map (\<lambda>a. ?b ! a) [unat addr mod unat bs..<unat addr mod unat bs + unat n]"
    using in_block_range [OF blk n0, of "\<lambda>q r. block bd (dk_hw s) (of_nat q) ! r"]
    by (simp add: bc_byte_def [abs_def] bsz at(1))
  also have "\<dots> = take (unat n) (drop (unat addr mod unat bs) ?b)"
    using blk len by (intro map_nth_range) simp
  finally show ?thesis using blk len dst by (simp add: copy_out_def unat_mod buf_write_def)
qed

text \<open>A cache that loads another block of its device stays coherent, and serves the same bytes.\<close>

lemma bc_ok_load:
  assumes ok: "bc_ok c s" and h: "served (s\<lparr>dk_hw := h\<rparr>)" "sector h = sector (dk_hw s)"
    and len: "length (block (bc_dev c s) (dk_hw s) b) = bc_bsize c s"
  defines "c' \<equiv> c\<lparr>bc_buf := block (bc_dev c s) (dk_hw s) b, bc_loaded_blk := b\<rparr>"
  shows "bc_ok c' (s\<lparr>dk_hw := h\<rparr>) \<and> bc_byte c' (s\<lparr>dk_hw := h\<rparr>) = bc_byte c s \<and>
    bc_bsize c' (s\<lparr>dk_hw := h\<rparr>) = bc_bsize c s \<and> bc_total c' (s\<lparr>dk_hw := h\<rparr>) = bc_total c s"
proof -
  have same: "block bd h = block bd (dk_hw s)" for bd by (simp add: fun_eq_iff block_def h(2))
  have dev: "bc_dev c' (s\<lparr>dk_hw := h\<rparr>) = bc_dev c s" by (simp add: bc_dev_def c'_def)
  then show ?thesis
    using ok h(1) len same
    by (simp add: fun_eq_iff bc_ok_def bc_byte_def bc_bsize_def bc_total_def) (simp add: c'_def)
qed

lemma blk_cache_rd_in_block:
  assumes ok: "bc_ok c s" and n: "n \<noteq> 0" and dst: "unat n \<le> length dst"
    and tot: "unat addr + unat n \<le> bc_total c s" and blk: "unat addr mod bc_bsize c s + unat n \<le> bc_bsize c s"
  shows "\<exists>c' s'. blk_cache_rd kalloc junk c dst addr n s =
      Ret (0, map (bc_byte c s) [unat addr..<unat addr + unat n] @ drop (unat n) dst, c', s') \<and>
    bc_ok c' s' \<and> bc_byte c' s' = bc_byte c s \<and> bc_bsize c' s' = bc_bsize c s \<and> bc_total c' s' = bc_total c s"
proof -
  define bd where "bd = bc_dev c s"
  define bs where "bs = bd_blk_size bd"
  define b where "b = addr div bs"
  have srv: "served s" and at: "bd_at (bc_blkdev c) (dk_slots s) = Some bd" and m: "bc_mutex c = 0"
    and bs_nz: "bs \<noteq> 0" and small: "unat (bd_nblk bd) * unat bs < 2 ^ 64" and len: "length (bc_buf c) = unat bs"
    and coh: "bc_loaded_blk c < bd_nblk bd \<Longrightarrow> bc_buf c = block bd (dk_hw s) (bc_loaded_blk c)"
    using ok by (auto simp: bc_ok_def bc_total_def bc_bsize_def bd_def bs_def bc_dev_def)
  have bsz: "bc_bsize c s = unat bs" by (simp add: bc_bsize_def bd_def bs_def)
  note tot' = tot [unfolded bc_total_def bsz, folded bd_def] and blk' = blk [unfolded bsz]
  have same: "(addr + n - 1) div bs = b"
    unfolding b_def using tot' small by (intro in_one_block [OF n _ blk']) linarith
  have "0 < unat n" using n by (simp add: unat_gt_0)
  then have "unat addr < unat (bd_nblk bd) * unat bs" using tot' by linarith
  then have bn: "b < bd_nblk bd" by (simp add: word_less_nat_alt b_def unat_div less_mult_imp_div_less)
  let ?out = "map (bc_byte c s) [unat addr..<unat addr + unat n]"
  note copy = bc_bytes_in_block [OF bd_def [symmetric] bs_def n blk' _ dst, folded b_def]
  have g: "bd_get (bc_blkdev c) s = Ret bd" using at by (simp add: bd_get_def)
  show ?thesis
  proof (cases "b = bc_loaded_blk c")
    case True
    then have buf: "bc_buf c = block bd (dk_hw s) b" using coh bn by simp
    have c': "c\<lparr>bc_mutex := 1, bc_mutex := 0\<rparr> = c" using m by simp
    have "blk_cache_rd kalloc junk c dst addr n s = Ret (0, ?out @ drop (unat n) dst, c, s)"
      using n m g bs_nz same True copy [folded buf, OF len] c'
      by (simp add: blk_cache_rd_def flip: bs_def b_def)
    then show ?thesis using ok by blast
  next
    case False
    obtain h where h: "blkdev_rd (bc_blkdev c) (bc_buf c) b 1 s =
        Ret (0, block bd (dk_hw s) b @ drop (unat bs) (bc_buf c), s\<lparr>dk_hw := h\<rparr>)"
      "served (s\<lparr>dk_hw := h\<rparr>)" "sector h = sector (dk_hw s)" "length (block bd (dk_hw s) b) = unat bs"
      using blkdev_rd_one [OF srv at bn, of "bc_buf c"] len by (auto simp: bs_def)
    let ?c = "c\<lparr>bc_buf := block bd (dk_hw s) b, bc_loaded_blk := b\<rparr>"
    have c': "c\<lparr>bc_mutex := 1, bc_buf := block bd (dk_hw s) b, bc_loaded_blk := b, bc_mutex := 0\<rparr> = ?c" using m by simp
    have "blk_cache_rd kalloc junk c dst addr n s = Ret (0, ?out @ drop (unat n) dst, ?c, s\<lparr>dk_hw := h\<rparr>)"
      using n m g bs_nz same False copy [OF h(4)] c' h(1) len
      by (simp add: blk_cache_rd_def flip: bs_def b_def)
    then show ?thesis using bc_ok_load [OF ok h(2,3), of b] h(4) by (simp add: bsz flip: bd_def)
  qed
qed

end

sublocale cached_driver \<subseteq> byte_reader "blk_cache_rd kalloc junk" bc_ok bc_byte bc_bsize bc_total
  by unfold_locales (rule blk_cache_rd_in_block)

subsection \<open>Properties\<close>

lemma buf_write_length: "buf_write out dst = Ret dst' \<Longrightarrow> length dst' = length dst"
  by (auto simp: buf_write_def split: if_splits)

lemma blkdev_rd_length: "blkdev_rd r dst src n s = Ret (rc, dst', s') \<Longrightarrow> length dst' = length dst"
  by (auto simp: blkdev_rd_def Let_def seq_Ret_iff split: if_splits option.splits dest: buf_write_length)

lemma heap_buf_length: "length (heap_buf junk p n) \<le> unat n"
  by (simp add: heap_buf_def)

definition demo_cache :: blk_cache where
  "demo_cache = \<lparr>bc_blkdev = Dev 0, bc_buf = [0x55, 0x55], bc_loaded_blk = 100, bc_mutex = 0\<rparr>"

definition demo_kalloc :: "u64 \<Rightarrow> unit \<Rightarrow> (u64 \<times> unit) exec" where
  "demo_kalloc n k = Ret (0x2000, k)"

text \<open>
  C38: reads across blocks are rounded wrongly: the number of blocks is computed from the size alone.  When
  the offset in the first block pushes the end of the read into one block more, the cache asks the device for a
  block too few, into a buffer of as many; and when the device reports success, the copy that follows leaves
  the buffer and reads behind its end.  Only a read that the device refuses comes back, with code 1 and the destination as it was.
\<close>
theorem blk_cache_rd_overreads:
  assumes "bd_at (bc_blkdev c) (dk_slots s) = Some bd" and "bc_mutex c = 0" and "n \<noteq> 0" and "bd_blk_size bd \<noteq> 0"
    and "addr div bd_blk_size bd \<noteq> (addr + n - 1) div bd_blk_size bd"
    and "cnt = (n + bd_blk_size bd - 1) div bd_blk_size bd" and "kalloc (bd_blk_size bd * cnt) (dk_heap s) = Ret (p, k)"
    and "unat (bd_blk_size bd * cnt) < unat (addr mod bd_blk_size bd) + unat n"
  shows "blk_cache_rd kalloc junk c dst addr n s =
    (case blkdev_rd (bc_blkdev c) (heap_buf junk p (bd_blk_size bd * cnt)) (addr div bd_blk_size bd) cnt (s\<lparr>dk_heap := k\<rparr>) of
       Ret (rc, rd_buf, s') \<Rightarrow> if rc \<noteq> 0 then Ret (1, dst, c, s') else Fault
     | Spin \<Rightarrow> Spin | Fault \<Rightarrow> Fault)"
proof -
  let ?buf = "heap_buf junk p (bd_blk_size bd * cnt)"
  let ?rd = "blkdev_rd (bc_blkdev c) ?buf (addr div bd_blk_size bd) cnt (s\<lparr>dk_heap := k\<rparr>)"
  have c: "c\<lparr>bc_mutex := 1, bc_mutex := 0\<rparr> = c" using assms(2) by simp
  have eq: "blk_cache_rd kalloc junk c dst addr n s = seq ?rd (\<lambda>(rc, rd_buf, s).
      if rc \<noteq> 0 then Ret (1, dst, c, s)
      else seq (copy_out rd_buf (addr mod bd_blk_size bd) n dst) (\<lambda>dst. Ret (0, dst, c, s)))"
    using assms(1-5,7) by (simp add: blk_cache_rd_def bd_get_def Let_def c flip: assms(6) cong: if_cong)
  show ?thesis
  proof (cases ?rd)
    case (Ret x)
    obtain rc rd_buf s' where x: "x = (rc, rd_buf, s')" by (cases x)
    have "length rd_buf \<le> unat (bd_blk_size bd * cnt)"
      using blkdev_rd_length [OF Ret [unfolded x]] heap_buf_length [of junk p "bd_blk_size bd * cnt"] by simp
    then have "copy_out rd_buf (addr mod bd_blk_size bd) n dst = Fault" using assms(8) by (simp add: copy_out_def)
    then show ?thesis unfolding eq using Ret x by simp
  qed (simp_all add: eq)
qed

theorem blk_cache_rd_overreads_witness:
  "blk_cache_rd demo_kalloc (\<lambda>_. 0) demo_cache [0, 0] 1 2 ram_disks = Fault \<and>
   (\<exists>s'. blk_cache_rd demo_kalloc (\<lambda>_. 0) demo_cache [0, 0] 201 2 ram_disks = Ret (1, [0, 0], demo_cache, s'))"
proof -
  let ?bd = "ram_dev 100"
  have bd: "bd_at (bc_blkdev demo_cache) (dk_slots ram_disks) = Some ?bd" "bc_mutex demo_cache = 0"
    by (simp_all add: demo_cache_def ram_disks_def)
  have k: "demo_kalloc (bd_blk_size ?bd * 1) (dk_heap ram_disks) = Ret (0x2000, ())" by (simp add: demo_kalloc_def)
  have l: "Suc 0 < length (dk_slots ram_disks)" "(0 :: nat) < length (dk_slots ram_disks)" by (simp_all add: ram_disks_def)
  have h: "ram_disks\<lparr>dk_heap := ()\<rparr> = ram_disks" by simp
  have f: "fst (dk_slots ram_disks ! 0) = ?bd" "bc_blkdev demo_cache = Dev 0" by (simp_all add: ram_disks_def demo_cache_def)
  have "blk_cache_rd demo_kalloc (\<lambda>_. 0) demo_cache [0, 0] 1 2 ram_disks = Fault"
    using blk_cache_rd_overreads [OF bd, of 2 1 1 demo_kalloc, OF _ _ _ _ k, of "\<lambda>_. 0" "[0, 0]"]
    by (simp add: f(2) h blkdev_rd_dev [OF ram_disks_ok l(2)] f(1))
      (simp add: ram_disks_def ram_dev_def drv_read_def ram_rd_def heap_buf_def buf_write_def)
  moreover have "blk_cache_rd demo_kalloc (\<lambda>_. 0) demo_cache [0, 0] 201 2 ram_disks = Ret (1, [0, 0], demo_cache, ram_disks)"
    using blk_cache_rd_overreads [OF bd, of 2 201 1 demo_kalloc, OF _ _ _ _ k, of "\<lambda>_. 0" "[0, 0]"]
    by (simp add: f(2) h blkdev_rd_dev [OF ram_disks_ok l(2)] f(1)) (simp add: ram_dev_def)
  ultimately show ?thesis by blast
qed

text \<open>
  The block number behind the device marks an empty cache, and nothing checks that a read stays
  on the device: a read at the end of the device returns 0 and what the buffer happens to hold,
  without asking the device.
\<close>
theorem blk_cache_rd_past_end:
  assumes "bd_at (bc_blkdev c) (dk_slots s) = Some bd" and "bc_mutex c = 0" and "n \<noteq> 0" and "n \<le> bd_blk_size bd"
    and "bc_loaded_blk c = bd_nblk bd" and "length (bc_buf c) = unat (bd_blk_size bd)"
    and "unat (bd_nblk bd) * unat (bd_blk_size bd) + unat (bd_blk_size bd) < 2 ^ 64" and "length dst = unat n"
  shows "blk_cache_rd kalloc junk c dst (bd_nblk bd * bd_blk_size bd) n s = Ret (0, take (unat n) (bc_buf c), c, s)"
proof -
  let ?bs = "bd_blk_size bd" and ?a = "bd_nblk bd * bd_blk_size bd"
  have n0: "0 < unat n" using assms(3) by (simp add: unat_gt_0)
  have nb: "unat n \<le> unat ?bs" using assms(4) by (simp add: word_le_nat_alt)
  have ua: "unat ?a = unat (bd_nblk bd) * unat ?bs" using assms(7) by (intro unat_mult_u64) linarith
  have bs0: "0 < unat ?bs" using n0 nb by linarith
  have "unat (?a + n) = unat ?a + unat n" using assms(7) nb ua by (intro unat_add_u64) linarith
  moreover from this have "1 \<le> ?a + n" using n0 by (simp add: word_le_nat_alt)
  ultimately have ub: "unat (?a + n - 1) = unat n - 1 + unat (bd_nblk bd) * unat ?bs"
    using ua n0 by (simp add: unat_sub_u64)
  have "unat n - 1 < unat ?bs" using n0 nb by linarith
  from quot_rem [OF this, of "unat (bd_nblk bd)"] have d: "(?a + n - 1) div ?bs = bd_nblk bd"
    unfolding u64_eq_iff_unat unat_div ub by blast
  have q: "?a div ?bs = bd_nblk bd" "?a mod ?bs = 0"
    using bs0 by (simp_all add: u64_eq_iff_unat unat_div unat_mod ua)
  have z: "?bs \<noteq> 0" using bs0 by auto
  have c: "c\<lparr>bc_mutex := 1, bc_mutex := 0\<rparr> = c" using assms(2) by simp
  show ?thesis
    using assms z nb c
    by (simp add: blk_cache_rd_def bd_get_def Let_def d q copy_out_def buf_write_def)
qed

theorem blk_cache_rd_past_end_witness:
  "blk_cache_rd demo_kalloc (\<lambda>_. 0) demo_cache [0] 200 1 ram_disks = Ret (0, [0x55], demo_cache, ram_disks)"
  using blk_cache_rd_past_end [of demo_cache ram_disks "ram_dev 100" 1 "[0]" demo_kalloc "\<lambda>_. 0"]
  by (simp add: demo_cache_def ram_disks_def ram_dev_def)

end
