(* ===== verification/Ata_Pio.thy ===== *)
theory Ata_Pio
  imports Ports Blk_Cache
begin

section \<open>The ATA PIO disk driver (ata_pio.c)\<close>

text \<open>
  The driver drives a disk through the registers of its bus: select the drive (skipped when the
  cache of selections says it is selected already), write the command block, poll the status, read
  the data port word by word.  The bus is the parameter of Ports.  A read returns its code and
  the bytes it left at the destination, from its start.  The theory ends with the contract of a
  disk on the bus and the interpretation of Blkdev's \<open>blk_driver\<close> by the driver.
\<close>

abbreviation MAX_BUSES :: nat where "MAX_BUSES \<equiv> 4"
abbreviation APDS_LBA :: u8 where "APDS_LBA \<equiv> 0x1"
abbreviation APDS_LBA_48 :: u8 where "APDS_LBA_48 \<equiv> 0x2"
abbreviation S_ERR :: u8 where "S_ERR \<equiv> 0x1"
abbreviation S_DRQ :: u8 where "S_DRQ \<equiv> 0x8"
abbreviation S_BSY :: u8 where "S_BSY \<equiv> 0x80"

abbreviation IR_DATA :: u16 where "IR_DATA \<equiv> 0"
abbreviation IR_SECTOR_CNT :: u16 where "IR_SECTOR_CNT \<equiv> 2"
abbreviation IR_SECTOR_NUM :: u16 where "IR_SECTOR_NUM \<equiv> 3"
abbreviation IR_CYL_LOW :: u16 where "IR_CYL_LOW \<equiv> 4"
abbreviation IR_CYL_HIGH :: u16 where "IR_CYL_HIGH \<equiv> 5"
abbreviation IR_DRIVE_SEL :: u16 where "IR_DRIVE_SEL \<equiv> 6"
abbreviation IR_STATUS :: u16 where "IR_STATUS \<equiv> 7"
abbreviation IR_CMD :: u16 where "IR_CMD \<equiv> 7"

record bus_info =
  bi_io_port :: u16
  bi_sel_dev_num :: u8
  bi_sel_data :: u8

record ata_pio_dev =
  ad_sector_size :: u64
  ad_nsector :: u64
  ad_bus_io_port :: u16
  ad_bus_ctl_port :: u16
  ad_dev_num :: u8
  ad_support :: u8

record 'b ata =
  at_cache :: "bus_info list"
  at_mutex :: k_mutex_t
  at_bus :: 'b

subsection \<open>The operations\<close>

fun bus_find :: "bus_info list \<Rightarrow> u16 \<Rightarrow> nat" where
  "bus_find [] io = 0"
| "bus_find (e # es) io = (if bi_io_port e = io then 0 else Suc (bus_find es io))"

definition sel_drive :: "'b bus \<Rightarrow> u16 \<Rightarrow> u8 \<Rightarrow> u8 \<Rightarrow> 'b ata \<Rightarrow> 'b ata exec" where
  "sel_drive bus io dev_num sel_data h =
     (let which = bus_find (at_cache h) io in
      if which < length (at_cache h) \<and> bi_sel_dev_num (at_cache h ! which) = dev_num
         \<and> bi_sel_data (at_cache h ! which) = sel_data then Ret h
      else if which < MAX_BUSES \<and> which = length (at_cache h) then
        let h = h\<lparr>at_cache := at_cache h @ [\<lparr>bi_io_port = io, bi_sel_dev_num = dev_num, bi_sel_data = sel_data\<rparr>],
                  at_bus := port_wr bus (io + IR_DRIVE_SEL) (ucast sel_data) PS_8 (at_bus h)\<rparr>
        in seq (ku_spin_cycles 1000) (\<lambda>_. Ret h)
      else if which \<ge> length (at_cache h) then Fault
      else if bi_sel_dev_num (at_cache h ! which) \<noteq> dev_num \<or> bi_sel_data (at_cache h ! which) \<noteq> sel_data
              \<or> which = MAX_BUSES then
        let h = (if which < MAX_BUSES
                 then h\<lparr>at_cache := (at_cache h)[which := (at_cache h ! which)
                          \<lparr>bi_sel_dev_num := dev_num, bi_sel_data := sel_data\<rparr>]\<rparr> else h);
            h = h\<lparr>at_bus := port_wr bus (io + IR_DRIVE_SEL) (ucast sel_data) PS_8 (at_bus h)\<rparr>
        in seq (ku_spin_cycles 1000) (\<lambda>_. Ret h)
      else Ret h)"

definition at_unlock :: "'b ata \<Rightarrow> 'b ata exec" where
  "at_unlock h = seq (k_mutex_unlock (at_mutex h)) (\<lambda>m. Ret (h\<lparr>at_mutex := m\<rparr>))"

text \<open>A sequence of register writes, in order.\<close>

definition out_regs :: "'b bus \<Rightarrow> u16 \<Rightarrow> port_size \<Rightarrow> (u16 \<times> u64) list \<Rightarrow> 'b \<Rightarrow> 'b" where
  "out_regs bus io sz rs b = fold (\<lambda>(r, v) b. port_wr bus (io + r) v sz b) rs b"

text \<open>\<open>for (i = 0; i < n; ++i) \<dots> = port_rd(io + IR_DATA, PS_16)\<close>.\<close>

fun rd_words :: "'b bus \<Rightarrow> u16 \<Rightarrow> nat \<Rightarrow> 'b \<Rightarrow> u16 list \<times> 'b" where
  "rd_words bus io 0 b = ([], b)"
| "rd_words bus io (Suc n) b =
     (let (v, b) = port_rd bus (io + IR_DATA) PS_16 b; (vs, b) = rd_words bus io n b in (ucast v # vs, b))"

text \<open>The waits of IDENTIFY: while busy, then until data or an error is reported.\<close>

partial_function (option) wait_bsy :: "'b bus \<Rightarrow> u16 \<Rightarrow> u8 \<Rightarrow> 'b \<Rightarrow> (u8 \<times> 'b) option" where
  "wait_bsy bus io status b =
     (if status AND S_BSY \<noteq> 0
      then (case port_rd_u8 bus (io + IR_STATUS) b of (v, b') \<Rightarrow> wait_bsy bus io v b')
      else Some (status, b))"

partial_function (option) wait_drq :: "'b bus \<Rightarrow> u16 \<Rightarrow> u8 \<Rightarrow> 'b \<Rightarrow> (u8 \<times> 'b) option" where
  "wait_drq bus io status b =
     (if status AND S_DRQ = 0 \<and> status AND S_ERR = 0
      then (case port_rd_u8 bus (io + IR_STATUS) b of (v, b') \<Rightarrow> wait_drq bus io v b')
      else Some (status, b))"

definition ata_identify_regs :: "(u16 \<times> u64) list" where
  "ata_identify_regs = [(IR_SECTOR_CNT, 0), (IR_SECTOR_NUM, 0), (IR_CYL_LOW, 0), (IR_CYL_HIGH, 0)]"

definition ata_support :: "u16 list \<Rightarrow> u64 \<Rightarrow> u8" where
  "ata_support id_buf nsector =
     (APDS_LBA OR APDS_LBA_48) * of_bool (id_buf ! 83 AND 0x400 \<noteq> 0) OR APDS_LBA * of_bool (nsector \<noteq> 0)"

definition ata_pio_dev_get :: "'b bus \<Rightarrow> ata_pio_dev \<Rightarrow> u16 \<Rightarrow> u16 \<Rightarrow> u8 \<Rightarrow> 'b ata \<Rightarrow>
    (int \<times> ata_pio_dev \<times> 'b ata) exec" where
  "ata_pio_dev_get bus out io ctl dev_num h =
     (let out = out\<lparr>ad_bus_io_port := io, ad_bus_ctl_port := ctl, ad_dev_num := dev_num, ad_support := 0\<rparr> in
      seq (k_mutex_lock (at_mutex h)) (\<lambda>m.
      seq (sel_drive bus io dev_num (0xa OR dev_num) (h\<lparr>at_mutex := m\<rparr>)) (\<lambda>h.
      let b = out_regs bus io PS_16 ata_identify_regs (at_bus h);
          b = out_regs bus io PS_8 ata_identify_regs b in
      seq (ku_spin_cycles 100) (\<lambda>_.
      let b = port_wr bus (io + IR_CMD) 0xec PS_8 b;
          (status, b) = port_rd_u8 bus (io + IR_STATUS) b in
      if status = 0 then seq (at_unlock (h\<lparr>at_bus := b\<rparr>)) (\<lambda>h. Ret (1, out, h))
      else
        seq (from_opt (wait_bsy bus io status b)) (\<lambda>(status, b).
        seq (from_opt (wait_drq bus io status b)) (\<lambda>(status, b).
        if status AND S_ERR \<noteq> 0 then seq (at_unlock (h\<lparr>at_bus := b\<rparr>)) (\<lambda>h. Ret (1, out, h))
        else
          let (id_buf, b) = rd_words bus io 256 b;
              nsector = ucast (id_buf ! 60) OR push_bit 16 (ucast (id_buf ! 61));
              out = out\<lparr>ad_sector_size := ucast (id_buf ! 51), ad_nsector := nsector\<rparr>;
              out = out\<lparr>ad_support := ad_support out OR ata_support id_buf nsector\<rparr> in
          if ad_support out AND APDS_LBA = 0
          then seq (at_unlock (h\<lparr>at_bus := b\<rparr>)) (\<lambda>h. Ret (1, out, h))
          else seq (at_unlock (h\<lparr>at_bus := b\<rparr>)) (\<lambda>h. Ret (0, out, h))))))))"

definition ata_pio_dev_id :: "'b bus \<Rightarrow> ata_pio_dev \<Rightarrow> 'b ata \<Rightarrow> (int \<times> u16 list \<times> 'b ata) exec" where
  "ata_pio_dev_id bus dev h =
     (let io = ad_bus_io_port dev; ps = (if ad_support dev AND APDS_LBA_48 \<noteq> 0 then PS_16 else PS_8) in
      seq (k_mutex_lock (at_mutex h)) (\<lambda>m.
      seq (sel_drive bus io (ad_dev_num dev) (0xa OR ad_dev_num dev) (h\<lparr>at_mutex := m\<rparr>)) (\<lambda>h.
      let b = out_regs bus io ps ata_identify_regs (at_bus h) in
      seq (ku_spin_cycles 100) (\<lambda>_.
      let b = port_wr bus (io + IR_CMD) 0xec PS_8 b;
          (status, b) = port_rd_u8 bus (io + IR_STATUS) b in
      seq (from_opt (wait_bsy bus io status b)) (\<lambda>(status, b).
      seq (from_opt (wait_drq bus io status b)) (\<lambda>(status, b).
      if status AND S_ERR \<noteq> 0 then seq (at_unlock (h\<lparr>at_bus := b\<rparr>)) (\<lambda>h. Ret (1, [], h))
      else
        let (id_buf, b) = rd_words bus io 256 b in
        seq (at_unlock (h\<lparr>at_bus := b\<rparr>)) (\<lambda>h. Ret (0, id_buf, h))))))))"

text \<open>\<open>while (status & S_BSY && !(status & S_ERR))\<close>.\<close>

partial_function (option) wait_rd :: "'b bus \<Rightarrow> u16 \<Rightarrow> u8 \<Rightarrow> 'b \<Rightarrow> (u8 \<times> 'b) option" where
  "wait_rd bus io status b =
     (if status AND S_BSY \<noteq> 0 \<and> status AND S_ERR = 0
      then (case port_rd_u8 bus (io + IR_STATUS) b of (v, b') \<Rightarrow> wait_rd bus io v b')
      else Some (status, b))"

definition word_bytes :: "u16 \<Rightarrow> u8 list" where
  "word_bytes w = [ucast w, ucast (drop_bit 8 w)]"

text \<open>
  The loop over the sectors with \<open>k\<close> rounds left; \<open>out\<close> is what the destination starts with.
  Every round stores its words at \<open>(uint16_t *)dst + j\<close>.
\<close>

fun ata_rd_sectors :: "'b bus \<Rightarrow> ata_pio_dev \<Rightarrow> nat \<Rightarrow> u8 list \<Rightarrow> 'b \<Rightarrow> (int \<times> u8 list \<times> 'b) exec" where
  "ata_rd_sectors bus dev 0 out b = Ret (0, out, b)"
| "ata_rd_sectors bus dev (Suc k) out b =
     (let (status, b) = port_rd_u8 bus (ad_bus_io_port dev + IR_STATUS) b in
      seq (from_opt (wait_rd bus (ad_bus_io_port dev) status b)) (\<lambda>(status, b).
      if status AND S_ERR \<noteq> 0 then Ret (1, out, b)
      else
        let (ws, b) = rd_words bus (ad_bus_io_port dev) (unat (ad_sector_size dev) div 2) b;
            bytes = concat (map word_bytes ws) in
        seq (ku_spin_cycles 1000) (\<lambda>_.
        ata_rd_sectors bus dev k (bytes @ drop (length bytes) out) b)))"

definition ata_cmd_regs :: "ata_pio_dev \<Rightarrow> u64 \<Rightarrow> u64 \<Rightarrow> (u16 \<times> u64) list" where
  "ata_cmd_regs dev src nsector =
     (if ad_support dev AND APDS_LBA_48 \<noteq> 0 then
        [(IR_SECTOR_CNT, drop_bit 8 nsector), (IR_SECTOR_NUM, drop_bit 24 src),
         (IR_CYL_LOW, drop_bit 32 src), (IR_CYL_HIGH, drop_bit 40 src),
         (IR_SECTOR_CNT, nsector), (IR_SECTOR_NUM, src),
         (IR_CYL_LOW, drop_bit 8 src), (IR_CYL_HIGH, drop_bit 16 src), (IR_CMD, 0x24)]
      else
        [(IR_SECTOR_CNT, nsector), (IR_SECTOR_NUM, src),
         (IR_CYL_LOW, drop_bit 8 src), (IR_CYL_HIGH, drop_bit 16 src), (IR_CMD, 0x20)])"

definition ata_rd_sel :: "ata_pio_dev \<Rightarrow> u8" where
  "ata_rd_sel dev = (if ad_support dev AND APDS_LBA_48 \<noteq> 0 then 0xe0 OR push_bit 4 (ad_dev_num dev)
     else 0x40 OR push_bit 4 (ad_dev_num dev))"

definition ata_max_sectors :: "ata_pio_dev \<Rightarrow> u64" where
  "ata_max_sectors dev = (if ad_support dev AND APDS_LBA_48 \<noteq> 0 then 0x10000 else 0x100)"

definition ata_pio_dev_rd :: "'b bus \<Rightarrow> ata_pio_dev \<Rightarrow> u64 \<Rightarrow> u64 \<Rightarrow> 'b ata \<Rightarrow> (int \<times> u8 list \<times> 'b ata) exec" where
  "ata_pio_dev_rd bus dev src nsector h =
     (if nsector = 0 then Ret (0, [], h)
      else if nsector > ata_max_sectors dev then Ret (1, [], h)
      else
        let nsector = (if nsector = ata_max_sectors dev then 0 else nsector) in
        seq (k_mutex_lock (at_mutex h)) (\<lambda>m.
        seq (sel_drive bus (ad_bus_io_port dev) (ad_dev_num dev) (ata_rd_sel dev) (h\<lparr>at_mutex := m\<rparr>)) (\<lambda>h.
        let b = out_regs bus (ad_bus_io_port dev) PS_8 (ata_cmd_regs dev src nsector) (at_bus h) in
        seq (ata_rd_sectors bus dev (unat nsector) [] b) (\<lambda>(rc, out, b).
        seq (at_unlock (h\<lparr>at_bus := b\<rparr>)) (\<lambda>h. Ret (rc, out, h))))))"

text \<open>Writing is not implemented in the source: it takes the mutex and fails.\<close>

definition ata_pio_dev_wr :: "'b bus \<Rightarrow> ata_pio_dev \<Rightarrow> u64 \<Rightarrow> u8 list \<Rightarrow> u64 \<Rightarrow> 'b ata \<Rightarrow> (int \<times> 'b ata) exec" where
  "ata_pio_dev_wr bus dev dst src nsector h =
     seq (k_mutex_lock (at_mutex h)) (\<lambda>m. seq (at_unlock (h\<lparr>at_mutex := m\<rparr>)) (\<lambda>h. Ret (1, h)))"

definition ata_pio_blkdev_rd :: "'b bus \<Rightarrow> (ata_pio_dev, 'b ata) rd_fn" where
  "ata_pio_blkdev_rd bus driver_data src n h = ata_pio_dev_rd bus driver_data src n h"

definition ata_pio_blkdev_wr :: "'b bus \<Rightarrow> (ata_pio_dev, 'b ata) wr_fn" where
  "ata_pio_blkdev_wr bus driver_data dst src n h = ata_pio_dev_wr bus driver_data dst src n h"

text \<open>\<open>*driver_data = *dev\<close> through a NULL pointer is a fault; \<open>sizeof(struct ata_pio_dev)\<close> is 24.\<close>

definition ata_pio_blkdev_create :: "(u64 \<Rightarrow> 'k \<Rightarrow> (u64 \<times> 'k) exec) \<Rightarrow> 'b bus \<Rightarrow> ata_pio_dev \<Rightarrow>
    (ata_pio_dev, 'b ata, 'k) disks \<Rightarrow> ((ata_pio_dev, 'b ata) blkdev \<times> (ata_pio_dev, 'b ata, 'k) disks) exec" where
  "ata_pio_blkdev_create kalloc bus dev s =
     seq (kalloc 24 (dk_heap s)) (\<lambda>(p, k).
     if p = 0 then Fault
     else blkdev_create kalloc dev (Some (ata_pio_blkdev_rd bus)) (Some (ata_pio_blkdev_wr bus))
            BDT_DISK_DRIVE BD_ATA_PIO 0 (ad_sector_size dev) (ad_nsector dev) (s\<lparr>dk_heap := k\<rparr>))"

text \<open>
  \<open>blkdevs_find\<close> of blkdev.c: probe both drives of both buses; \<open>dev0\<close> is what the uninitialised
  local holds.  The result says whether the loop returned early.
\<close>

definition ata_probe :: "(u16 \<times> u16 \<times> u8) list" where
  "ata_probe = [(0x1f0, 0x3f6, 0), (0x1f0, 0x3f6, 1), (0x170, 0x376, 0), (0x170, 0x376, 1)]"

fun blkdevs_probe :: "(u64 \<Rightarrow> 'k \<Rightarrow> (u64 \<times> 'k) exec) \<Rightarrow> 'b bus \<Rightarrow> ata_pio_dev \<Rightarrow> (u16 \<times> u16 \<times> u8) list \<Rightarrow>
    (ata_pio_dev, 'b ata, 'k) disks \<Rightarrow> (ata_pio_dev, 'b ata, 'k) disks exec" where
  "blkdevs_probe kalloc bus dev0 [] s = Ret s"
| "blkdevs_probe kalloc bus dev0 ((io, ctl, j) # ps) s =
     seq (ata_pio_dev_get bus dev0 io ctl j (dk_hw s)) (\<lambda>(rc, dev, h).
     let s = s\<lparr>dk_hw := h\<rparr> in
     if rc \<noteq> 0 then blkdevs_probe kalloc bus dev0 ps s
     else
       seq (ata_pio_blkdev_create kalloc bus dev s) (\<lambda>(bd, s).
       case blkdev_register bd s of
         (None, s) \<Rightarrow> Ret s
       | (Some r, s) \<Rightarrow> blkdevs_probe kalloc bus dev0 ps s))"

definition blkdevs_find :: "(u64 \<Rightarrow> 'k \<Rightarrow> (u64 \<times> 'k) exec) \<Rightarrow> 'b bus \<Rightarrow> ata_pio_dev \<Rightarrow>
    (ata_pio_dev, 'b ata, 'k) disks \<Rightarrow> (ata_pio_dev, 'b ata, 'k) disks exec" where
  "blkdevs_find kalloc bus dev0 s = blkdevs_probe kalloc bus dev0 ata_probe (s\<lparr>dk_slots := []\<rparr>)"

subsection \<open>A disk on the bus\<close>

text \<open>
  What the ATA standard says of a disk that works, as far as the driver depends on it.  The task
  file of a bus is the last value of each command block register, the one before it (the
  registers of the 48 bit commands are two deep), and the drive select register.  \<open>disk\<close> gives the
  words of a sector of the drive 0 or 1 of a bus; it is empty for a sector that is not there.
\<close>

record tfile =
  tf_reg :: "u16 \<Rightarrow> u8"
  tf_old :: "u16 \<Rightarrow> u8"
  tf_sel :: u8

definition tf_put :: "u16 \<Rightarrow> u8 \<Rightarrow> tfile \<Rightarrow> tfile" where
  "tf_put r v t = t\<lparr>tf_reg := (tf_reg t)(r := v), tf_old := (tf_old t)(r := tf_reg t r)\<rparr>"

text \<open>The two buses \<open>blkdevs_find\<close> probes; their register blocks do not overlap.\<close>

definition ata_buses :: "u16 set" where
  "ata_buses = {0x1f0, 0x170}"

text \<open>The addresses a READ SECTORS and a READ SECTORS EXT take from the task file.\<close>

definition lba28 :: "tfile \<Rightarrow> nat" where
  "lba28 t = unat (tf_reg t 3) + 256 * unat (tf_reg t 4) + 65536 * unat (tf_reg t 5) +
     16777216 * unat (tf_sel t AND 0xf)"

definition lba48 :: "tfile \<Rightarrow> nat" where
  "lba48 t = unat (tf_reg t 3) + 256 * unat (tf_reg t 4) + 65536 * unat (tf_reg t 5) +
     16777216 * unat (tf_old t 3) + 4294967296 * unat (tf_old t 4) + 1099511627776 * unat (tf_old t 5)"

text \<open>Polling the status register ends, in the state \<open>b'\<close> with the status \<open>v\<close>.\<close>

inductive polls :: "'b bus \<Rightarrow> u16 \<Rightarrow> 'b \<Rightarrow> u8 \<Rightarrow> 'b \<Rightarrow> bool" for bus :: "'b bus" and io :: u16 where
  poll_done: "port_rd_u8 bus (io + IR_STATUS) b = (v, b') \<Longrightarrow> v AND S_BSY = 0 \<or> v AND S_ERR \<noteq> 0 \<Longrightarrow>
    polls bus io b v b'"
| poll_more: "port_rd_u8 bus (io + IR_STATUS) b = (v, b1) \<Longrightarrow> v AND S_BSY \<noteq> 0 \<Longrightarrow> v AND S_ERR = 0 \<Longrightarrow>
    polls bus io b1 v' b' \<Longrightarrow> polls bus io b v' b'"

text \<open>After a read command: no error, the words of the sector, and idle again.\<close>

definition transfers :: "'b bus \<Rightarrow> ('b \<Rightarrow> bool) \<Rightarrow> ('b \<Rightarrow> u16 \<Rightarrow> tfile) \<Rightarrow> ('b \<Rightarrow> u16 \<Rightarrow> bool \<Rightarrow> nat \<Rightarrow> u16 list) \<Rightarrow>
    u16 \<Rightarrow> u16 list \<Rightarrow> 'b \<Rightarrow> 'b \<Rightarrow> bool" where
  "transfers bus idle tf disk io ws b b0 \<longleftrightarrow>
     (\<exists>v b1 b2. polls bus io b0 v b1 \<and> v AND S_ERR = 0 \<and> rd_words bus io (length ws) b1 = (ws, b2) \<and>
        idle b2 \<and> disk b2 = disk b \<and> (\<forall>i. tf_sel (tf b2 i) = tf_sel (tf b i)))"

definition ata_disk :: "'b bus \<Rightarrow> ('b \<Rightarrow> bool) \<Rightarrow> ('b \<Rightarrow> u16 \<Rightarrow> tfile) \<Rightarrow>
    ('b \<Rightarrow> u16 \<Rightarrow> bool \<Rightarrow> nat \<Rightarrow> u16 list) \<Rightarrow> bool" where
  "ata_disk bus idle tf disk \<longleftrightarrow>
     (\<forall>b r v. \<forall>io \<in> ata_buses. idle b \<longrightarrow> r \<in> {2, 3, 4, 5} \<longrightarrow> idle (out_8 bus (io + r) v b) \<and>
        disk (out_8 bus (io + r) v b) = disk b \<and>
        tf (out_8 bus (io + r) v b) = (tf b)(io := tf_put r v (tf b io))) \<and>
     (\<forall>b v. \<forall>io \<in> ata_buses. idle b \<longrightarrow> idle (out_8 bus (io + IR_DRIVE_SEL) v b) \<and>
        disk (out_8 bus (io + IR_DRIVE_SEL) v b) = disk b \<and>
        tf (out_8 bus (io + IR_DRIVE_SEL) v b) = (tf b)(io := (tf b io)\<lparr>tf_sel := v\<rparr>)) \<and>
     (\<forall>b ws. \<forall>io \<in> ata_buses. idle b \<longrightarrow> bit (tf_sel (tf b io)) 6 \<longrightarrow> tf_reg (tf b io) 2 = 1 \<longrightarrow>
        ws = disk b io (bit (tf_sel (tf b io)) 4) (lba28 (tf b io)) \<longrightarrow> ws \<noteq> [] \<longrightarrow>
        transfers bus idle tf disk io ws b (out_8 bus (io + IR_CMD) 0x20 b)) \<and>
     (\<forall>b ws. \<forall>io \<in> ata_buses. idle b \<longrightarrow> bit (tf_sel (tf b io)) 6 \<longrightarrow> tf_reg (tf b io) 2 = 1 \<longrightarrow> tf_old (tf b io) 2 = 0 \<longrightarrow>
        ws = disk b io (bit (tf_sel (tf b io)) 4) (lba48 (tf b io)) \<longrightarrow> ws \<noteq> [] \<longrightarrow>
        transfers bus idle tf disk io ws b (out_8 bus (io + IR_CMD) 0x24 b))"

lemma polls_wait:
  "polls bus io b v b' \<Longrightarrow> \<exists>st b1. port_rd_u8 bus (io + IR_STATUS) b = (st, b1) \<and> wait_rd bus io st b1 = Some (v, b')"
proof (induction rule: polls.induct)
  case (poll_done b v b')
  then show ?case by (auto simp: wait_rd.simps)
next
  case (poll_more b v b1 v' b')
  then show ?case by (auto simp: wait_rd.simps [of bus io v])
qed

subsection \<open>Selecting the drive\<close>

text \<open>
  IDENTIFY is sent with the registers written in 16 bits as well, and a controller that splits these writes
  clears the drive select register behind the driver's back.  The selections made for IDENTIFY are \<open>0xa\<close>
  and \<open>0xb\<close>; no other command uses them.
\<close>

definition sel_is :: "u8 \<Rightarrow> u8 \<Rightarrow> bool" where
  "sel_is sel v \<longleftrightarrow> v = sel \<or> sel \<in> {0xa, 0xb} \<and> v = 0"

definition cache_ok :: "('b \<Rightarrow> u16 \<Rightarrow> tfile) \<Rightarrow> 'b ata \<Rightarrow> bool" where
  "cache_ok tf h \<longleftrightarrow> bi_io_port ` set (at_cache h) \<subseteq> ata_buses \<and> distinct (map bi_io_port (at_cache h)) \<and>
     (\<forall>e \<in> set (at_cache h). sel_is (bi_sel_data e) (tf_sel (tf (at_bus h) (bi_io_port e))))"

text \<open>So the cache never fills up: there are fewer buses than places.\<close>

lemma cache_ok_room:
  assumes "cache_ok tf h"
  shows "length (at_cache h) \<le> 2"
proof -
  have "length (at_cache h) = card (bi_io_port ` set (at_cache h))"
    using assms distinct_card [of "map bi_io_port (at_cache h)"] by (simp add: cache_ok_def)
  also have "\<dots> \<le> card ata_buses"
    using assms by (intro card_mono) (auto simp: cache_ok_def ata_buses_def)
  also have "\<dots> = 2" by (simp add: ata_buses_def)
  finally show ?thesis .
qed

lemma bus_find_spec:
  "bus_find es io \<le> length es \<and> (bus_find es io < length es \<longrightarrow> bi_io_port (es ! bus_find es io) = io) \<and>
   (bus_find es io = length es \<longleftrightarrow> io \<notin> bi_io_port ` set es)"
  by (induction es) auto

text \<open>Another selection for the bus of a place of the cache.\<close>

lemma cache_ok_move:
  assumes c: "cache_ok tf h" and k: "k < length (at_cache h)" and io: "bi_io_port (at_cache h ! k) = io"
    and b: "tf b = (tf (at_bus h))(io := (tf (at_bus h) io)\<lparr>tf_sel := sel\<rparr>)"
  shows "cache_ok tf (h\<lparr>at_cache := (at_cache h)[k := (at_cache h ! k)\<lparr>bi_sel_dev_num := dev_num, bi_sel_data := sel\<rparr>],
    at_bus := b\<rparr>)"
proof -
  let ?es = "at_cache h" and ?es' = "(at_cache h)[k := (at_cache h ! k)\<lparr>bi_sel_dev_num := dev_num, bi_sel_data := sel\<rparr>]"
  have ports: "map bi_io_port ?es' = map bi_io_port ?es"
    using k by (metis bus_info.select_convs(1) bus_info.surjective bus_info.update_convs(2,3) list_update_id map_update)
  have "sel_is (bi_sel_data e) (tf_sel (tf b (bi_io_port e)))" if e: "e \<in> set ?es'" for e
  proof -
    obtain j where j: "j < length ?es" "e = ?es' ! j" using e by (auto simp: in_set_conv_nth)
    show ?thesis
    proof (cases "j = k")
      case True
      then show ?thesis using j io b by (simp add: sel_is_def)
    next
      case False
      then have e: "e = ?es ! j" using j by simp
      have "bi_io_port e \<noteq> io"
        using False j(1) e k io c nth_eq_iff_index_eq [of "map bi_io_port ?es" j k] by (auto simp: cache_ok_def)
      then show ?thesis using c j(1) e b by (simp add: cache_ok_def)
    qed
  qed
  moreover have "bi_io_port ` set ?es' = bi_io_port ` set ?es" using ports by (metis list.set_map)
  ultimately show ?thesis using c ports by (simp add: cache_ok_def)
qed

lemma sel_drive_spec:
  assumes disk: "ata_disk bus idle tf disk" and idle: "idle (at_bus h)" and c: "cache_ok tf h"
    and io: "io \<in> ata_buses"
  shows "\<exists>h'. sel_drive bus io dev_num sel h = Ret h' \<and> idle (at_bus h') \<and> cache_ok tf h' \<and>
    sel_is sel (tf_sel (tf (at_bus h') io)) \<and> disk (at_bus h') = disk (at_bus h) \<and> at_mutex h' = at_mutex h"
proof -
  let ?w = "bus_find (at_cache h) io" and ?es = "at_cache h"
  let ?b = "port_wr bus (io + IR_DRIVE_SEL) (ucast sel) PS_8 (at_bus h)"
  note w = bus_find_spec [of ?es io]
  have b: "idle ?b" "disk ?b = disk (at_bus h)" "tf ?b = (tf (at_bus h))(io := (tf (at_bus h) io)\<lparr>tf_sel := sel\<rparr>)"
    using disk idle io unfolding ata_disk_def port_wr_8 by (simp_all add: ucast_ucast_u8)
  note room = cache_ok_room [OF c]
  have spin: "ku_spin_cycles 1000 = Ret ()" by (rule ku_spin_cycles_ends) simp
  consider (new) "?w = length ?es" | (hit) "?w < length ?es" "bi_sel_dev_num (?es ! ?w) = dev_num"
    "bi_sel_data (?es ! ?w) = sel" | (move) "?w < length ?es"
    "bi_sel_dev_num (?es ! ?w) \<noteq> dev_num \<or> bi_sel_data (?es ! ?w) \<noteq> sel"
    using w by linarith
  then show ?thesis
  proof cases
    case new
    let ?e = "\<lparr>bi_io_port = io, bi_sel_dev_num = dev_num, bi_sel_data = sel\<rparr>"
    have out: "io \<notin> bi_io_port ` set ?es" using new w by simp
    let ?h = "h\<lparr>at_cache := ?es @ [?e], at_bus := ?b\<rparr>"
    have "sel_drive bus io dev_num sel h = Ret ?h"
      using new room by (simp add: sel_drive_def Let_def spin)
    moreover have "cache_ok tf ?h" using c out io b by (auto simp: cache_ok_def sel_is_def)
    ultimately show ?thesis using b by (intro exI [of _ ?h]) (auto simp: sel_is_def)
  next
    case hit
    have "?es ! ?w \<in> set ?es" "bi_io_port (?es ! ?w) = io" using hit w by simp_all
    then have "sel_is sel (tf_sel (tf (at_bus h) io))" using c hit(3) unfolding cache_ok_def by metis
    then show ?thesis using hit idle c by (intro exI [of _ h]) (simp add: sel_drive_def Let_def)
  next
    case move
    let ?h = "h\<lparr>at_cache := ?es[?w := (?es ! ?w)\<lparr>bi_sel_dev_num := dev_num, bi_sel_data := sel\<rparr>], at_bus := ?b\<rparr>"
    have at: "bi_io_port (?es ! ?w) = io" and lim: "?w < MAX_BUSES" using move(1) w room by simp_all
    have "sel_drive bus io dev_num sel h = Ret ?h"
      using move lim by (auto simp: sel_drive_def Let_def spin)
    then show ?thesis using b cache_ok_move [OF c move(1) at b(3)] by (intro exI [of _ ?h]) (auto simp: sel_is_def)
  qed
qed

subsection \<open>The command block\<close>

lemma ata_disk_reg:
  assumes "ata_disk bus idle tf disk" "io \<in> ata_buses" "idle b" "r \<in> {2, 3, 4, 5}"
  shows "idle (out_8 bus (io + r) v b)" "disk (out_8 bus (io + r) v b) = disk b"
    "tf (out_8 bus (io + r) v b) = (tf b)(io := tf_put r v (tf b io))"
proof -
  have r: "\<forall>b r v. \<forall>io \<in> ata_buses. idle b \<longrightarrow> r \<in> {2, 3, 4, 5} \<longrightarrow> idle (out_8 bus (io + r) v b) \<and>
        disk (out_8 bus (io + r) v b) = disk b \<and>
        tf (out_8 bus (io + r) v b) = (tf b)(io := tf_put r v (tf b io))"
    using assms(1) unfolding ata_disk_def by (elim conjE)
  note r' = r [rule_format, OF assms(2-4)]
  show "idle (out_8 bus (io + r) v b)" "disk (out_8 bus (io + r) v b) = disk b"
    "tf (out_8 bus (io + r) v b) = (tf b)(io := tf_put r v (tf b io))"
    using r' [of v] by blast+
qed

lemma out_regs_put:
  assumes disk: "ata_disk bus idle tf disk"
    and io: "io \<in> ata_buses"
  shows "idle b \<Longrightarrow> \<forall>x \<in> set rs. fst x \<in> {2, 3, 4, 5} \<Longrightarrow>
    idle (out_regs bus io PS_8 rs b) \<and> disk (out_regs bus io PS_8 rs b) = disk b \<and>
    tf (out_regs bus io PS_8 rs b) = (tf b)(io := fold (\<lambda>(r, v). tf_put r (ucast v)) rs (tf b io))"
proof (induction rs arbitrary: b)
  case Nil
  then show ?case by (simp add: out_regs_def)
next
  case (Cons x rs)
  obtain r v where x: "x = (r, v)" by fastforce
  then have r: "r \<in> {2, 3, 4, 5}" using Cons.prems(2) by simp
  let ?b = "port_wr bus (io + r) v PS_8 b"
  have b: "idle ?b" "disk ?b = disk b" "tf ?b = (tf b)(io := tf_put r (ucast v) (tf b io))"
    unfolding port_wr_8 by (rule ata_disk_reg [OF disk io Cons.prems(1) r])+
  have o: "out_regs bus io PS_8 (x # rs) b = out_regs bus io PS_8 rs ?b" by (simp add: out_regs_def x)
  have rs: "\<forall>x \<in> set rs. fst x \<in> {2, 3, 4, 5}" using Cons.prems(2) by simp
  have ih: "idle (out_regs bus io PS_8 rs ?b)" "disk (out_regs bus io PS_8 rs ?b) = disk ?b"
    "tf (out_regs bus io PS_8 rs ?b) = (tf ?b)(io := fold (\<lambda>(r, v). tf_put r (ucast v)) rs (tf ?b io))"
    using Cons.IH [OF b(1) rs] by blast+
  show ?case unfolding o ih(2,3) b(2,3) using ih(1) by (simp add: x)
qed

lemma unat_byte: "unat (ucast (drop_bit k (x :: u64)) :: u8) = unat x div 2 ^ k mod 256"
  by (simp only: unsigned_ucast_eq unat_drop_bit_eq) (simp add: take_bit_eq_mod drop_bit_eq_div)

lemma bytes3:
  "(n :: nat) mod 256 + 256 * (n div 256 mod 256) + 65536 * (n div 65536 mod 256) = n mod 16777216"
  using mod_mult2_eq [of n 256 65536] mod_mult2_eq [of "n div 256" 256 256] by (simp add: div_mult2_eq [symmetric])

lemma bytes6:
  "(n :: nat) mod 256 + 256 * (n div 256 mod 256) + 65536 * (n div 65536 mod 256) +
     16777216 * (n div 16777216 mod 256) + 4294967296 * (n div 4294967296 mod 256) +
     1099511627776 * (n div 1099511627776 mod 256) = n mod 281474976710656"
proof -
  have "n div 16777216 div 256 = n div 4294967296" "n div 16777216 div 65536 = n div 1099511627776"
    by (simp_all add: div_mult2_eq [symmetric])
  then have hi: "n div 16777216 mod 256 + 256 * (n div 4294967296 mod 256) +
      65536 * (n div 1099511627776 mod 256) = n div 16777216 mod 16777216"
    using bytes3 [of "n div 16777216"] by metis
  have "n mod 281474976710656 = 16777216 * (n div 16777216 mod 16777216) + n mod 16777216"
    using mod_mult2_eq [of n 16777216 16777216] by simp
  then show ?thesis using hi bytes3 [of n] by linarith
qed

lemma unat_bytes:
  fixes src :: u64
  shows "unat (ucast src :: u8) = unat src mod 256"
    "unat (ucast (drop_bit 8 src) :: u8) = unat src div 256 mod 256"
    "unat (ucast (drop_bit 16 src) :: u8) = unat src div 65536 mod 256"
    "unat (ucast (drop_bit 24 src) :: u8) = unat src div 16777216 mod 256"
    "unat (ucast (drop_bit 32 src) :: u8) = unat src div 4294967296 mod 256"
    "unat (ucast (drop_bit 40 src) :: u8) = unat src div 1099511627776 mod 256"
proof -
  have p: "(2 :: nat) ^ 8 = 256" "(2 :: nat) ^ 16 = 65536" "(2 :: nat) ^ 24 = 16777216"
    "(2 :: nat) ^ 32 = 4294967296" "(2 :: nat) ^ 40 = 1099511627776" by simp_all
  show "unat (ucast src :: u8) = unat src mod 256" using unat_byte [of 0 src] by simp
  show "unat (ucast (drop_bit 8 src) :: u8) = unat src div 256 mod 256" by (simp only: unat_byte p)
  show "unat (ucast (drop_bit 16 src) :: u8) = unat src div 65536 mod 256" by (simp only: unat_byte p)
  show "unat (ucast (drop_bit 24 src) :: u8) = unat src div 16777216 mod 256" by (simp only: unat_byte p)
  show "unat (ucast (drop_bit 32 src) :: u8) = unat src div 4294967296 mod 256" by (simp only: unat_byte p)
  show "unat (ucast (drop_bit 40 src) :: u8) = unat src div 1099511627776 mod 256" by (simp only: unat_byte p)
qed

lemma lba28_bytes:
  fixes src :: u64
  shows "unat (ucast src :: u8) + 256 * unat (ucast (drop_bit 8 src) :: u8) +
    65536 * unat (ucast (drop_bit 16 src) :: u8) = unat src mod 16777216"
  using bytes3 [of "unat src"] unat_bytes [of src] by metis

lemma lba48_bytes:
  fixes src :: u64
  shows "unat (ucast src :: u8) + 256 * unat (ucast (drop_bit 8 src) :: u8) +
    65536 * unat (ucast (drop_bit 16 src) :: u8) + 16777216 * unat (ucast (drop_bit 24 src) :: u8) +
    4294967296 * unat (ucast (drop_bit 32 src) :: u8) + 1099511627776 * unat (ucast (drop_bit 40 src) :: u8) =
    unat src mod 281474976710656"
  using bytes6 [of "unat src"] unat_bytes [of src] by metis

text \<open>The sector a read command names: the driver sends 24 bits of the address, or 48 with LBA48.\<close>

definition ata_lba :: "ata_pio_dev \<Rightarrow> u64 \<Rightarrow> u64" where
  "ata_lba d b = (if ad_support d AND APDS_LBA_48 \<noteq> 0 then take_bit 48 b else take_bit 24 b)"

lemma unat_ata_lba:
  "unat (ata_lba d b) = unat b mod (if ad_support d AND APDS_LBA_48 \<noteq> 0 then 281474976710656 else 16777216)"
  by (simp add: ata_lba_def unsigned_take_bit_eq) (simp add: take_bit_eq_mod)

lemma ata_lba_le: "unat (ata_lba d b) \<le> unat b"
  by (simp add: unat_ata_lba)

text \<open>Devices on one of the two buses, with an even sector size.\<close>

definition dev_shape :: "ata_pio_dev \<Rightarrow> bool" where
  "dev_shape d \<longleftrightarrow> even (unat (ad_sector_size d)) \<and> 0 < unat (ad_sector_size d) \<and>
     ad_bus_io_port d \<in> ata_buses \<and> ad_dev_num d \<in> {0, 1}"

text \<open>
  The devices of which the driver reaches every sector: without LBA48, those of at most \<open>2 ^ 24\<close> sectors.  On larger
  ones a read behind this limit silently gives a sector below it.
\<close>

definition dev_addressable :: "ata_pio_dev \<Rightarrow> bool" where
  "dev_addressable d \<longleftrightarrow> even (unat (ad_sector_size d)) \<and> 0 < unat (ad_sector_size d) \<and>
     ad_bus_io_port d \<in> ata_buses \<and> ad_dev_num d \<in> {0, 1} \<and>
     unat (ad_nsector d) \<le> (if ad_support d AND APDS_LBA_48 \<noteq> 0 then 281474976710656 else 16777216)"

lemma dev_addressable_shape: "dev_addressable d \<Longrightarrow> dev_shape d"
  by (simp add: dev_addressable_def dev_shape_def)

lemma dev_addressable_lba:
  assumes "dev_addressable d" and "unat b < unat (ad_nsector d)"
  shows "ata_lba d b = b"
  using assms by (auto simp: u64_eq_iff_unat unat_ata_lba dev_addressable_def)

lemma ata_rd_sel_bits:
  assumes "ad_dev_num d \<in> {0, 1}"
  shows "bit (ata_rd_sel d) 6" "bit (ata_rd_sel d) 4 \<longleftrightarrow> ad_dev_num d = 1" "ata_rd_sel d AND 0xf = 0"
proof -
  have "bit (ata_rd_sel d) 6 \<and> (bit (ata_rd_sel d) 4 \<longleftrightarrow> ad_dev_num d = 1) \<and> ata_rd_sel d AND 0xf = 0"
    using assms by (cases "ad_support d AND APDS_LBA_48 = 0") (auto simp: ata_rd_sel_def bit_iff_odd)
  then show "bit (ata_rd_sel d) 6" "bit (ata_rd_sel d) 4 \<longleftrightarrow> ad_dev_num d = 1" "ata_rd_sel d AND 0xf = 0"
    by blast+
qed

lemma ata_disk_read28:
  assumes "ata_disk bus idle tf disk" "io \<in> ata_buses" "idle b" "bit (tf_sel (tf b io)) 6" "tf_reg (tf b io) 2 = 1"
    "disk b io (bit (tf_sel (tf b io)) 4) (lba28 (tf b io)) \<noteq> []"
  shows "transfers bus idle tf disk io (disk b io (bit (tf_sel (tf b io)) 4) (lba28 (tf b io))) b
    (out_8 bus (io + IR_CMD) 0x20 b)"
  using assms unfolding ata_disk_def by blast

lemma ata_disk_read48:
  assumes "ata_disk bus idle tf disk" "io \<in> ata_buses" "idle b" "bit (tf_sel (tf b io)) 6" "tf_reg (tf b io) 2 = 1"
    "tf_old (tf b io) 2 = 0" "disk b io (bit (tf_sel (tf b io)) 4) (lba48 (tf b io)) \<noteq> []"
  shows "transfers bus idle tf disk io (disk b io (bit (tf_sel (tf b io)) 4) (lba48 (tf b io))) b
    (out_8 bus (io + IR_CMD) 0x24 b)"
  using assms unfolding ata_disk_def by blast

text \<open>The registers written before a command: the task file they leave, and the command behind them.\<close>

lemma ata_cmd_28:
  assumes "ad_support d AND APDS_LBA_48 = 0"
  shows "out_regs bus io PS_8 (ata_cmd_regs d src 1) b = out_8 bus (io + IR_CMD) 0x20 (out_regs bus io PS_8
    [(IR_SECTOR_CNT, 1), (IR_SECTOR_NUM, src), (IR_CYL_LOW, drop_bit 8 src), (IR_CYL_HIGH, drop_bit 16 src)] b)"
  using assms by (simp add: ata_cmd_regs_def out_regs_def port_wr_8)

lemma ata_cmd_48:
  assumes "ad_support d AND APDS_LBA_48 \<noteq> 0"
  shows "out_regs bus io PS_8 (ata_cmd_regs d src 1) b = out_8 bus (io + IR_CMD) 0x24 (out_regs bus io PS_8
    [(IR_SECTOR_CNT, 0), (IR_SECTOR_NUM, drop_bit 24 src), (IR_CYL_LOW, drop_bit 32 src), (IR_CYL_HIGH, drop_bit 40 src),
     (IR_SECTOR_CNT, 1), (IR_SECTOR_NUM, src), (IR_CYL_LOW, drop_bit 8 src), (IR_CYL_HIGH, drop_bit 16 src)] b)"
  using assms by (simp add: ata_cmd_regs_def out_regs_def port_wr_8)


lemma ata_cmd_transfers:
  assumes disk: "ata_disk bus idle tf disk" and idle: "idle b" and d: "dev_shape d"
    and sel: "tf_sel (tf b (ad_bus_io_port d)) = ata_rd_sel d"
    and ws: "disk b (ad_bus_io_port d) (ad_dev_num d = 1) (unat (ata_lba d src)) \<noteq> []"
  shows "\<exists>b0. disk b0 = disk b \<and> (\<forall>i. tf_sel (tf b0 i) = tf_sel (tf b i)) \<and>
    transfers bus idle tf disk (ad_bus_io_port d) (disk b (ad_bus_io_port d) (ad_dev_num d = 1) (unat (ata_lba d src))) b0
      (out_regs bus (ad_bus_io_port d) PS_8 (ata_cmd_regs d src 1) b)"
proof -
  let ?io = "ad_bus_io_port d"
  have dn: "ad_dev_num d \<in> {0, 1}" and io: "?io \<in> ata_buses" using d by (simp_all add: dev_shape_def)
  note bits = ata_rd_sel_bits [OF dn] and put = out_regs_put [OF disk io idle]
  show ?thesis
  proof (cases "ad_support d AND APDS_LBA_48 = 0")
    case True
    let ?b = "out_regs bus ?io PS_8
      [(IR_SECTOR_CNT, 1), (IR_SECTOR_NUM, src), (IR_CYL_LOW, drop_bit 8 src), (IR_CYL_HIGH, drop_bit 16 src)] b"
    have lba: "unat (ata_lba d src) = unat src mod 16777216" using True by (simp add: unat_ata_lba)
    have b: "idle ?b" "disk ?b = disk b" "tf_sel (tf ?b i) = tf_sel (tf b i)" "tf_reg (tf ?b ?io) 2 = 1" for i
      using put by (auto simp: tf_put_def)
    have "lba28 (tf ?b ?io) = unat (ata_lba d src)"
      unfolding lba lba28_bytes [symmetric] using bits(3) sel put by (auto simp: lba28_def tf_put_def)
    then show ?thesis
      using ata_disk_read28 [OF disk io b(1)] b(2-4) bits(1,2) sel ws
      unfolding ata_cmd_28 [OF True] by (intro exI [of _ ?b]) simp
  next
    case False
    let ?b = "out_regs bus ?io PS_8
      [(IR_SECTOR_CNT, 0), (IR_SECTOR_NUM, drop_bit 24 src), (IR_CYL_LOW, drop_bit 32 src), (IR_CYL_HIGH, drop_bit 40 src),
       (IR_SECTOR_CNT, 1), (IR_SECTOR_NUM, src), (IR_CYL_LOW, drop_bit 8 src), (IR_CYL_HIGH, drop_bit 16 src)] b"
    have lba: "unat (ata_lba d src) = unat src mod 281474976710656" using False by (simp add: unat_ata_lba)
    have b: "idle ?b" "disk ?b = disk b" "tf_sel (tf ?b i) = tf_sel (tf b i)" "tf_reg (tf ?b ?io) 2 = 1"
      "tf_old (tf ?b ?io) 2 = 0" for i
      using put by (auto simp: tf_put_def)
    have "lba48 (tf ?b ?io) = unat (ata_lba d src)"
      unfolding lba lba48_bytes [symmetric] using put by (auto simp: lba48_def tf_put_def)
    then show ?thesis
      using ata_disk_read48 [OF disk io b(1)] b(2-5) bits(1,2) sel ws
      unfolding ata_cmd_48 [OF False] by (intro exI [of _ ?b]) simp
  qed
qed

subsection \<open>Reading one sector\<close>

text \<open>
  The driver's invariant for the devices \<open>D\<close>: a working disk that is idle, a true selection cache,
  the mutex free, and sectors of the size the devices report.
\<close>

definition ata_ready :: "'b bus \<Rightarrow> ('b \<Rightarrow> bool) \<Rightarrow> ('b \<Rightarrow> u16 \<Rightarrow> tfile) \<Rightarrow>
    ('b \<Rightarrow> u16 \<Rightarrow> bool \<Rightarrow> nat \<Rightarrow> u16 list) \<Rightarrow> ata_pio_dev set \<Rightarrow> 'b ata \<Rightarrow> bool" where
  "ata_ready bus idle tf disk D h \<longleftrightarrow> ata_disk bus idle tf disk \<and> idle (at_bus h) \<and> cache_ok tf h \<and>
     at_mutex h = 0 \<and>
     (\<forall>d \<in> D. \<forall>n < unat (ad_nsector d).
        length (disk (at_bus h) (ad_bus_io_port d) (ad_dev_num d = 1) n) = unat (ad_sector_size d) div 2)"

definition ata_sector :: "('b \<Rightarrow> u16 \<Rightarrow> bool \<Rightarrow> nat \<Rightarrow> u16 list) \<Rightarrow> 'b ata \<Rightarrow> ata_pio_dev \<Rightarrow> u64 \<Rightarrow> u8 list" where
  "ata_sector disk h d b =
     concat (map word_bytes (disk (at_bus h) (ad_bus_io_port d) (ad_dev_num d = 1) (unat b)))"

definition ata_valid :: "ata_pio_dev set \<Rightarrow> ata_pio_dev \<Rightarrow> bool" where
  "ata_valid D d \<longleftrightarrow> d \<in> D \<and> dev_addressable d"

lemma word_bytes_length: "length (concat (map word_bytes ws)) = 2 * length ws"
  by (induction ws) (simp_all add: word_bytes_def)

lemma ata_sector_length:
  assumes "ata_ready bus idle tf disk D h" "ata_valid D d" "unat b < unat (ad_nsector d)"
  shows "length (ata_sector disk h d b) = unat (ad_sector_size d)"
  using assms by (simp add: ata_sector_def word_bytes_length ata_ready_def ata_valid_def dev_addressable_def)

lemma ata_rd_sectors_one:
  assumes "transfers bus idle tf disk (ad_bus_io_port d) ws b0 b" and "length ws = unat (ad_sector_size d) div 2"
  shows "\<exists>b'. ata_rd_sectors bus d 1 [] b = Ret (0, concat (map word_bytes ws), b') \<and>
    idle b' \<and> disk b' = disk b0 \<and> (\<forall>i. tf_sel (tf b' i) = tf_sel (tf b0 i))"
proof -
  obtain v b1 b2 where p: "polls bus (ad_bus_io_port d) b v b1" "v AND S_ERR = 0"
    and r: "rd_words bus (ad_bus_io_port d) (length ws) b1 = (ws, b2)"
    and b2: "idle b2" "disk b2 = disk b0" "\<forall>i. tf_sel (tf b2 i) = tf_sel (tf b0 i)"
    using assms(1) unfolding transfers_def by blast
  obtain st b3 where w: "port_rd_u8 bus (ad_bus_io_port d + IR_STATUS) b = (st, b3)"
    "wait_rd bus (ad_bus_io_port d) st b3 = Some (v, b1)"
    using polls_wait [OF p(1)] by blast
  have "ku_spin_cycles 1000 = Ret ()" by (rule ku_spin_cycles_ends) simp
  then have "ata_rd_sectors bus d (Suc 0) [] b = Ret (0, concat (map word_bytes ws), b2)"
    using w p(2) r assms(2) by simp
  then show ?thesis using b2 by auto
qed

lemma ata_rd_lba:
  assumes ready: "ata_ready bus idle tf disk D h" and d: "d \<in> D" "dev_shape d" and b: "unat b < unat (ad_nsector d)"
  shows "\<exists>h'. ata_pio_blkdev_rd bus d b 1 h = Ret (0, ata_sector disk h d (ata_lba d b), h') \<and>
    ata_ready bus idle tf disk D h' \<and> ata_sector disk h' = ata_sector disk h"
proof -
  let ?io = "ad_bus_io_port d" and ?ws = "disk (at_bus h) (ad_bus_io_port d) (ad_dev_num d = 1) (unat (ata_lba d b))"
  have disk: "ata_disk bus idle tf disk" and idle: "idle (at_bus h)" and c: "cache_ok tf h" and m: "at_mutex h = 0"
    and len: "\<forall>d \<in> D. \<forall>n < unat (ad_nsector d).
      length (disk (at_bus h) (ad_bus_io_port d) (ad_dev_num d = 1) n) = unat (ad_sector_size d) div 2"
    using ready by (simp_all add: ata_ready_def)
  from d(2) have io: "?io \<in> ata_buses" and ss: "0 < unat (ad_sector_size d) div 2"
    by (auto simp: dev_shape_def elim!: evenE)
  have ws: "length ?ws = unat (ad_sector_size d) div 2" using len d(1) b ata_lba_le [of d b] by (meson le_less_trans)
  then have ne: "?ws \<noteq> []" using ss by auto
  obtain h1 where h1: "sel_drive bus ?io (ad_dev_num d) (ata_rd_sel d) (h\<lparr>at_mutex := 1\<rparr>) = Ret h1"
    "idle (at_bus h1)" "cache_ok tf h1" "sel_is (ata_rd_sel d) (tf_sel (tf (at_bus h1) ?io))"
    "disk (at_bus h1) = disk (at_bus h)" "at_mutex h1 = 1"
    using sel_drive_spec [OF disk, of "h\<lparr>at_mutex := 1\<rparr>" ?io "ad_dev_num d" "ata_rd_sel d"] idle c io
    by (auto simp: cache_ok_def)
  have "ad_dev_num d \<in> {0, 1}" using d(2) by (simp add: dev_shape_def)
  then have "bit (ata_rd_sel d) 6" by (rule ata_rd_sel_bits(1))
  then have sel: "tf_sel (tf (at_bus h1) ?io) = ata_rd_sel d" using h1(4) by (auto simp: sel_is_def)
  let ?b = "out_regs bus ?io PS_8 (ata_cmd_regs d b 1) (at_bus h1)"
  obtain b0 where b0: "disk b0 = disk (at_bus h1)" "\<forall>i. tf_sel (tf b0 i) = tf_sel (tf (at_bus h1) i)"
    "transfers bus idle tf disk ?io ?ws b0 ?b"
    using ata_cmd_transfers [OF disk h1(2) d(2) sel] ne unfolding h1(5) by metis
  obtain b' where b': "ata_rd_sectors bus d 1 [] ?b = Ret (0, concat (map word_bytes ?ws), b')"
    "idle b'" "disk b' = disk b0" "\<forall>i. tf_sel (tf b' i) = tf_sel (tf b0 i)"
    using ata_rd_sectors_one [OF b0(3) ws] by blast
  let ?h = "h1\<lparr>at_bus := b', at_mutex := 0\<rparr>"
  have mx: "\<not> 1 > ata_max_sectors d" "1 \<noteq> ata_max_sectors d" by (simp_all add: ata_max_sectors_def)
  have "ata_pio_blkdev_rd bus d b 1 h = Ret (0, ata_sector disk h d (ata_lba d b), ?h)"
    using mx h1(1,6) b'(1) m by (simp add: ata_pio_blkdev_rd_def ata_pio_dev_rd_def at_unlock_def ata_sector_def)
  moreover have "disk b' = disk (at_bus h)" using b'(3) b0(1) h1(5) by simp
  moreover have "cache_ok tf ?h" using h1(3) b'(4) b0(2) by (simp add: cache_ok_def)
  ultimately show ?thesis using disk b'(2) len by (intro exI [of _ ?h]) (auto simp: ata_ready_def ata_sector_def fun_eq_iff)
qed

lemma ata_rd_one:
  assumes "ata_ready bus idle tf disk D h" and "ata_valid D d" and "unat b < unat (ad_nsector d)"
  shows "\<exists>h'. ata_pio_blkdev_rd bus d b 1 h = Ret (0, ata_sector disk h d b, h') \<and>
    ata_ready bus idle tf disk D h' \<and> ata_sector disk h' = ata_sector disk h"
  using ata_rd_lba [OF assms(1) _ _ assms(3)] assms(2) dev_addressable_shape [of d] dev_addressable_lba [OF _ assms(3)]
  by (auto simp: ata_valid_def)

text \<open>The driver provides the interface of Blkdev, whatever the bus.\<close>

interpretation ata: blk_driver "ata_pio_blkdev_rd bus" "ata_ready bus idle tf disk D" "ata_valid D"
  "ata_sector disk" "\<lambda>d. unat (ad_sector_size d)" "\<lambda>d. unat (ad_nsector d)"
  for bus idle tf disk D
  by unfold_locales (rule ata_rd_one, assumption+, rule ata_sector_length, assumption+)

subsection \<open>A disk in memory\<close>

text \<open>
  Disks that keep the contract: on the first bus a drive with the sectors \<open>ra_disk\<close> and a blank one of the same
  size, which answer \<open>ident\<close> to IDENTIFY DEVICE, and no drive on the second bus.
\<close>

record ram_ata =
  ra_tf :: "u16 \<Rightarrow> tfile"
  ra_left :: "u16 list"
  ra_disk :: "nat \<Rightarrow> u16 list"

definition ra_words :: "ram_ata \<Rightarrow> u16 \<Rightarrow> bool \<Rightarrow> nat \<Rightarrow> u16 list" where
  "ra_words b io drv n = (if io = 0x1f0 then if drv then map (\<lambda>_. 0) (ra_disk b n) else ra_disk b n else [])"

definition ra_idle :: "ram_ata \<Rightarrow> bool" where
  "ra_idle b \<longleftrightarrow> ra_left b = []"

definition ra_cmd :: "u16 list \<Rightarrow> u16 \<Rightarrow> u8 \<Rightarrow> ram_ata \<Rightarrow> ram_ata" where
  "ra_cmd ident io v b = b\<lparr>ra_left :=
     if v = 0xec then (if io = 0x1f0 then ident else [])
     else ra_words b io (bit (tf_sel (ra_tf b io)) 4) (if v = 0x20 then lba28 (ra_tf b io) else lba48 (ra_tf b io))\<rparr>"

definition ra_out :: "u16 list \<Rightarrow> u16 \<Rightarrow> u8 \<Rightarrow> ram_ata \<Rightarrow> ram_ata" where
  "ra_out ident p v b =
     (let r = p AND 7; io = p - r in
      if r = 7 then ra_cmd ident io v b
      else if r = 6 then b\<lparr>ra_tf := (ra_tf b)(io := (ra_tf b io)\<lparr>tf_sel := v\<rparr>)\<rparr>
      else b\<lparr>ra_tf := (ra_tf b)(io := tf_put r v (ra_tf b io))\<rparr>)"

definition ra_in :: "u16 \<Rightarrow> ram_ata \<Rightarrow> u16 \<times> ram_ata" where
  "ra_in p b = (case ra_left b of [] \<Rightarrow> (0, b) | w # ws \<Rightarrow> (w, b\<lparr>ra_left := ws\<rparr>))"

definition id_bus :: "u16 list \<Rightarrow> ram_ata bus" where
  "id_bus ident = \<lparr>in_8 = \<lambda>p b. (if p = 0x1f7 then 0x58 else 0, b), in_16 = ra_in, in_32 = \<lambda>p b. (0, b),
     out_8 = ra_out ident, out_16 = \<lambda>p v b. b, out_32 = \<lambda>p v b. b\<rparr>"

abbreviation ram_bus :: "ram_ata bus" where
  "ram_bus \<equiv> id_bus (replicate 256 0)"

lemma ucast_ucast_u16: "ucast (ucast (v :: u16) :: u64) = v"
  by (rule bit_word_eqI) (auto simp: bit_simps)

lemma ram_rd_words: "ra_left b = ws \<Longrightarrow> rd_words (id_bus ident) io (length ws) b = (ws, b\<lparr>ra_left := []\<rparr>)"
  by (induction ws arbitrary: b) (simp_all add: port_rd_def id_bus_def ra_in_def ucast_ucast_u16)

lemma ram_polls: "polls (id_bus ident) io b (if io + 7 = 0x1f7 then 0x58 else 0) b"
  by (rule poll_done) (simp_all add: port_rd_u8_in id_bus_def)

lemma ram_transfers:
  assumes "ws = ra_words b io (bit (tf_sel (ra_tf b io)) 4) (if v = 0x20 then lba28 (ra_tf b io) else lba48 (ra_tf b io))"
    and "v \<noteq> 0xec"
  shows "transfers (id_bus ident) ra_idle ra_tf ra_words io ws b (ra_cmd ident io v b)"
proof -
  have "rd_words (id_bus ident) io (length ws) (ra_cmd ident io v b) = (ws, (ra_cmd ident io v b)\<lparr>ra_left := []\<rparr>)"
    by (rule ram_rd_words) (simp add: ra_cmd_def assms)
  then show ?thesis
    unfolding transfers_def using ram_polls [of ident io "ra_cmd ident io v b"]
    by (intro exI [of _ "if io + 7 = 0x1f7 then 0x58 else 0"] exI [of _ "ra_cmd ident io v b"]
        exI [of _ "(ra_cmd ident io v b)\<lparr>ra_left := []\<rparr>"])
      (simp add: ra_idle_def ra_words_def ra_cmd_def fun_eq_iff)
qed

lemma ram_ports:
  assumes "io \<in> ata_buses"
  shows "r \<in> {2, 3, 4, 5} \<Longrightarrow> out_8 (id_bus ident) (io + r) v b = b\<lparr>ra_tf := (ra_tf b)(io := tf_put r v (ra_tf b io))\<rparr>"
    "out_8 (id_bus ident) (io + 6) v b = b\<lparr>ra_tf := (ra_tf b)(io := (ra_tf b io)\<lparr>tf_sel := v\<rparr>)\<rparr>"
    "out_8 (id_bus ident) (io + 7) v b = ra_cmd ident io v b"
  using assms by (auto simp: ata_buses_def id_bus_def ra_out_def Let_def)

lemma ram_ata_disk: "ata_disk (id_bus ident) ra_idle ra_tf ra_words"
proof -
  have w: "ra_words (b\<lparr>ra_tf := t\<rparr>) = ra_words b" for b t
    by (simp add: ra_words_def fun_eq_iff)
  have r: "ra_idle (out_8 (id_bus ident) (io + r) v b) \<and> ra_words (out_8 (id_bus ident) (io + r) v b) = ra_words b \<and>
      ra_tf (out_8 (id_bus ident) (io + r) v b) = (ra_tf b)(io := tf_put r v (ra_tf b io))"
    if "io \<in> ata_buses" "ra_idle b" "r \<in> {2, 3, 4, 5}" for b r v io
    unfolding ram_ports(1) [OF that(1,3)] using that(2) by (simp add: ra_idle_def w)
  have s: "ra_idle (out_8 (id_bus ident) (io + IR_DRIVE_SEL) v b) \<and> ra_words (out_8 (id_bus ident) (io + IR_DRIVE_SEL) v b) = ra_words b \<and>
      ra_tf (out_8 (id_bus ident) (io + IR_DRIVE_SEL) v b) = (ra_tf b)(io := (ra_tf b io)\<lparr>tf_sel := v\<rparr>)"
    if "io \<in> ata_buses" "ra_idle b" for b v io
    unfolding ram_ports(2) [OF that(1)] using that(2) by (simp add: ra_idle_def w)
  have c: "transfers (id_bus ident) ra_idle ra_tf ra_words io (ra_words b io (bit (tf_sel (ra_tf b io)) 4) (lba28 (ra_tf b io))) b
      (out_8 (id_bus ident) (io + IR_CMD) 0x20 b)"
    "transfers (id_bus ident) ra_idle ra_tf ra_words io (ra_words b io (bit (tf_sel (ra_tf b io)) 4) (lba48 (ra_tf b io))) b
      (out_8 (id_bus ident) (io + IR_CMD) 0x24 b)"
    if "io \<in> ata_buses" for b io
    unfolding ram_ports(3) [OF that] by (rule ram_transfers, simp, simp)+
  show ?thesis unfolding ata_disk_def
    by (intro conjI allI ballI impI) (simp_all only: r s c)
qed

definition ram_ata_dev :: ata_pio_dev where
  "ram_ata_dev = \<lparr>ad_sector_size = 2, ad_nsector = 4, ad_bus_io_port = 0x1f0, ad_bus_ctl_port = 0x3f6,
     ad_dev_num = 0, ad_support = 1\<rparr>"

definition ram_ata_of :: "(nat \<Rightarrow> u16 list) \<Rightarrow> ram_ata ata" where
  "ram_ata_of img = \<lparr>at_cache = [], at_mutex = 0,
     at_bus = \<lparr>ra_tf = \<lambda>_. \<lparr>tf_reg = \<lambda>_. 0, tf_old = \<lambda>_. 0, tf_sel = 0\<rparr>, ra_left = [], ra_disk = img\<rparr>\<rparr>"

lemma ram_ready_of:
  assumes "\<And>d n. d \<in> D \<Longrightarrow> n < unat (ad_nsector d) \<Longrightarrow> length (img n) = unat (ad_sector_size d) div 2"
    and "\<And>d. d \<in> D \<Longrightarrow> ad_bus_io_port d = 0x1f0"
  shows "ata_ready (id_bus ident) ra_idle ra_tf ra_words D (ram_ata_of img)"
  using ram_ata_disk assms by (simp add: ata_ready_def cache_ok_def ram_ata_of_def ra_idle_def ra_words_def)

text \<open>Four sectors of one word each.\<close>

definition ram_ata0 :: "ram_ata ata" where
  "ram_ata0 = ram_ata_of (\<lambda>n. [0x5a00 + of_nat n])"

lemma ram_ready: "ata_ready ram_bus ra_idle ra_tf ra_words {ram_ata_dev} ram_ata0"
  unfolding ram_ata0_def by (rule ram_ready_of) (simp_all add: ram_ata_dev_def)

lemma ram_valid: "ata_valid {ram_ata_dev} ram_ata_dev"
  by (simp add: ata_valid_def dev_addressable_def ram_ata_dev_def ata_buses_def)

subsection \<open>Properties\<close>

text \<open>
  C8: on a disk that works, for every device on the two buses and each of its sectors \<open>b\<close>, the driver selects the drive, sends the
  command of 28 or 48 bit addressing with the address split over the registers, waits, and returns
  the bytes of the sector that the address it sent names, with its own state consistent again.  With LBA48 this is
  sector \<open>b\<close> up to \<open>2 ^ 48\<close>; without, the driver leaves bits 24 to 27 out, and a read behind sector \<open>2 ^ 24\<close> gives sector
  \<open>b\<close> modulo \<open>2 ^ 24\<close> (\<open>ata_lba\<close>).
\<close>
theorem ata_reads_sector:
  assumes "ata_ready bus idle tf disk D h" and "d \<in> D" and "dev_shape d" and "unat b < unat (ad_nsector d)"
  shows "\<exists>h'. ata_pio_blkdev_rd bus d b 1 h = Ret (0, ata_sector disk h d (ata_lba d b), h') \<and>
    unat (ata_lba d b) = unat b mod (if ad_support d AND APDS_LBA_48 \<noteq> 0 then 2 ^ 48 else 2 ^ 24) \<and>
    ata_ready bus idle tf disk D h' \<and> ata_sector disk h' = ata_sector disk h"
  using ata_rd_lba [OF assms] unat_ata_lba [of d b] by auto

text \<open>The same disk with more sectors than 24 bits count.\<close>

definition big_ata_dev :: ata_pio_dev where
  "big_ata_dev = ram_ata_dev\<lparr>ad_nsector := 0x1000004\<rparr>"

theorem ata_reads_sector_witness:
  "\<exists>h' h''. ata_pio_blkdev_rd ram_bus big_ata_dev 3 1 ram_ata0 = Ret (0, [0x03, 0x5a], h') \<and>
     ata_pio_blkdev_rd ram_bus big_ata_dev 0x1000003 1 ram_ata0 = Ret (0, [0x03, 0x5a], h'')"
proof -
  have rd: "ata_ready ram_bus ra_idle ra_tf ra_words {big_ata_dev} ram_ata0"
    unfolding ram_ata0_def by (rule ram_ready_of) (simp_all add: big_ata_dev_def ram_ata_dev_def)
  have sh: "dev_shape big_ata_dev" by (simp add: dev_shape_def big_ata_dev_def ram_ata_dev_def ata_buses_def)
  have l: "ata_lba big_ata_dev 3 = 3" "ata_lba big_ata_dev 0x1000003 = 3"
    by (simp_all add: ata_lba_def big_ata_dev_def ram_ata_dev_def)
  have "ata_sector ra_words ram_ata0 big_ata_dev 3 = [0x03, 0x5a]"
    by (simp add: ata_sector_def big_ata_dev_def ram_ata_dev_def ra_words_def word_bytes_def ram_ata0_def ram_ata_of_def)
  then show ?thesis
    using ata_reads_sector [OF rd _ sh, where b = 3] ata_reads_sector [OF rd _ sh, where b = "0x1000003"] l
    by (auto simp: big_ata_dev_def)
qed

lemma rd_words_length: "length (fst (rd_words bus io n b)) = n"
  by (induction n arbitrary: b) (auto split: prod.splits, metis fst_conv)

lemma ata_rd_sectors_bound:
  "ata_rd_sectors bus dev k out b = Ret (rc, out', b') \<Longrightarrow>
   length out' \<le> max (length out) (2 * (unat (ad_sector_size dev) div 2))"
proof (induction k arbitrary: out b)
  case (Suc k)
  let ?io = "ad_bus_io_port dev" and ?n = "unat (ad_sector_size dev) div 2"
  obtain st b1 where st: "port_rd_u8 bus (?io + IR_STATUS) b = (st, b1)" by fastforce
  obtain st2 b2 where w: "wait_rd bus ?io st b1 = Some (st2, b2)"
    using Suc.prems st by (cases "wait_rd bus ?io st b1") auto
  obtain ws b3 where ws: "rd_words bus ?io ?n b2 = (ws, b3)" by fastforce
  let ?bytes = "concat (map word_bytes ws)"
  have spin: "ku_spin_cycles 1000 = Ret ()" by (rule ku_spin_cycles_ends) simp
  have len: "length ?bytes = 2 * ?n" using rd_words_length [of bus ?io ?n b2] ws by (simp add: word_bytes_length)
  show ?case
  proof (cases "st2 AND S_ERR = 0")
    case True
    then have "ata_rd_sectors bus dev k (?bytes @ drop (length ?bytes) out) b3 = Ret (rc, out', b')"
      using Suc.prems st w ws spin by (simp add: Let_def)
    then have "length out' \<le> max (length (?bytes @ drop (length ?bytes) out)) (2 * ?n)" by (rule Suc.IH)
    moreover have "length (?bytes @ drop (length ?bytes) out) \<le> max (length out) (2 * ?n)" using len by simp
    ultimately show ?thesis by linarith
  next
    case False
    then show ?thesis using Suc.prems st w by simp
  qed
qed simp

text \<open>
  C37: the destination never advances: however many sectors a read asks for, it stores at most one
  sector's worth of bytes, each sector over the one before; and a read of the largest number of
  sectors the function accepts reports success without storing anything.
\<close>
theorem ata_rd_stores_one_sector:
  assumes "ata_pio_dev_rd bus dev src n h = Ret (rc, out, h')"
  shows "length out \<le> unat (ad_sector_size dev) \<and> (n = ata_max_sectors dev \<longrightarrow> rc = 0 \<and> out = [])"
proof -
  have max0: "ata_max_sectors dev \<noteq> 0" by (simp add: ata_max_sectors_def)
  let ?n = "if n = ata_max_sectors dev then 0 else n"
  show ?thesis
  proof (cases "n = 0 \<or> n > ata_max_sectors dev")
    case True
    then show ?thesis using assms max0 by (auto simp: ata_pio_dev_rd_def split: if_splits)
  next
    case False
    then obtain b b' where b: "ata_rd_sectors bus dev (unat ?n) [] b = Ret (rc, out, b')"
      using assms
      by (auto simp: ata_pio_dev_rd_def Let_def at_unlock_def seq_Ret_iff split: if_splits)
    have "2 * (unat (ad_sector_size dev) div 2) \<le> unat (ad_sector_size dev)" by simp
    then show ?thesis using ata_rd_sectors_bound [OF b] b by auto
  qed
qed

theorem ata_rd_stores_one_sector_witness:
  "\<exists>out h'. ata_pio_dev_rd ram_bus ram_ata_dev 1 1 ram_ata0 = Ret (0, out, h') \<and> length out \<le> 2"
proof -
  obtain out h' where r: "ata_pio_dev_rd ram_bus ram_ata_dev 1 1 ram_ata0 = Ret (0, out, h')"
    using ata_rd_one [OF ram_ready ram_valid, of 1] by (auto simp: ram_ata_dev_def ata_pio_blkdev_rd_def)
  show ?thesis using ata_rd_stores_one_sector [OF r] r by (simp add: ram_ata_dev_def)
qed

end
