(* ===== verification/Fs_Driver.thy ===== *)
theory Fs_Driver
  imports Kern_Prelude
begin

section \<open>The interface of a file system driver (vfs.h)\<close>

text \<open>
  The operations a file system driver offers to the VFS, as the C struct of function pointers
  (\<open>None\<close> is NULL), and the contract of such a driver as a locale: what the VFS relies on.  \<open>'fd\<close> is
  the driver's data behind \<open>driver_data\<close>, \<open>'w\<close> the state of the block devices.  \<open>destroy\<close>, which
  nothing calls, and \<open>wr\<close>, which no driver implements, are left out.
\<close>

abbreviation VFS_FILE_ID_NULL :: u64 where "VFS_FILE_ID_NULL \<equiv> 0"
abbreviation VFF_READ :: u8 where "VFF_READ \<equiv> 0x1"
abbreviation VFF_WRITE :: u8 where "VFF_WRITE \<equiv> 0x2"

datatype vfs_fs = VF_NULL | VF_FAT_16

datatype vfs_whence = VW_START | VW_CUR | VW_END

record ('fd, 'w) vfs_fs_driver =
  vd_data :: 'fd
  vd_is_open :: "('fd \<Rightarrow> u64 \<Rightarrow> bool exec) option"
  vd_open :: "('fd \<Rightarrow> u8 list \<Rightarrow> u8 \<Rightarrow> 'w \<Rightarrow> (u64 \<times> 'fd \<times> 'w) exec) option"
  vd_close :: "('fd \<Rightarrow> u64 \<Rightarrow> (int \<times> 'fd) exec) option"
  vd_abs_tell :: "('fd \<Rightarrow> u64 \<Rightarrow> (int \<times> u64) exec) option"
  vd_seek :: "('fd \<Rightarrow> u64 \<Rightarrow> vfs_whence \<Rightarrow> u64 \<Rightarrow> (int \<times> 'fd) exec) option"
  vd_rd :: "('fd \<Rightarrow> u64 \<Rightarrow> u8 list \<Rightarrow> u64 \<Rightarrow> 'w \<Rightarrow> (int \<times> u8 list \<times> 'fd \<times> 'w) exec) option"

text \<open>An offset cut to the file.\<close>

definition clamp :: "int \<Rightarrow> int \<Rightarrow> int" where
  "clamp sz i = min (max 0 i) sz"

text \<open>
  \<open>view d fid\<close> is the position and the size of the open file \<open>fid\<close>.  Seeking relative to the
  position is only promised to stay inside the file.
\<close>

locale fs_driver =
  fixes is_open :: "'fd \<Rightarrow> u64 \<Rightarrow> bool exec"
    and close :: "'fd \<Rightarrow> u64 \<Rightarrow> (int \<times> 'fd) exec"
    and abs_tell :: "'fd \<Rightarrow> u64 \<Rightarrow> (int \<times> u64) exec"
    and seek :: "'fd \<Rightarrow> u64 \<Rightarrow> vfs_whence \<Rightarrow> u64 \<Rightarrow> (int \<times> 'fd) exec"
    and ok :: "'fd \<Rightarrow> bool"
    and fid_ok :: "u64 \<Rightarrow> bool"
    and view :: "'fd \<Rightarrow> u64 \<Rightarrow> (int \<times> int) option"
  assumes view_fid: "view d fid \<noteq> None \<Longrightarrow> fid_ok fid"
    and is_open_law: "ok d \<Longrightarrow> fid_ok fid \<Longrightarrow> is_open d fid = Ret (view d fid \<noteq> None)"
    and close_law: "ok d \<Longrightarrow> view d fid \<noteq> None \<Longrightarrow>
      \<exists>d'. close d fid = Ret (0, d') \<and> ok d' \<and> view d' = (view d)(fid := None)"
    and tell_law: "ok d \<Longrightarrow> view d fid = Some (p, sz) \<Longrightarrow> \<exists>v. abs_tell d fid = Ret (0, v) \<and> uint v = p"
    and seek_law: "ok d \<Longrightarrow> view d fid = Some (p, sz) \<Longrightarrow>
      \<exists>d' p'. seek d fid whence off = Ret (0, d') \<and> ok d' \<and> view d' = (view d)(fid := Some (p', sz)) \<and>
        0 \<le> p' \<and> p' \<le> sz \<and> (whence = VW_START \<longrightarrow> p' = clamp sz (sint off)) \<and>
        (whence = VW_END \<longrightarrow> p' = clamp sz (sz + sint off))"

end
