(* ===== verification/Fat.thy ===== *)
theory Fat
  imports Blk_Cache Fs_Driver
begin

section \<open>The FAT16 file system (fat.c)\<close>

text \<open>
  The driver over a cached device: verification of the boot sector, directory entries, the open
  files.  The reader of the block cache is the argument \<open>crd\<close> (\<open>blk_cache_rd\<close>); the world \<open>'w\<close> it
  works on is the state of the block devices.  A C string is the list of its bytes without the
  terminating 0.  \<open>stk\<close> is what an uninitialised buffer on the stack holds.
\<close>

abbreviation FAT_MAX_FILE_DESCS :: nat where "FAT_MAX_FILE_DESCS \<equiv> 128"
abbreviation FDA_RO :: u8 where "FDA_RO \<equiv> 0x1"
abbreviation FDA_DIR :: u8 where "FDA_DIR \<equiv> 0x10"
abbreviation FDA_LFN :: u8 where "FDA_LFN \<equiv> 0xf"
abbreviation FFDF_OPEN :: u8 where "FFDF_OPEN \<equiv> 0x1"
abbreviation FFDF_READ :: u8 where "FFDF_READ \<equiv> 0x2"
abbreviation FFDF_WRITE :: u8 where "FFDF_WRITE \<equiv> 0x4"

type_synonym 'w crd_fn = "blk_cache \<Rightarrow> u8 list \<Rightarrow> u64 \<Rightarrow> u64 \<Rightarrow> 'w \<Rightarrow> (int \<times> u8 list \<times> blk_cache \<times> 'w) exec"

record bpb =
  bp_sector_size :: u16
  bp_cluster_size :: u8
  bp_res_sector_cnt :: u16
  bp_fat_cnt :: u8
  bp_root_dirent_cnt :: u16
  bp_sector_cnt :: u16
  bp_media_desc :: u8
  bp_fat_sectors :: u16
  bp_track_sectors :: u16
  bp_head_cnt :: u16
  bp_hidden_sector_cnt :: u32
  bp_large_sector_cnt :: u32

record fat_dirent_info =
  di_name :: "u8 list"
  di_time_mk :: "u8 \<times> u8 \<times> u8"
  di_date_mk :: "u16 \<times> u8 \<times> u8"
  di_date_acc :: "u16 \<times> u8 \<times> u8"
  di_time_mod :: "u8 \<times> u8 \<times> u8"
  di_date_mod :: "u16 \<times> u8 \<times> u8"
  di_attr :: u8
  di_cluster :: u64
  di_size :: u64

record fat_file_desc =
  fd_cluster :: u64
  fd_size :: u64
  fd_file_pos :: u64
  fd_flags :: u8

record fat_driver =
  ft_cache :: blk_cache
  ft_file_descs :: "fat_file_desc list"
  ft_sector_size :: u64
  ft_cluster_size :: u64
  ft_first_data_sector :: u64
  ft_sector_cnt :: u64
  ft_root_sector_cnt :: u64
  ft_data_sector_cnt :: u64
  ft_cluster_cnt :: u64

subsection \<open>The boot sector\<close>

text \<open>The packed \<open>struct bpb\<close> at the start of the sector.\<close>

definition bpb_of :: "u8 list \<Rightarrow> bpb" where
  "bpb_of buf = \<lparr>bp_sector_size = rd16 buf 11, bp_cluster_size = rd8 buf 13, bp_res_sector_cnt = rd16 buf 14,
     bp_fat_cnt = rd8 buf 16, bp_root_dirent_cnt = rd16 buf 17, bp_sector_cnt = rd16 buf 19,
     bp_media_desc = rd8 buf 21, bp_fat_sectors = rd16 buf 22, bp_track_sectors = rd16 buf 24,
     bp_head_cnt = rd16 buf 26, bp_hidden_sector_cnt = rd32 buf 28, bp_large_sector_cnt = rd32 buf 32\<rparr>"

definition bpb_sector_cnt :: "bpb \<Rightarrow> u64" where
  "bpb_sector_cnt b = (if bp_sector_cnt b \<noteq> 0 then ucast (bp_sector_cnt b) else ucast (bp_large_sector_cnt b))"

text \<open>
  The numbers both functions compute from the boot sector: the sectors of the root directory, the
  data sectors and the clusters, with the two divisions that can fail.
\<close>

definition bpb_geometry :: "bpb \<Rightarrow> (u64 \<times> u64 \<times> u64) exec" where
  "bpb_geometry b =
     (if bp_sector_size b = 0 then Fault
      else
        let root = (32 * ucast (bp_root_dirent_cnt b) + ucast (bp_sector_size b) - 1) div ucast (bp_sector_size b);
            data = bpb_sector_cnt b - ucast (bp_res_sector_cnt b) - ucast (bp_fat_cnt b) * ucast (bp_fat_sectors b) - root
        in if bp_cluster_size b = 0 then Fault
           else Ret (root, data, data div ucast (bp_cluster_size b)))"

definition fat_verify :: "u8 list \<Rightarrow> bd_ref \<Rightarrow> ('d, 'h, 'k) disks \<Rightarrow> (int \<times> ('d, 'h, 'k) disks) exec" where
  "fat_verify stk r s =
     seq (bd_get r s) (\<lambda>bd.
     if bd_blk_size bd \<noteq> 512 then Ret (1, s)
     else
       seq (blkdev_rd r stk 0 1 s) (\<lambda>(rc, buf, s).
       if rc \<noteq> 0 then Ret (1, s)
       else if rd16 buf 510 \<noteq> 0xaa55 then Ret (1, s)
       else
         let bpb = bpb_of buf in
         if bp_sector_size bpb \<noteq> 512 then Ret (1, s)
         else if bp_fat_sectors bpb = 0 then Ret (1, s)
         else
           seq (bpb_geometry bpb) (\<lambda>(root_sector_cnt, data_sector_cnt, cluster_cnt).
           if bpb_sector_cnt bpb = 0 then Ret (1, s)
           else if cluster_cnt < 4085 then Ret (1, s)
           else Ret (0, s))))"

definition fd_closed :: fat_file_desc where
  "fd_closed = \<lparr>fd_cluster = 0, fd_size = 0, fd_file_pos = 0, fd_flags = 0\<rparr>"

definition fat_driver_create :: "(u64 \<Rightarrow> 'k \<Rightarrow> (u64 \<times> 'k) exec) \<Rightarrow> (u64 \<Rightarrow> u8) \<Rightarrow> u8 list \<Rightarrow> bd_ref \<Rightarrow>
    ('d, 'h, 'k) disks \<Rightarrow> (fat_driver option \<times> ('d, 'h, 'k) disks) exec" where
  "fat_driver_create kalloc junk stk r s =
     seq (fat_verify stk r s) (\<lambda>(rc, s).
     if rc \<noteq> 0 then Ret (None, s)
     else
       seq (blkdev_rd r stk 0 1 s) (\<lambda>(rc, buf, s).
       if rc \<noteq> 0 then Ret (None, s)
       else
         let bpb = bpb_of buf in
         seq (bpb_geometry bpb) (\<lambda>(root_sector_cnt, data_sector_cnt, cluster_cnt).
         let first_data_sector = ucast (bp_res_sector_cnt bpb) + ucast (bp_fat_cnt bpb) * ucast (bp_fat_sectors bpb) + root_sector_cnt in
         seq (blk_cache_create kalloc junk r s) (\<lambda>(c, s).
         Ret (Some \<lparr>ft_cache = c, ft_file_descs = replicate FAT_MAX_FILE_DESCS fd_closed,
                    ft_sector_size = ucast (bp_sector_size bpb), ft_cluster_size = ucast (bp_cluster_size bpb),
                    ft_first_data_sector = first_data_sector, ft_sector_cnt = bpb_sector_cnt bpb,
                    ft_root_sector_cnt = root_sector_cnt, ft_data_sector_cnt = data_sector_cnt,
                    ft_cluster_cnt = cluster_cnt\<rparr>, s)))))"

definition fat_get_root :: "fat_driver \<Rightarrow> u64" where
  "fat_get_root drv = ft_sector_size drv * (ft_first_data_sector drv - ft_root_sector_cnt drv)"

definition cluster_to_pos :: "fat_driver \<Rightarrow> u64 \<Rightarrow> u64" where
  "cluster_to_pos drv cluster =
     (let sector_off = (cluster - 2) * ft_cluster_size drv in
      ft_sector_size drv * (ft_first_data_sector drv + sector_off))"

subsection \<open>Directory entries\<close>

text \<open>\<open>blk_cache_rd(&driver->blk_cache, rd_buf, pos, 32)\<close>; every byte of \<open>rd_buf\<close> used later was read.\<close>

definition rd_ent :: "'w crd_fn \<Rightarrow> u64 \<Rightarrow> fat_driver \<Rightarrow> 'w \<Rightarrow> (int \<times> u8 list \<times> fat_driver \<times> 'w) exec" where
  "rd_ent crd pos drv w =
     seq (crd (ft_cache drv) (replicate 32 0) pos 32 w) (\<lambda>(rc, buf, c, w). Ret (rc, buf, drv\<lparr>ft_cache := c\<rparr>, w))"

text \<open>The body of the first loop: \<open>Inl v\<close> in the result is an early \<open>return v\<close>, \<open>Inr pos\<close> a \<open>break\<close>.\<close>

definition next_skip :: "'w crd_fn \<Rightarrow> u64 \<times> fat_driver \<times> 'w \<Rightarrow>
    (u64 \<times> fat_driver \<times> 'w + (u64 + u64) \<times> fat_driver \<times> 'w) exec" where
  "next_skip crd st = (case st of (pos, drv, w) \<Rightarrow>
     seq (rd_ent crd pos drv w) (\<lambda>(rc, buf, drv, w).
     if rc \<noteq> 0 then Ret (Inr (Inl 1, drv, w))
     else if rd8 buf 0 = 0 then Ret (Inr (Inl 0, drv, w))
     else if rd8 buf 0 = 0xe5 then Ret (Inl (pos + 32, drv, w))
     else if rd8 buf 11 = FDA_LFN then Ret (Inl (pos + 32, drv, w))
     else Ret (Inr (Inr pos, drv, w))))"

text \<open>The body of the second loop, which reads at \<open>cur_de_last\<close> again.\<close>

definition next_find :: "'w crd_fn \<Rightarrow> u64 \<Rightarrow> u64 \<times> fat_driver \<times> 'w \<Rightarrow>
    (u64 \<times> fat_driver \<times> 'w + u64 \<times> fat_driver \<times> 'w) exec" where
  "next_find crd last_de st = (case st of (next_de, drv, w) \<Rightarrow>
     seq (rd_ent crd last_de drv w) (\<lambda>(rc, buf, drv, w).
     if rc \<noteq> 0 then Ret (Inr (1, drv, w))
     else if rd8 buf 0 = 0 then Ret (Inr (0, drv, w))
     else if rd8 buf 0 = 0xe5 then Ret (Inl (next_de + 32, drv, w))
     else Ret (Inr (next_de, drv, w))))"

definition fat_next_dirent :: "'w crd_fn \<Rightarrow> fat_driver \<Rightarrow> u64 \<Rightarrow> 'w \<Rightarrow> (u64 \<times> fat_driver \<times> 'w) exec" where
  "fat_next_dirent crd drv cur_de w =
     seq (forever (next_skip crd) (cur_de, drv, w)) (\<lambda>(res, drv, w).
     case res of
       Inl v \<Rightarrow> Ret (v, drv, w)
     | Inr last_de \<Rightarrow> forever (next_find crd last_de) (last_de + 32, drv, w))"

text \<open>A piece of a long name, each UCS-2 character cut to a byte; \<open>name\<close> has 255 bytes.\<close>

fun put_chars :: "nat \<Rightarrow> u16 list \<Rightarrow> u8 list \<Rightarrow> u8 list exec" where
  "put_chars i [] name = Ret name"
| "put_chars i (e # es) name =
     (if i < length name then put_chars (Suc i) es (name[i := ucast e]) else Fault)"

definition put_lfn :: "u8 list \<Rightarrow> u8 list \<Rightarrow> u8 list exec" where
  "put_lfn buf name =
     (let base = 13 * unat (rd8 buf 0) in
      seq (put_chars base (map (\<lambda>i. rd16 buf (1 + 2 * i)) [0..<5]) name) (\<lambda>name.
      seq (put_chars (base + 5) (map (\<lambda>i. rd16 buf (14 + 2 * i)) [0..<6]) name) (\<lambda>name.
      put_chars (base + 11) (map (\<lambda>i. rd16 buf (28 + 2 * i)) [0..<2]) name)))"

text \<open>The DOS name and extension, up to the first blank of each.\<close>

definition dos_name :: "u8 list \<Rightarrow> u8 list" where
  "dos_name buf =
     (let stem = takeWhile (\<lambda>c. c \<noteq> 0x20) (take 8 buf); ext = takeWhile (\<lambda>c. c \<noteq> 0x20) (take 3 (drop 8 buf)) in
      if stem \<noteq> [] \<and> ext \<noteq> [] then stem @ [0x2e] @ ext
      else if stem \<noteq> [] then stem
      else ext)"

definition put_dos :: "u8 list \<Rightarrow> u8 list \<Rightarrow> u8 list" where
  "put_dos buf name = (if hd name = 0 then dos_name buf @ drop (length (dos_name buf)) name else name)"

definition hms_of :: "u16 \<Rightarrow> u8 \<times> u8 \<times> u8" where
  "hms_of t = (ucast (t AND 0x1f), ucast (drop_bit 5 t AND 0x3f), 2 * ucast (drop_bit 11 t AND 0x1f))"

definition ymd_of :: "u16 \<Rightarrow> u16 \<times> u8 \<times> u8" where
  "ymd_of t = (t AND 0x7f, ucast (drop_bit 7 t AND 0xf), ucast (drop_bit 11 t AND 0x1f))"

definition dirent_info :: "u8 list \<Rightarrow> u8 list \<Rightarrow> fat_dirent_info" where
  "dirent_info buf name =
     \<lparr>di_name = name, di_time_mk = hms_of (rd16 buf 14), di_date_mk = ymd_of (rd16 buf 16),
      di_date_acc = ymd_of (rd16 buf 18), di_time_mod = hms_of (rd16 buf 22), di_date_mod = ymd_of (rd16 buf 24),
      di_attr = rd8 buf 11, di_cluster = ucast (rd16 buf 26), di_size = ucast (rd32 buf 28)\<rparr>"

definition info_body :: "'w crd_fn \<Rightarrow> u64 \<times> u8 list \<times> fat_driver \<times> 'w \<Rightarrow>
    (u64 \<times> u8 list \<times> fat_driver \<times> 'w + fat_dirent_info option \<times> fat_driver \<times> 'w) exec" where
  "info_body crd st = (case st of (de, name, drv, w) \<Rightarrow>
     seq (rd_ent crd de drv w) (\<lambda>(rc, buf, drv, w).
     if rc \<noteq> 0 then Ret (Inr (None, drv, w))
     else if rd8 buf 0 = 0 then Ret (Inr (None, drv, w))
     else if rd8 buf 0 = 0xe5 then Ret (Inl (de + 32, name, drv, w))
     else if rd8 buf 11 = FDA_LFN then
       seq (put_lfn buf name) (\<lambda>name. Ret (Inl (de + 32, name, drv, w)))
     else Ret (Inr (Some (dirent_info buf (put_dos buf name)), drv, w))))"

text \<open>\<open>None\<close> is the return code 1, with \<open>*out\<close> left alone.\<close>

definition fat_get_dirent_info :: "'w crd_fn \<Rightarrow> fat_driver \<Rightarrow> u64 \<Rightarrow> 'w \<Rightarrow>
    (fat_dirent_info option \<times> fat_driver \<times> 'w) exec" where
  "fat_get_dirent_info crd drv de w = forever (info_body crd) (de, replicate 255 0, drv, w)"

definition to_lower :: "u8 \<Rightarrow> u8" where
  "to_lower c = (if 0x41 \<le> c \<and> c \<le> 0x5a then c - 0x41 + 0x61 else c)"

text \<open>
  The comparison of a name with \<open>de_info.name\<close>: whether \<open>diff\<close> is 0 after it.  It stops at the end
  of either; \<open>de_info.name\<close> need not be terminated.
\<close>

fun names_match :: "u8 list \<Rightarrow> u8 list \<Rightarrow> bool exec" where
  "names_match [] bs = Ret True"
| "names_match (a # as) [] = Fault"
| "names_match (a # as) (b # bs) =
     (if b = 0 then Ret True
      else if to_lower a \<noteq> to_lower b then Ret False
      else names_match as bs)"

definition find_body :: "'w crd_fn \<Rightarrow> u8 list \<Rightarrow> u64 \<times> fat_driver \<times> 'w \<Rightarrow>
    (u64 \<times> fat_driver \<times> 'w + u64 \<times> fat_driver \<times> 'w) exec" where
  "find_body crd name st = (case st of (de, drv, w) \<Rightarrow>
     seq (fat_get_dirent_info crd drv de w) (\<lambda>(info, drv, w).
     case info of
       None \<Rightarrow> Ret (Inr (0, drv, w))
     | Some de_info \<Rightarrow>
         seq (names_match name (di_name de_info)) (\<lambda>same.
         if same then Ret (Inr (de, drv, w))
         else
           seq (fat_next_dirent crd drv de w) (\<lambda>(de, drv, w).
           if de = 0 then Ret (Inr (0, drv, w)) else Ret (Inl (de, drv, w))))))"

definition fat_find_dirent :: "'w crd_fn \<Rightarrow> fat_driver \<Rightarrow> u64 \<Rightarrow> u8 list \<Rightarrow> 'w \<Rightarrow> (u64 \<times> fat_driver \<times> 'w) exec" where
  "fat_find_dirent crd drv cur_de name w = forever (find_body crd name) (cur_de, drv, w)"

subsection \<open>Files\<close>

definition fat_fd :: "fat_driver \<Rightarrow> u64 \<Rightarrow> fat_file_desc exec" where
  "fat_fd drv fid = (if unat (fid - 1) < length (ft_file_descs drv)
     then Ret (ft_file_descs drv ! unat (fid - 1)) else Fault)"

definition set_fd :: "u64 \<Rightarrow> fat_file_desc \<Rightarrow> fat_driver \<Rightarrow> fat_driver" where
  "set_fd fid fd drv = drv\<lparr>ft_file_descs := (ft_file_descs drv)[unat (fid - 1) := fd]\<rparr>"

definition fat_vfs_is_open :: "fat_driver \<Rightarrow> u64 \<Rightarrow> bool exec" where
  "fat_vfs_is_open drv fid = seq (fat_fd drv fid) (\<lambda>fd. Ret (fd_flags fd AND FFDF_OPEN \<noteq> 0))"

fun find_slot_from :: "fat_file_desc list \<Rightarrow> nat \<Rightarrow> nat option" where
  "find_slot_from [] i = None"
| "find_slot_from (fd # fds) i = (if fd_flags fd AND FFDF_OPEN = 0 then Some i else find_slot_from fds (Suc i))"

definition fat_find_slot :: "fat_driver \<Rightarrow> u64 option" where
  "fat_find_slot drv = map_option (\<lambda>i. of_nat i + 1) (find_slot_from (ft_file_descs drv) 0)"

text \<open>Looking up one component of the path; \<open>None\<close> is a \<open>return VFS_FILE_ID_NULL\<close>.\<close>

definition open_step :: "'w crd_fn \<Rightarrow> u8 list \<Rightarrow> u64 \<Rightarrow> fat_driver \<Rightarrow> 'w \<Rightarrow>
    (fat_dirent_info option \<times> fat_driver \<times> 'w) exec" where
  "open_step crd path_buf de drv w =
     (if length path_buf \<ge> 256 then Fault
      else
        seq (fat_find_dirent crd drv de path_buf w) (\<lambda>(de, drv, w).
        if de = 0 then Ret (None, drv, w) else fat_get_dirent_info crd drv de w))"

text \<open>
  The loop over the path, with \<open>path_buf\<close> (its first \<open>path_len\<close> bytes) and \<open>de_info\<close>.
\<close>

fun open_walk :: "'w crd_fn \<Rightarrow> u8 list \<Rightarrow> u8 list \<Rightarrow> u64 \<Rightarrow> fat_dirent_info \<Rightarrow> fat_driver \<Rightarrow> 'w \<Rightarrow>
    ((u8 list \<times> u64 \<times> fat_dirent_info) option \<times> fat_driver \<times> 'w) exec" where
  "open_walk crd [] path_buf de de_info drv w = Ret (Some (path_buf, de, de_info), drv, w)"
| "open_walk crd (c # cs) path_buf de de_info drv w =
     (if c \<noteq> 0x2f then
        (if length path_buf < 256 then open_walk crd cs (path_buf @ [c]) de de_info drv w else Fault)
      else if path_buf = [] then open_walk crd cs [] de de_info drv w
      else
        seq (open_step crd path_buf de drv w) (\<lambda>(info, drv, w).
        case info of
          None \<Rightarrow> Ret (None, drv, w)
        | Some de_info \<Rightarrow>
            if di_attr de_info AND FDA_DIR = 0 \<and> cs \<noteq> [] then Ret (None, drv, w)
            else open_walk crd cs [] (cluster_to_pos drv (di_cluster de_info)) de_info drv w))"

definition open_flags :: "u8 \<Rightarrow> u8" where
  "open_flags flags = FFDF_OPEN OR FFDF_READ * of_bool (flags AND VFF_READ \<noteq> 0) OR
     FFDF_WRITE * of_bool (flags AND VFF_WRITE \<noteq> 0)"

text \<open>The end of \<open>fat_vfs_open\<close>, once the entry of the file is known.\<close>

definition open_file :: "fat_dirent_info \<Rightarrow> u8 \<Rightarrow> fat_driver \<Rightarrow> u64 \<times> fat_driver" where
  "open_file de_info flags drv =
     (if di_attr de_info AND FDA_DIR \<noteq> 0 then (VFS_FILE_ID_NULL, drv)
      else if flags AND VFF_WRITE \<noteq> 0 \<and> di_attr de_info AND FDA_RO \<noteq> 0 then (VFS_FILE_ID_NULL, drv)
      else (case fat_find_slot drv of
         None \<Rightarrow> (VFS_FILE_ID_NULL, drv)
       | Some fid \<Rightarrow> (fid, set_fd fid \<lparr>fd_cluster = di_cluster de_info, fd_size = di_size de_info, fd_file_pos = 0,
            fd_flags = open_flags flags\<rparr> drv)))"

definition fat_vfs_open :: "'w crd_fn \<Rightarrow> fat_dirent_info \<Rightarrow> fat_driver \<Rightarrow> u8 list \<Rightarrow> u8 \<Rightarrow> 'w \<Rightarrow>
    (u64 \<times> fat_driver \<times> 'w) exec" where
  "fat_vfs_open crd stk_info drv path flags w =
     seq (open_walk crd path [] (fat_get_root drv) stk_info drv w) (\<lambda>(res, drv, w).
     case res of
       None \<Rightarrow> Ret (VFS_FILE_ID_NULL, drv, w)
     | Some (path_buf, de, de_info) \<Rightarrow>
         if path_buf \<noteq> [] then
           seq (open_step crd path_buf de drv w) (\<lambda>(info, drv, w).
           case info of
             None \<Rightarrow> Ret (VFS_FILE_ID_NULL, drv, w)
           | Some de_info \<Rightarrow> (case open_file de_info flags drv of (fid, drv) \<Rightarrow> Ret (fid, drv, w)))
         else (case open_file de_info flags drv of (fid, drv) \<Rightarrow> Ret (fid, drv, w)))"

definition fat_vfs_close :: "fat_driver \<Rightarrow> u64 \<Rightarrow> (int \<times> fat_driver) exec" where
  "fat_vfs_close drv fid = seq (fat_fd drv fid) (\<lambda>fd. Ret (0, set_fd fid fd_closed drv))"

definition fat_vfs_abs_tell :: "fat_driver \<Rightarrow> u64 \<Rightarrow> (int \<times> u64) exec" where
  "fat_vfs_abs_tell drv fid = seq (fat_fd drv fid) (\<lambda>fd. Ret (0, fd_file_pos fd))"

text \<open>\<open>off\<close> is a \<open>long long\<close>; comparing it with a \<open>size_t\<close> converts it to unsigned.\<close>

definition seek_pos :: "fat_file_desc \<Rightarrow> vfs_whence \<Rightarrow> u64 \<Rightarrow> u64" where
  "seek_pos fd whence off =
     (case whence of
        VW_START \<Rightarrow>
          let off = if sint off < 0 then 0 else off in
          if off > fd_size fd then fd_size fd else off
      | VW_CUR \<Rightarrow>
          let off = if sint off < sint (- fd_file_pos fd) then - fd_file_pos fd else off;
              off = if off > fd_size fd - fd_file_pos fd then fd_size fd - fd_file_pos fd else off
          in fd_file_pos fd + off
      | VW_END \<Rightarrow>
          let off = if sint off < sint (- fd_size fd) then - fd_size fd else off;
              off = if sint off > 0 then 0 else off
          in fd_size fd + off)"

definition fat_vfs_seek :: "fat_driver \<Rightarrow> u64 \<Rightarrow> vfs_whence \<Rightarrow> u64 \<Rightarrow> (int \<times> fat_driver) exec" where
  "fat_vfs_seek drv fid whence off =
     seq (fat_fd drv fid) (\<lambda>fd. Ret (0, set_fd fid (fd\<lparr>fd_file_pos := seek_pos fd whence off\<rparr>) drv))"

definition fat_vfs_rd :: "'w crd_fn \<Rightarrow> fat_driver \<Rightarrow> u64 \<Rightarrow> u8 list \<Rightarrow> u64 \<Rightarrow> 'w \<Rightarrow>
    (int \<times> u8 list \<times> fat_driver \<times> 'w) exec" where
  "fat_vfs_rd crd drv fid dst n w =
     seq (fat_fd drv fid) (\<lambda>fd.
     if fd_file_pos fd \<ge> fd_size fd then Ret (1, dst, drv, w)
     else if fd_file_pos fd + n > fd_size fd then Ret (1, dst, drv, w)
     else
       let rd_pos = cluster_to_pos drv (fd_cluster fd) + fd_file_pos fd in
       seq (crd (ft_cache drv) dst rd_pos n w) (\<lambda>(rc, dst, c, w).
       let drv = drv\<lparr>ft_cache := c\<rparr> in
       if rc \<noteq> 0 then Ret (1, dst, drv, w) else Ret (0, dst, drv, w)))"

subsection \<open>Directories as lists of entries\<close>

text \<open>
  An entry of a directory ends it, or is skipped (unused, or a part of a long name), or is a
  standard entry.
\<close>

definition ent_end :: "u8 list \<Rightarrow> bool" where
  "ent_end e \<longleftrightarrow> rd8 e 0 = 0"

definition ent_unused :: "u8 list \<Rightarrow> bool" where
  "ent_unused e \<longleftrightarrow> rd8 e 0 = 0xe5"

definition ent_lfn :: "u8 list \<Rightarrow> bool" where
  "ent_lfn e \<longleftrightarrow> rd8 e 0 \<noteq> 0xe5 \<and> rd8 e 11 = FDA_LFN"

definition ent_skip :: "u8 list \<Rightarrow> bool" where
  "ent_skip e \<longleftrightarrow> \<not> ent_end e \<and> (ent_unused e \<or> ent_lfn e)"

text \<open>
  Looking a name up in one pass over the entries: \<open>start\<close> is where the entry that is being read
  started, \<open>lname\<close> its long name so far.
\<close>

fun dir_find :: "u8 list \<Rightarrow> u8 list list \<Rightarrow> nat \<Rightarrow> nat \<Rightarrow> u8 list \<Rightarrow> nat option exec" where
  "dir_find name [] start i lname = Ret None"
| "dir_find name (e # es) start i lname =
     (if ent_end e then Ret None
      else if ent_unused e then dir_find name es start (Suc i) lname
      else if ent_lfn e then seq (put_lfn e lname) (dir_find name es start (Suc i))
      else seq (names_match name (put_dos e lname)) (\<lambda>same.
        if same then Ret (Some start) else dir_find name es (Suc i) (Suc i) (replicate 255 0)))"

text \<open>The long name the skipped entries leave.\<close>

definition put_lfns :: "u8 list list \<Rightarrow> u8 list \<Rightarrow> u8 list exec" where
  "put_lfns es = for_each (filter ent_lfn es) put_lfn"

lemma put_lfns_simps [simp]:
  "put_lfns [] name = Ret name"
  "put_lfns (e # es) name = (if ent_lfn e then seq (put_lfn e name) (put_lfns es) else put_lfns es name)"
  by (simp_all add: put_lfns_def cong: seq_cong)

lemma dir_find_skips:
  "\<forall>e \<in> set es. ent_skip e \<Longrightarrow>
   dir_find name (es @ fs) start i lname = seq (put_lfns es lname) (dir_find name fs start (i + length es))"
proof (induction es arbitrary: i lname)
  case (Cons e es)
  then have "ent_skip e" and IH: "\<And>i lname. dir_find name (es @ fs) start i lname =
      seq (put_lfns es lname) (dir_find name fs start (i + length es))" by auto
  then show ?case
    by (auto simp: ent_skip_def ent_unused_def ent_lfn_def seq_assoc intro!: seq_cong)
qed simp

subsection \<open>Reading directories through a reader of bytes\<close>

definition ent_at :: "(nat \<Rightarrow> u8) \<Rightarrow> nat \<Rightarrow> u8 list" where
  "ent_at f a = map f [a..<a + 32]"

context byte_reader
begin

text \<open>The driver's cache works, and entries do not cross its blocks.\<close>

definition fs_ok :: "fat_driver \<Rightarrow> 'w \<Rightarrow> bool" where
  "fs_ok drv w \<longleftrightarrow> good (ft_cache drv) w \<and> 32 dvd bsize (ft_cache drv) w \<and> 0 < bsize (ft_cache drv) w \<and>
     total (ft_cache drv) w < 2 ^ 64"

definition fs_bytes :: "fat_driver \<Rightarrow> 'w \<Rightarrow> nat \<Rightarrow> u8" where
  "fs_bytes drv w = content (ft_cache drv) w"

definition fs_total :: "fat_driver \<Rightarrow> 'w \<Rightarrow> nat" where
  "fs_total drv w = total (ft_cache drv) w"

text \<open>Reading changes nothing but the cache.\<close>

definition fs_same :: "fat_driver \<Rightarrow> 'w \<Rightarrow> fat_driver \<Rightarrow> 'w \<Rightarrow> bool" where
  "fs_same drv w drv' w' \<longleftrightarrow> drv' = drv\<lparr>ft_cache := ft_cache drv'\<rparr> \<and> fs_ok drv' w' \<and>
     fs_bytes drv' w' = fs_bytes drv w \<and> fs_total drv' w' = fs_total drv w \<and>
     bsize (ft_cache drv') w' = bsize (ft_cache drv) w"

lemma fs_same_trans: "fs_same drv w drv' w' \<Longrightarrow> fs_same drv' w' drv'' w'' \<Longrightarrow> fs_same drv w drv'' w''"
  unfolding fs_same_def by (metis fat_driver.surjective fat_driver.update_convs(1))

lemma fs_same_ok: "fs_same drv w drv' w' \<Longrightarrow> fs_ok drv' w'"
  by (simp add: fs_same_def)

lemma rd_ent_ok:
  assumes "fs_ok drv w" and "32 dvd unat pos" and "unat pos + 32 \<le> fs_total drv w"
  shows "\<exists>drv' w'. rd_ent crd pos drv w = Ret (0, ent_at (fs_bytes drv w) (unat pos), drv', w') \<and> fs_same drv w drv' w'"
proof -
  let ?c = "ft_cache drv"
  have g: "good ?c w" "32 dvd bsize ?c w" "0 < bsize ?c w" "total ?c w < 2 ^ 64" using assms(1) by (simp_all add: fs_ok_def)
  have "unat pos mod bsize ?c w + 32 \<le> bsize ?c w"
  proof -
    have "32 dvd unat pos mod bsize ?c w" using assms(2) g(2) by (simp add: dvd_mod)
    then obtain q where q: "unat pos mod bsize ?c w = 32 * q" by blast
    obtain b where b: "bsize ?c w = 32 * b" using g(2) by blast
    have "32 * q < 32 * b" using mod_less_divisor [OF g(3), of "unat pos"] q b by simp
    then show ?thesis using q b by simp
  qed
  then obtain c' w' where r: "crd ?c (replicate 32 0) pos 32 w =
      Ret (0, map (content ?c w) [unat pos..<unat pos + 32] @ drop 32 (replicate 32 0), c', w')"
    "good c' w'" "content c' w' = content ?c w" "bsize c' w' = bsize ?c w" "total c' w' = total ?c w"
    using crd_law [OF g(1), of 32 "replicate 32 0" pos] assms(3) by (auto simp: fs_total_def)
  have "rd_ent crd pos drv w = Ret (0, ent_at (fs_bytes drv w) (unat pos), drv\<lparr>ft_cache := c'\<rparr>, w')"
    using r(1) by (simp add: rd_ent_def ent_at_def fs_bytes_def)
  moreover have "fs_same drv w (drv\<lparr>ft_cache := c'\<rparr>) w'"
    using r g by (simp add: fs_same_def fs_ok_def fs_bytes_def fs_total_def)
  ultimately show ?thesis by blast
qed

end

definition dir_at :: "(nat \<Rightarrow> u8) \<Rightarrow> nat \<Rightarrow> nat \<Rightarrow> u8 list list" where
  "dir_at f a n = map (\<lambda>k. ent_at f (a + 32 * k)) [0..<n]"

lemma dir_at_Suc: "dir_at f a (Suc n) = ent_at f a # dir_at f (a + 32) n"
  by (simp add: dir_at_def upt_rec [of 0] map_Suc_upt [symmetric] comp_def add.assoc del: upt_Suc)

lemma dir_at_0 [simp]: "dir_at f a 0 = []" by (simp add: dir_at_def)

context byte_reader
begin

text \<open>Entries \<open>0 .. n\<close> from \<open>pos\<close> on are on the device.\<close>

definition dir_readable :: "fat_driver \<Rightarrow> 'w \<Rightarrow> u64 \<Rightarrow> nat \<Rightarrow> bool" where
  "dir_readable drv w pos n \<longleftrightarrow> fs_ok drv w \<and> 32 dvd unat pos \<and> unat pos + 32 * Suc n \<le> fs_total drv w"

lemma dir_readable_next:
  assumes "dir_readable drv w pos (Suc n)" and "fs_same drv w drv' w'"
  shows "unat (pos + 32) = unat pos + 32" "dir_readable drv' w' (pos + 32) n"
proof -
  have "fs_total drv w < 2 ^ 64" using assms(1) by (simp add: dir_readable_def fs_ok_def fs_total_def)
  then show u: "unat (pos + 32) = unat pos + 32"
    using assms(1) by (subst unat_add_u64) (simp_all add: dir_readable_def)
  show "dir_readable drv' w' (pos + 32) n"
    using assms u by (auto simp: dir_readable_def fs_same_def)
qed

lemma dir_readable_ent:
  assumes "dir_readable drv w pos n"
  shows "\<exists>drv' w'. rd_ent crd pos drv w = Ret (0, ent_at (fs_bytes drv w) (unat pos), drv', w') \<and> fs_same drv w drv' w'"
  using assms by (intro rd_ent_ok) (simp_all add: dir_readable_def)

lemma next_skip_run:
  "dir_readable drv w pos k \<Longrightarrow> \<forall>e \<in> set (dir_at (fs_bytes drv w) (unat pos) k). ent_skip e \<Longrightarrow>
   e = ent_at (fs_bytes drv w) (unat pos + 32 * k) \<Longrightarrow> \<not> ent_skip e \<Longrightarrow>
   \<exists>drv' w'. forever (next_skip crd) (pos, drv, w) =
     Ret (if ent_end e then Inl 0 else Inr (pos + of_nat (32 * k)), drv', w') \<and> fs_same drv w drv' w'"
proof (induction k arbitrary: pos drv w)
  case 0
  obtain drv' w' where r: "rd_ent crd pos drv w = Ret (0, e, drv', w')" "fs_same drv w drv' w'"
    using dir_readable_ent [OF "0.prems"(1)] "0.prems"(3) by auto
  have "next_skip crd (pos, drv, w) = Ret (Inr (if ent_end e then Inl 0 else Inr pos, drv', w'))"
    using r(1) "0.prems"(4) by (auto simp: next_skip_def ent_skip_def ent_end_def ent_unused_def ent_lfn_def)
  then show ?case using r(2) by (simp add: forever_step(2))
next
  case (Suc k)
  let ?f = "fs_bytes drv w"
  obtain drv1 w1 where r: "rd_ent crd pos drv w = Ret (0, ent_at ?f (unat pos), drv1, w1)" "fs_same drv w drv1 w1"
    using dir_readable_ent [OF Suc.prems(1)] by auto
  have f: "fs_bytes drv1 w1 = ?f" using r(2) by (simp add: fs_same_def)
  note n = dir_readable_next [OF Suc.prems(1) r(2)]
  have "ent_skip (ent_at ?f (unat pos))" using Suc.prems(2) by (simp add: dir_at_Suc)
  then have "next_skip crd (pos, drv, w) = Ret (Inl (pos + 32, drv1, w1))"
    using r(1) by (auto simp: next_skip_def ent_skip_def ent_end_def ent_unused_def ent_lfn_def)
  moreover have a: "unat pos + 32 * Suc k = unat pos + 32 + 32 * k" by simp
  moreover obtain drv' w' where ih: "forever (next_skip crd) (pos + 32, drv1, w1) =
      Ret (if ent_end e then Inl 0 else Inr (pos + 32 + of_nat (32 * k)), drv', w')" "fs_same drv1 w1 drv' w'"
    using Suc.IH [OF n(2)] Suc.prems(2) Suc.prems(3) [unfolded a] Suc.prems(4) unfolding f n(1) dir_at_Suc by auto
  moreover have "pos + 32 + of_nat (32 * k) = pos + of_nat (32 * Suc k)" by simp
  ultimately show ?case using fs_same_trans [OF r(2) ih(2)] by (simp add: forever_step(1))
qed

lemma info_run:
  "dir_readable drv w pos k \<Longrightarrow> \<forall>e \<in> set (dir_at (fs_bytes drv w) (unat pos) k). ent_skip e \<Longrightarrow>
   e = ent_at (fs_bytes drv w) (unat pos + 32 * k) \<Longrightarrow> \<not> ent_skip e \<Longrightarrow>
   \<exists>drv' w'. forever (info_body crd) (pos, name, drv, w) =
     seq (put_lfns (dir_at (fs_bytes drv w) (unat pos) k) name) (\<lambda>name.
       Ret (if ent_end e then None else Some (dirent_info e (put_dos e name)), drv', w')) \<and> fs_same drv w drv' w'"
proof (induction k arbitrary: pos drv w name)
  case 0
  obtain drv' w' where r: "rd_ent crd pos drv w = Ret (0, e, drv', w')" "fs_same drv w drv' w'"
    using dir_readable_ent [OF "0.prems"(1)] "0.prems"(3) by auto
  have "info_body crd (pos, name, drv, w) =
      Ret (Inr (if ent_end e then None else Some (dirent_info e (put_dos e name)), drv', w'))"
    using r(1) "0.prems"(4) by (auto simp: info_body_def ent_skip_def ent_end_def ent_unused_def ent_lfn_def)
  then show ?case using r(2) by (simp add: forever_step(2))
next
  case (Suc k)
  let ?f = "fs_bytes drv w" and ?e = "ent_at (fs_bytes drv w) (unat pos)"
  obtain drv1 w1 where r: "rd_ent crd pos drv w = Ret (0, ?e, drv1, w1)" "fs_same drv w drv1 w1"
    using dir_readable_ent [OF Suc.prems(1)] by auto
  have f: "fs_bytes drv1 w1 = ?f" using r(2) by (simp add: fs_same_def)
  note n = dir_readable_next [OF Suc.prems(1) r(2)]
  have sk: "ent_skip ?e" using Suc.prems(2) by (simp add: dir_at_Suc)
  have a: "unat pos + 32 * Suc k = unat pos + 32 + 32 * k" by simp
  have ih: "\<exists>drv' w'. forever (info_body crd) (pos + 32, name', drv1, w1) =
      seq (put_lfns (dir_at ?f (unat pos + 32) k) name') (\<lambda>name.
        Ret (if ent_end e then None else Some (dirent_info e (put_dos e name)), drv', w')) \<and> fs_same drv w drv' w'" for name'
  proof -
    have "\<forall>x \<in> set (dir_at ?f (unat pos + 32) k). ent_skip x" using Suc.prems(2) by (simp add: dir_at_Suc)
    then show ?thesis
      using Suc.IH [OF n(2), of name'] Suc.prems(3) [unfolded a] Suc.prems(4) fs_same_trans [OF r(2)]
      unfolding f n(1) by blast
  qed
  show ?case
  proof (cases "ent_lfn ?e")
    case True
    then have b: "info_body crd (pos, name, drv, w) = seq (put_lfn ?e name) (\<lambda>name. Ret (Inl (pos + 32, name, drv1, w1)))"
      using r(1) sk by (auto simp: info_body_def ent_skip_def ent_end_def ent_unused_def ent_lfn_def)
    show ?thesis
    proof (cases "put_lfn ?e name")
      case (Ret name')
      then show ?thesis using ih [of name'] True b by (simp add: forever_unfold [of "info_body crd" "(pos, name, drv, w)"] dir_at_Suc)
    next
      case Spin
      then show ?thesis using b True r(2) by (auto simp: forever_unfold [of "info_body crd" "(pos, name, drv, w)"] dir_at_Suc)
    next
      case Fault
      then show ?thesis using b True r(2) by (auto simp: forever_unfold [of "info_body crd" "(pos, name, drv, w)"] dir_at_Suc)
    qed
  next
    case False
    then have "info_body crd (pos, name, drv, w) = Ret (Inl (pos + 32, name, drv1, w1))"
      using r(1) sk by (auto simp: info_body_def ent_skip_def ent_end_def ent_unused_def ent_lfn_def)
    then show ?thesis using ih [of name] False by (simp add: forever_step(1) dir_at_Suc)
  qed
qed

end

lemma dir_at_add: "dir_at f a (m + n) = dir_at f a m @ dir_at f (a + 32 * m) n"
proof (induction m arbitrary: a)
  case (Suc m)
  have "a + 32 + 32 * m = a + 32 * Suc m" by simp
  then show ?case using Suc.IH [of "a + 32"] by (simp only: dir_at_Suc add_Suc append_Cons)
qed simp

lemma dir_find_shift:
  "dir_find name es (s + m) (i + m) l = seq (dir_find name es s i l) (\<lambda>r. Ret (map_option (\<lambda>k. k + m) r))"
proof (induction es arbitrary: s i l)
  case (Cons e es)
  have "dir_find name es (Suc (i + m)) (Suc (i + m)) l =
      seq (dir_find name es (Suc i) (Suc i) l) (\<lambda>r. Ret (map_option (\<lambda>k. k + m) r))" for l
    using Cons.IH [of "Suc i" "Suc i" l] by simp
  moreover have "dir_find name es (s + m) (Suc (i + m)) l =
      seq (dir_find name es s (Suc i) l) (\<lambda>r. Ret (map_option (\<lambda>k. k + m) r))" for l
    using Cons.IH [of s "Suc i" l] by simp
  ultimately show ?case by (auto simp: seq_assoc intro!: seq_cong)
qed simp

lemma dir_find_first:
  assumes "j \<le> n" "\<forall>e \<in> set (dir_at f a j). ent_skip e" "e = ent_at f (a + 32 * j)"
  shows "dir_find name (dir_at f a (Suc n)) 0 0 l = seq (put_lfns (dir_at f a j) l)
    (dir_find name (e # dir_at f (a + 32 * j + 32) (n - j)) 0 j)"
proof -
  have "dir_at f a (Suc n) = dir_at f a j @ e # dir_at f (a + 32 * j + 32) (n - j)"
    using dir_at_add [of f a j "Suc (n - j)"] assms(1,3) by (simp add: dir_at_Suc Suc_diff_le)
  moreover have "length (dir_at f a j) = j" by (simp add: dir_at_def)
  ultimately show ?thesis by (simp only: dir_find_skips [OF assms(2)]) simp
qed

text \<open>An entry with another name is left behind, and the search starts again after it.\<close>

lemma dir_find_other:
  assumes "\<not> ent_skip e" "\<not> ent_end e" "names_match name (put_dos e l) = Ret False"
  shows "dir_find name (e # es) 0 j l =
    seq (dir_find name es 0 0 (replicate 255 0)) (\<lambda>r. Ret (map_option (\<lambda>k. k + Suc j) r))"
  using assms dir_find_shift [of name es 0 "Suc j" 0 "replicate 255 0"] by (simp add: ent_skip_def)

context byte_reader
begin

lemma fs_same_refl: "fs_ok drv w \<Longrightarrow> fs_same drv w drv w"
  by (simp add: fs_same_def)

lemma dir_readable_at:
  assumes "dir_readable drv w pos n" and "k \<le> n" and "fs_same drv w drv' w'"
  shows "unat (pos + of_nat (32 * k)) = unat pos + 32 * k" "dir_readable drv' w' (pos + of_nat (32 * k)) (n - k)"
proof -
  have t: "fs_total drv w < 2 ^ 64" "unat pos + 32 * Suc n \<le> fs_total drv w" "32 dvd unat pos"
    using assms(1) by (simp_all add: dir_readable_def fs_ok_def fs_total_def)
  have "unat pos + 32 * k \<le> fs_total drv w" using t(2) assms(2) by simp
  then have le: "unat pos + 32 * k < 2 ^ 64" using t(1) by (rule le_less_trans)
  then have "32 * k < 2 ^ 64" by simp
  note le = this le
  then show u: "unat (pos + of_nat (32 * k)) = unat pos + 32 * k"
    by (subst unat_add_u64) (simp_all only: unat_of_nat_u64)
  have "unat pos + 32 * k + 32 * Suc (n - k) \<le> fs_total drv w" using t(2) assms(2) by simp
  then show "dir_readable drv' w' (pos + of_nat (32 * k)) (n - k)"
    unfolding dir_readable_def u using assms(3) t(3) by (simp add: fs_same_def)
qed

lemma dir_readable_less: "dir_readable drv w pos n \<Longrightarrow> k \<le> n \<Longrightarrow> dir_readable drv w pos k"
  by (auto simp: dir_readable_def)

lemma fat_next_dirent_run:
  assumes rd: "dir_readable drv w pos k" and sk: "\<forall>e \<in> set (dir_at (fs_bytes drv w) (unat pos) k). ent_skip e"
    and e: "e = ent_at (fs_bytes drv w) (unat pos + 32 * k)" "\<not> ent_skip e"
  shows "\<exists>drv' w'. fat_next_dirent crd drv pos w =
    Ret (if ent_end e then 0 else pos + of_nat (32 * k) + 32, drv', w') \<and> fs_same drv w drv' w'"
proof -
  obtain drv1 w1 where r1: "forever (next_skip crd) (pos, drv, w) =
      Ret (if ent_end e then Inl 0 else Inr (pos + of_nat (32 * k)), drv1, w1)" and s1: "fs_same drv w drv1 w1"
    using next_skip_run [OF assms] by blast
  show ?thesis
  proof (cases "ent_end e")
    case True
    then show ?thesis using r1 s1 by (auto simp: fat_next_dirent_def)
  next
    case False
    let ?last = "pos + of_nat (32 * k)"
    note l = dir_readable_at [OF rd order_refl s1]
    have f: "fs_bytes drv1 w1 = fs_bytes drv w" using s1 by (simp add: fs_same_def)
    obtain drv2 w2 where r2: "rd_ent crd ?last drv1 w1 = Ret (0, e, drv2, w2)" and s2: "fs_same drv1 w1 drv2 w2"
      using dir_readable_ent [OF l(2)] unfolding f l(1) e(1) by blast
    have "next_find crd ?last (?last + 32, drv1, w1) = Ret (Inr (?last + 32, drv2, w2))"
      using r2 e(2) False by (auto simp: next_find_def ent_skip_def ent_end_def ent_unused_def)
    then have "fat_next_dirent crd drv pos w = Ret (?last + 32, drv2, w2)"
      using r1 False by (simp add: fat_next_dirent_def forever_step(2))
    then show ?thesis using False fs_same_trans [OF s1 s2] by auto
  qed
qed

text \<open>The first entry that is not skipped, in a directory that ends.\<close>

lemma first_entry:
  assumes "ent_end (ent_at f (a + 32 * n))"
  shows "\<exists>j \<le> n. (\<forall>e \<in> set (dir_at f a j). ent_skip e) \<and> \<not> ent_skip (ent_at f (a + 32 * j))"
proof -
  define j where "j = (LEAST j. \<not> ent_skip (ent_at f (a + 32 * j)))"
  have n: "\<not> ent_skip (ent_at f (a + 32 * n))" using assms by (simp add: ent_skip_def)
  then have "\<not> ent_skip (ent_at f (a + 32 * j))" unfolding j_def by (rule LeastI)
  moreover have "j \<le> n" unfolding j_def using n by (rule Least_le)
  moreover have "\<forall>e \<in> set (dir_at f a j). ent_skip e"
    using not_less_Least [of _ "\<lambda>j. \<not> ent_skip (ent_at f (a + 32 * j))"] by (auto simp: dir_at_def j_def)
  ultimately show ?thesis by blast
qed

text \<open>The search at the first entry that is not skipped: it ends there, or it goes on behind it.\<close>

lemma find_body_stop:
  assumes gi: "fat_get_dirent_info crd drv pos w =
      seq ls (\<lambda>name. Ret (if ent_end e then None else Some (dirent_info e (put_dos e name)), drv1, w1))"
    and stop: "\<And>l. ls = Ret l \<Longrightarrow> ent_end e \<or> names_match name (put_dos e l) \<noteq> Ret False"
    and ns: "\<not> ent_skip e"
  shows "forever (find_body crd name) (pos, drv, w) = seq (seq ls (dir_find name (e # es) 0 j))
    (\<lambda>r. Ret (case r of None \<Rightarrow> 0 | Some i \<Rightarrow> pos + of_nat (32 * i), drv1, w1))"
proof (cases ls)
  case (Ret l)
  let ?m = "names_match name (put_dos e l)"
  have nm: "di_name (dirent_info e x) = x" for x by (simp add: dirent_info_def)
  have "dir_find name (e # es) 0 j l = (if ent_end e then Ret None else seq ?m (\<lambda>same. Ret (Some 0)))"
    using stop [OF Ret] ns by (cases ?m) (auto simp: ent_skip_def)
  moreover have "fat_get_dirent_info crd drv pos w =
      Ret (if ent_end e then None else Some (dirent_info e (put_dos e l)), drv1, w1)"
    using gi Ret by simp
  ultimately show ?thesis using stop [OF Ret] Ret
    by (cases ?m) (auto simp: forever_unfold [of "find_body crd name" "(pos, drv, w)"] find_body_def nm)
qed (use gi in \<open>auto simp: forever_unfold [of "find_body crd name" "(pos, drv, w)"] find_body_def\<close>)

lemma find_body_next:
  assumes rd: "dir_readable drv w pos n" and j: "j < n" "\<forall>e \<in> set (dir_at (fs_bytes drv w) (unat pos) j). ent_skip e"
    and e: "e = ent_at (fs_bytes drv w) (unat pos + 32 * j)" "\<not> ent_skip e" "\<not> ent_end e"
    and gi: "fat_get_dirent_info crd drv pos w = Ret (Some (dirent_info e (put_dos e l)), drv1, w1)"
    and s1: "fs_same drv w drv1 w1" and m: "names_match name (put_dos e l) = Ret False"
  obtains drv2 w2 where "find_body crd name (pos, drv, w) = Ret (Inl (pos + of_nat (32 * Suc j), drv2, w2))"
    and "fs_same drv w drv2 w2"
proof -
  have f1: "fs_bytes drv1 w1 = fs_bytes drv w" using s1 by (simp add: fs_same_def)
  have "dir_readable drv1 w1 pos j"
    using dir_readable_less [OF rd, of j] j(1) s1 by (simp add: dir_readable_def fs_same_def)
  from fat_next_dirent_run [OF this] obtain drv2 w2 where
    nx: "fat_next_dirent crd drv1 pos w1 = Ret (pos + of_nat (32 * j) + 32, drv2, w2)" and s2: "fs_same drv1 w1 drv2 w2"
    using j(2) e by (auto simp: f1)
  have s12: "fs_same drv w drv2 w2" using s1 s2 by (rule fs_same_trans)
  have pos': "pos + of_nat (32 * j) + 32 = pos + of_nat (32 * Suc j)" by simp
  have "pos + of_nat (32 * Suc j) \<noteq> 0" using dir_readable_at(1) [OF rd _ s12, of "Suc j"] j(1) by auto
  then have "find_body crd name (pos, drv, w) = Ret (Inl (pos + of_nat (32 * Suc j), drv2, w2))"
    using gi m nx [unfolded pos'] by (simp add: find_body_def dirent_info_def)
  then show ?thesis using that s12 by blast
qed

lemma fat_find_run:
  "dir_readable drv w pos n \<Longrightarrow> ent_end (ent_at (fs_bytes drv w) (unat pos + 32 * n)) \<Longrightarrow>
   \<exists>drv' w'. forever (find_body crd name) (pos, drv, w) =
     seq (dir_find name (dir_at (fs_bytes drv w) (unat pos) (Suc n)) 0 0 (replicate 255 0))
       (\<lambda>r. Ret (case r of None \<Rightarrow> 0 | Some i \<Rightarrow> pos + of_nat (32 * i), drv', w')) \<and> fs_same drv w drv' w'"
proof (induction n arbitrary: drv w pos rule: less_induct)
  case (less n)
  let ?f = "fs_bytes drv w" and ?zs = "replicate 255 0 :: u8 list"
  obtain j where j: "j \<le> n" "\<forall>e \<in> set (dir_at ?f (unat pos) j). ent_skip e" "\<not> ent_skip (ent_at ?f (unat pos + 32 * j))"
    using first_entry [OF less.prems(2)] by blast
  define e where "e = ent_at ?f (unat pos + 32 * j)"
  note ns = j(3) [folded e_def] and df = dir_find_first [OF j(1,2) e_def, of name ?zs]
  obtain drv1 w1 where gi: "fat_get_dirent_info crd drv pos w =
      seq (put_lfns (dir_at ?f (unat pos) j) ?zs) (\<lambda>name.
        Ret (if ent_end e then None else Some (dirent_info e (put_dos e name)), drv1, w1))" and s1: "fs_same drv w drv1 w1"
    using info_run [OF dir_readable_less [OF less.prems(1) j(1)] j(2) e_def ns] unfolding fat_get_dirent_info_def by blast
  show ?case
  proof (cases "\<forall>l. put_lfns (dir_at ?f (unat pos) j) ?zs = Ret l \<longrightarrow> ent_end e \<or> names_match name (put_dos e l) \<noteq> Ret False")
    case True
    then show ?thesis using find_body_stop [OF gi _ ns, of name] s1 unfolding df by blast
  next
    case False
    then obtain l where l: "put_lfns (dir_at ?f (unat pos) j) ?zs = Ret l" "\<not> ent_end e"
      "names_match name (put_dos e l) = Ret False" by blast
    have jn: "j < n" using l(2) j(1) less.prems(2) e_def by (cases "j = n") auto
    have gi': "fat_get_dirent_info crd drv pos w = Ret (Some (dirent_info e (put_dos e l)), drv1, w1)"
      using gi l(1,2) by simp
    define pos' where "pos' = pos + of_nat (32 * Suc j)"
    obtain drv2 w2 where step: "find_body crd name (pos, drv, w) = Ret (Inl (pos', drv2, w2))" and s2: "fs_same drv w drv2 w2"
      using find_body_next [OF less.prems(1) jn j(2) e_def ns l(2) gi' s1 l(3)] unfolding pos'_def by blast
    have f2: "fs_bytes drv2 w2 = ?f" using s2 by (simp add: fs_same_def)
    have Sj: "Suc j \<le> n" using jn by simp
    note at = dir_readable_at [OF less.prems(1) Sj s2, folded pos'_def]
    have "ent_end (ent_at (fs_bytes drv2 w2) (unat pos' + 32 * (n - Suc j)))"
      using less.prems(2) Sj unfolding f2 at(1) by (simp add: algebra_simps)
    then obtain drv' w' where ih: "forever (find_body crd name) (pos', drv2, w2) =
        seq (dir_find name (dir_at ?f (unat pos') (Suc (n - Suc j))) 0 0 ?zs)
          (\<lambda>r. Ret (case r of None \<Rightarrow> 0 | Some i \<Rightarrow> pos' + of_nat (32 * i), drv', w'))" "fs_same drv2 w2 drv' w'"
      using less.IH [OF _ at(2)] jn unfolding f2 by auto
    have rest: "dir_at ?f (unat pos + 32 * j + 32) (n - j) = dir_at ?f (unat pos') (Suc (n - Suc j))"
      unfolding at(1) using Sj by (simp add: Suc_diff_Suc algebra_simps)
    have p: "pos' + of_nat (32 * i) = pos + of_nat (32 * (i + Suc j))" for i by (simp add: pos'_def algebra_simps)
    have "forever (find_body crd name) (pos, drv, w) = seq (dir_find name (dir_at ?f (unat pos') (Suc (n - Suc j))) 0 0 ?zs)
          (\<lambda>r. Ret (case r of None \<Rightarrow> 0 | Some i \<Rightarrow> pos' + of_nat (32 * i), drv', w'))"
      using step ih(1) by (simp add: forever_step(1))
    then show ?thesis
      unfolding df l(1) seq.simps dir_find_other [OF ns l(2,3)] rest seq_assoc
      using fs_same_trans [OF s2 ih(2)] p
      by (intro exI [of _ drv'] exI [of _ w']) (auto intro!: seq_cong split: option.split)
  qed
qed

end

subsection \<open>Names\<close>

definition names_agree :: "u8 list \<Rightarrow> u8 list \<Rightarrow> bool" where
  "names_agree as bs \<longleftrightarrow> (\<forall>i < min (length as) (length bs). to_lower (as ! i) = to_lower (bs ! i))"

lemma names_agree_Cons [simp]:
  "names_agree [] bs" "names_agree as []"
  "names_agree (a # as) (b # bs) \<longleftrightarrow> to_lower a = to_lower b \<and> names_agree as bs"
  by (auto simp: names_agree_def nth_Cons' less_Suc_eq_0_disj)

lemma names_match_agree: "0 \<notin> set bs \<Longrightarrow> names_match as (bs @ 0 # cs) = Ret (names_agree as bs)"
proof (induction as "bs @ 0 # cs" arbitrary: bs rule: names_match.induct)
  case (3 a as b bs' bs)
  then show ?case by (cases bs) auto
qed simp_all

lemma put_chars_not_Spin: "put_chars i es name \<noteq> Spin"
  by (induction i es name rule: put_chars.induct) auto

lemma put_chars_oob: "es \<noteq> [] \<Longrightarrow> length name < i + length es \<Longrightarrow> put_chars i es name = Fault"
proof (induction i es name rule: put_chars.induct)
  case (2 i e es name)
  then show ?case by (cases es) auto
qed simp

lemma put_chars_length: "put_chars i es name = Ret name' \<Longrightarrow> length name' = length name"
  by (induction i es name rule: put_chars.induct) (auto split: if_splits)

text \<open>A piece of a long name with a sequence number from 19 on does not fit into the name.\<close>

lemma put_lfn_oob:
  assumes "length name = 255" and "19 \<le> unat (rd8 buf 0)"
  shows "put_lfn buf name = Fault"
proof -
  let ?b = "13 * unat (rd8 buf 0)"
  have b: "247 \<le> ?b" using assms(2) by simp
  define es where "es = map (\<lambda>i. rd16 buf (1 + 2 * i)) [0..<5]"
  define fs where "fs = map (\<lambda>i. rd16 buf (14 + 2 * i)) [0..<6]"
  define gs where "gs = map (\<lambda>i. rd16 buf (28 + 2 * i)) [0..<2]"
  have l: "put_lfn buf name = seq (put_chars ?b es name) (\<lambda>name. seq (put_chars (?b + 5) fs name) (put_chars (?b + 11) gs))"
    by (simp only: put_lfn_def Let_def es_def fs_def gs_def)
  show ?thesis
  proof (cases "put_chars ?b es name")
    case (Ret n1)
    then have "length n1 = 255" using put_chars_length assms(1) by metis
    moreover have "length fs = 6" "fs \<noteq> []" by (simp_all add: fs_def)
    ultimately have "put_chars (?b + 5) fs n1 = Fault" using b by (intro put_chars_oob) simp_all
    then show ?thesis using Ret by (simp add: l)
  next
    case Spin
    then show ?thesis using put_chars_not_Spin by blast
  next
    case Fault
    then show ?thesis by (simp add: l)
  qed
qed

subsection \<open>Open files\<close>

text \<open>
  128 descriptors, every position inside its file, no file of 4 GiB or more.
\<close>

definition fd_ok :: "fat_file_desc \<Rightarrow> bool" where
  "fd_ok fd \<longleftrightarrow> fd_file_pos fd \<le> fd_size fd \<and> unat (fd_size fd) < 2 ^ 32"

definition fat_ok :: "fat_driver \<Rightarrow> bool" where
  "fat_ok drv \<longleftrightarrow> length (ft_file_descs drv) = FAT_MAX_FILE_DESCS \<and> (\<forall>fd \<in> set (ft_file_descs drv). fd_ok fd)"

definition fid_ok :: "u64 \<Rightarrow> bool" where
  "fid_ok fid \<longleftrightarrow> 1 \<le> fid \<and> fid \<le> 128"

lemma uint_sint_u64: "uint (x :: u64) = (if 0 \<le> sint x then sint x else sint x + 2 ^ 64)"
proof -
  have r: "- (2 ^ 63) \<le> sint x" "sint x < 2 ^ 63" using sint_ge [of x] sint_lt [of x] by simp_all
  have "uint x = sint x mod 2 ^ 64" using uint_sint [of x] by (simp add: take_bit_eq_mod)
  moreover have "sint x mod 2 ^ 64 = (if 0 \<le> sint x then sint x else sint x + 2 ^ 64)"
  proof (cases "0 \<le> sint x")
    case True
    then show ?thesis using r by simp
  next
    case False
    have "sint x mod 2 ^ 64 = (sint x + 2 ^ 64) mod 2 ^ 64" by simp
    also have "\<dots> = sint x + 2 ^ 64" using False r by (intro mod_pos_pos_trivial) simp_all
    finally show ?thesis using False by simp
  qed
  ultimately show ?thesis by simp
qed

lemma sint_u64: "sint (x :: u64) = (if uint x < 2 ^ 63 then uint x else uint x - 2 ^ 64)"
  using uint_sint_u64 [of x] sint_lt [of x] sint_ge [of x] by (auto split: if_splits)

lemma sint_neg_small:
  assumes "uint (x :: u64) < 2 ^ 32"
  shows "sint (- x) = - uint x"
proof (cases "x = 0")
  case False
  have p: "0 < uint x" using False uint_0_iff [of x] uint_ge_0 [of x] by linarith
  have m: "uint x mod 2 ^ 64 = uint x" using p assms by (intro mod_pos_pos_trivial) simp_all
  have "uint (- x) = (- uint x) mod 2 ^ 64" by (simp add: uint_word_ariths)
  also have "\<dots> = 2 ^ 64 - uint x" using p unfolding zmod_zminus1_eq_if m by simp
  finally show ?thesis using p assms by (simp add: sint_u64)
qed simp

lemma sint_eq_0: "sint (x :: u64) = 0 \<Longrightarrow> x = 0"
  using uint_sint_u64 [of x] by (simp add: uint_0_iff)

lemma fid_ok_unat: "fid_ok fid \<longleftrightarrow> unat (fid - 1) < 128"
proof (cases "fid = 0")
  case True
  have "unat (- 1 :: u64) = 2 ^ 64 - 1" by (simp add: unsigned_minus_1_eq_mask mask_eq_exp_minus_1)
  then show ?thesis using True by (simp add: fid_ok_def)
next
  case False
  then have "1 \<le> fid" by (simp add: word_le_nat_alt Suc_le_eq unat_gt_0)
  then show ?thesis by (simp add: fid_ok_def unat_sub_u64 word_le_nat_alt) linarith
qed

lemma fid_ok_inj: "fid - 1 = fid' - (1 :: u64) \<longleftrightarrow> fid = fid'"
  by simp

lemma fat_fd_ok: "fat_ok drv \<Longrightarrow> fid_ok fid \<Longrightarrow> fat_fd drv fid = Ret (ft_file_descs drv ! unat (fid - 1))"
  by (simp add: fat_fd_def fat_ok_def fid_ok_unat)

text \<open>What a file handle stands for: the position and the size of an open file.\<close>

definition fat_view :: "fat_driver \<Rightarrow> u64 \<Rightarrow> (int \<times> int) option" where
  "fat_view drv fid =
     (let fd = ft_file_descs drv ! unat (fid - 1) in
      if fid_ok fid \<and> fd_flags fd AND FFDF_OPEN \<noteq> 0 then Some (uint (fd_file_pos fd), uint (fd_size fd)) else None)"

lemma set_fd_ok: "fat_ok drv \<Longrightarrow> fd_ok fd \<Longrightarrow> fat_ok (set_fd fid fd drv)"
  using set_update_subset_insert [of "ft_file_descs drv" "unat (fid - 1)" fd] by (auto simp: fat_ok_def set_fd_def)

lemma fat_view_set:
  assumes "fat_ok drv" and "fid_ok fid"
  shows "fat_view (set_fd fid fd drv) = (fat_view drv)(fid :=
    if fd_flags fd AND FFDF_OPEN \<noteq> 0 then Some (uint (fd_file_pos fd), uint (fd_size fd)) else None)"
proof
  fix f :: u64
  have "unat (f - 1) = unat (fid - 1) \<longleftrightarrow> f = fid" by (simp add: word_unat_eq_iff [symmetric])
  then show "fat_view (set_fd fid fd drv) f = ((fat_view drv)(fid :=
      if fd_flags fd AND FFDF_OPEN \<noteq> 0 then Some (uint (fd_file_pos fd), uint (fd_size fd)) else None)) f"
    using assms by (auto simp: fat_view_def set_fd_def fat_ok_def fid_ok_unat Let_def nth_list_update)
qed

subsection \<open>Seeking\<close>

lemma fd_ok_ints:
  assumes "fd_ok fd"
  shows "0 \<le> uint (fd_file_pos fd)" "uint (fd_file_pos fd) \<le> uint (fd_size fd)" "uint (fd_size fd) < 2 ^ 32"
proof -
  show "0 \<le> uint (fd_file_pos fd)" by simp
  show "uint (fd_file_pos fd) \<le> uint (fd_size fd)" using assms by (simp add: fd_ok_def word_le_def)
  have "int (unat (fd_size fd)) < int (2 ^ 32)" using assms unfolding of_nat_less_iff by (simp only: fd_ok_def)
  then show "uint (fd_size fd) < 2 ^ 32" by (simp only: uint_nat of_nat_power of_nat_numeral)
qed

lemma seek_start:
  assumes "fd_ok fd"
  shows "uint (seek_pos fd VW_START off) = clamp (uint (fd_size fd)) (sint off)"
proof -
  note f = fd_ok_ints [OF assms]
  show ?thesis
  proof (cases "sint off < 0")
    case True
    then show ?thesis using f by (simp add: seek_pos_def clamp_def)
  next
    case False
    then have "uint off = sint off" by (simp add: uint_sint_u64)
    then show ?thesis using False f by (auto simp: seek_pos_def clamp_def Let_def word_less_def)
  qed
qed

lemma uint_add_neg:
  assumes "uint (x :: u64) < 2 ^ 32" and "- uint x \<le> sint o'" and "sint o' \<le> 0"
  shows "uint (x + o') = uint x + sint o'"
proof (cases "sint o' = 0")
  case True
  then have "o' = 0" by (rule sint_eq_0)
  then show ?thesis by simp
next
  case False
  then have o: "uint o' = sint o' + 2 ^ 64" using assms(3) by (simp add: uint_sint_u64)
  have "uint (x + o') = (uint x + sint o' + 2 ^ 64) mod 2 ^ 64" by (simp add: uint_word_ariths o add.assoc)
  also have "\<dots> = (uint x + sint o') mod 2 ^ 64" by simp
  also have "\<dots> = uint x + sint o'" using assms by (intro mod_pos_pos_trivial) simp_all
  finally show ?thesis .
qed

lemma seek_end:
  assumes "fd_ok fd"
  shows "uint (seek_pos fd VW_END off) = clamp (uint (fd_size fd)) (uint (fd_size fd) + sint off)"
proof -
  let ?sz = "fd_size fd"
  note f = fd_ok_ints [OF assms]
  note neg = sint_neg_small [OF f(3)]
  consider (low) "sint off < - uint ?sz" | (high) "sint off \<ge> - uint ?sz" "sint off > 0"
    | (mid) "sint off \<ge> - uint ?sz" "sint off \<le> 0" by linarith
  then show ?thesis
  proof cases
    case low
    have "\<not> sint (- ?sz) > 0" using neg uint_ge_0 [of ?sz] by linarith
    then have "seek_pos fd VW_END off = 0" using low by (simp add: seek_pos_def Let_def neg)
    then show ?thesis using low f by (simp add: clamp_def)
  next
    case high
    then have nl: "(sint off < - uint ?sz) = False" by simp
    have "seek_pos fd VW_END off = ?sz"
      unfolding seek_pos_def vfs_whence.case Let_def neg nl if_False using high(2) by simp
    then show ?thesis using f high(2) by (simp add: clamp_def)
  next
    case mid
    then have "seek_pos fd VW_END off = ?sz + off" by (simp add: seek_pos_def Let_def neg)
    then show ?thesis using uint_add_neg [OF f(3) mid] mid by (simp add: clamp_def)
  qed
qed

text \<open>Relative to the position only forwards; backwards it ends at the end of the file.\<close>

lemma seek_cur_offset:
  fixes off :: u64
  assumes "fd_ok fd"
  defines "o' \<equiv> (if sint off < sint (- fd_file_pos fd) then - fd_file_pos fd else off)"
  shows "seek_pos fd VW_CUR off = (if o' > fd_size fd - fd_file_pos fd then fd_size fd else fd_file_pos fd + o')"
    and "uint (fd_size fd - fd_file_pos fd) = uint (fd_size fd) - uint (fd_file_pos fd)"
    and "sint (- fd_file_pos fd) = - uint (fd_file_pos fd)"
proof -
  note f = fd_ok_ints [OF assms(1)]
  show "uint (fd_size fd - fd_file_pos fd) = uint (fd_size fd) - uint (fd_file_pos fd)"
    using f(2) by (simp add: uint_sub_lem [symmetric] word_le_def)
  show "sint (- fd_file_pos fd) = - uint (fd_file_pos fd)" using f by (intro sint_neg_small) linarith
  show "seek_pos fd VW_CUR off = (if o' > fd_size fd - fd_file_pos fd then fd_size fd else fd_file_pos fd + o')"
    by (simp add: seek_pos_def Let_def o'_def)
qed

lemma seek_cur_forward:
  assumes ok: "fd_ok fd" and fw: "sint off \<ge> 0"
  shows "uint (seek_pos fd VW_CUR off) = clamp (uint (fd_size fd)) (uint (fd_file_pos fd) + sint off)"
proof -
  let ?sz = "fd_size fd" and ?p = "fd_file_pos fd"
  note f = fd_ok_ints [OF ok] and s = seek_cur_offset [OF ok]
  have nl: "\<not> sint off < sint (- ?p)" using s(3) f(1) fw by linarith
  have pos: "seek_pos fd VW_CUR off = (if off > ?sz - ?p then ?sz else ?p + off)"
    using s(1) [of off] nl by simp
  have o: "uint off = sint off" using fw by (simp add: uint_sint_u64)
  show ?thesis
  proof (cases "off > ?sz - ?p")
    case True
    then show ?thesis using pos o s(2) f fw by (simp add: clamp_def word_less_def)
  next
    case False
    then have le: "sint off \<le> uint ?sz - uint ?p" using o s(2) by (simp add: word_less_def)
    have "(uint ?p + uint off) mod 2 ^ 64 = uint ?p + uint off"
      using f o fw le by (intro mod_pos_pos_trivial) (linarith, simp)
    then have "uint (?p + off) = uint ?p + uint off" by (simp add: uint_word_ariths)
    then show ?thesis using pos False le fw o f by (simp add: clamp_def)
  qed
qed

lemma seek_cur_backward:
  assumes ok: "fd_ok fd" and bw: "sint off < 0"
  shows "seek_pos fd VW_CUR off = (if fd_file_pos fd = 0 then 0 else fd_size fd)"
proof -
  let ?sz = "fd_size fd" and ?p = "fd_file_pos fd"
  define o' where "o' = (if sint off < sint (- ?p) then - ?p else off)"
  note f = fd_ok_ints [OF ok] and s = seek_cur_offset [OF ok]
  note s1 = s(1) [of off, folded o'_def]
  show ?thesis
  proof (cases "?p = 0")
    case True
    then have "o' = 0" using bw by (simp add: o'_def)
    then show ?thesis using s1 True by simp
  next
    case False
    then have "0 < uint ?p" using f(1) uint_0_iff [of ?p] by linarith
    then have "sint o' < 0" using bw s(3) by (simp add: o'_def)
    then have "uint o' \<ge> 2 ^ 63" using sint_ge [of o'] by (simp add: uint_sint_u64)
    then have "uint ?sz < uint o'" using f(3) by simp
    then have "o' > ?sz - ?p" unfolding word_less_def s(2) using f(1) by linarith
    then show ?thesis using s1 False by simp
  qed
qed

lemma seek_cur:
  assumes "fd_ok fd"
  shows "uint (seek_pos fd VW_CUR off) =
    (if sint off \<ge> 0 then clamp (uint (fd_size fd)) (uint (fd_file_pos fd) + sint off)
     else if fd_file_pos fd = 0 then 0 else uint (fd_size fd))"
  using seek_cur_forward [OF assms] seek_cur_backward [OF assms] by simp

lemma seek_fd_ok:
  assumes "fd_ok fd"
  shows "fd_ok (fd\<lparr>fd_file_pos := seek_pos fd whence off\<rparr>)"
proof -
  have "uint (seek_pos fd whence off) \<le> uint (fd_size fd)"
    using seek_start [OF assms, of off] seek_end [OF assms, of off] seek_cur [OF assms, of off] fd_ok_ints [OF assms]
    by (cases whence) (simp_all add: clamp_def)
  then show ?thesis using assms by (simp add: fd_ok_def word_le_def)
qed

subsection \<open>The driver for the VFS\<close>

text \<open>The size of \<open>struct fat_driver\<close> is 4184.\<close>

definition fat_vfs_fs_driver_create :: "(u64 \<Rightarrow> 'k \<Rightarrow> (u64 \<times> 'k) exec) \<Rightarrow> ('d, 'h, 'k) disks crd_fn \<Rightarrow> fat_dirent_info \<Rightarrow>
    fat_driver \<Rightarrow> ('d, 'h, 'k) disks \<Rightarrow> ((fat_driver, ('d, 'h, 'k) disks) vfs_fs_driver \<times> ('d, 'h, 'k) disks) exec" where
  "fat_vfs_fs_driver_create kalloc crd stk_info drv s =
     seq (kalloc 4184 (dk_heap s)) (\<lambda>(p, k).
     if p = 0 then Fault
     else Ret (\<lparr>vd_data = drv, vd_is_open = Some fat_vfs_is_open, vd_open = Some (fat_vfs_open crd stk_info),
                vd_close = Some fat_vfs_close, vd_abs_tell = Some fat_vfs_abs_tell, vd_seek = Some fat_vfs_seek,
                vd_rd = Some (fat_vfs_rd crd)\<rparr>, s\<lparr>dk_heap := k\<rparr>))"

lemma fat_view_Some:
  assumes "fat_view drv fid = Some (p, sz)"
  shows "fid_ok fid" "fd_flags (ft_file_descs drv ! unat (fid - 1)) AND FFDF_OPEN \<noteq> 0"
    "p = uint (fd_file_pos (ft_file_descs drv ! unat (fid - 1)))" "sz = uint (fd_size (ft_file_descs drv ! unat (fid - 1)))"
  using assms by (simp_all add: fat_view_def Let_def split: if_splits)

lemma fat_ok_fd: "fat_ok drv \<Longrightarrow> fid_ok fid \<Longrightarrow> fd_ok (ft_file_descs drv ! unat (fid - 1))"
  by (simp add: fat_ok_def fid_ok_unat)

lemma fd_closed_ok: "fd_ok fd_closed"
  by (simp add: fd_ok_def fd_closed_def)

lemma fat_seek_law:
  assumes ok: "fat_ok drv" and v: "fat_view drv fid = Some (p, sz)"
  shows "\<exists>drv' p'. fat_vfs_seek drv fid whence off = Ret (0, drv') \<and> fat_ok drv' \<and>
    fat_view drv' = (fat_view drv)(fid := Some (p', sz)) \<and> 0 \<le> p' \<and> p' \<le> sz \<and>
    (whence = VW_START \<longrightarrow> p' = clamp sz (sint off)) \<and> (whence = VW_END \<longrightarrow> p' = clamp sz (sz + sint off))"
proof -
  let ?fd = "ft_file_descs drv ! unat (fid - 1)"
  note fv = fat_view_Some [OF v]
  have fd: "fd_ok ?fd" using ok fv(1) by (rule fat_ok_fd)
  let ?fd' = "?fd\<lparr>fd_file_pos := seek_pos ?fd whence off\<rparr>"
  have fd': "fd_ok ?fd'" using fd by (rule seek_fd_ok)
  have "fat_vfs_seek drv fid whence off = Ret (0, set_fd fid ?fd' drv)"
    using ok fv(1) by (simp add: fat_vfs_seek_def fat_fd_ok)
  moreover have "fat_ok (set_fd fid ?fd' drv)" using ok fd' by (rule set_fd_ok)
  moreover have "fat_view (set_fd fid ?fd' drv) = (fat_view drv)(fid := Some (uint (seek_pos ?fd whence off), sz))"
    using fat_view_set [OF ok fv(1), of ?fd'] fv(2,4) by simp
  moreover have "uint (seek_pos ?fd whence off) \<le> sz" using fd_ok_ints(2) [OF fd'] fv(4) by simp
  moreover have "whence = VW_START \<Longrightarrow> uint (seek_pos ?fd whence off) = clamp sz (sint off)"
    using seek_start [OF fd] fv(4) by simp
  moreover have "whence = VW_END \<Longrightarrow> uint (seek_pos ?fd whence off) = clamp sz (sz + sint off)"
    using seek_end [OF fd] fv(4) by simp
  ultimately show ?thesis using uint_ge_0 [of "seek_pos ?fd whence off"] by blast
qed

interpretation fat: fs_driver fat_vfs_is_open fat_vfs_close fat_vfs_abs_tell fat_vfs_seek fat_ok fid_ok fat_view
proof unfold_locales
  show "fat_view d fid \<noteq> None \<Longrightarrow> fid_ok fid" for d fid
    by (simp only: fat_view_def Let_def split: if_splits) simp_all
  show "fat_ok d \<Longrightarrow> fid_ok fid \<Longrightarrow> fat_vfs_is_open d fid = Ret (fat_view d fid \<noteq> None)" for d fid
    by (simp add: fat_vfs_is_open_def fat_fd_ok fat_view_def Let_def)
  show "\<exists>d'. fat_vfs_close d fid = Ret (0, d') \<and> fat_ok d' \<and> fat_view d' = (fat_view d)(fid := None)"
    if "fat_ok d" "fat_view d fid \<noteq> None" for d fid
  proof -
    have f: "fid_ok fid" using that(2) fat_view_Some(1) by fastforce
    have "fat_view (set_fd fid fd_closed d) = (fat_view d)(fid := None)"
      using fat_view_set [OF that(1) f, of fd_closed] by (simp add: fd_closed_def)
    then show ?thesis using that(1) f set_fd_ok [OF that(1) fd_closed_ok]
      by (simp add: fat_vfs_close_def fat_fd_ok)
  qed
  show "\<exists>v. fat_vfs_abs_tell d fid = Ret (0, v) \<and> uint v = p" if "fat_ok d" "fat_view d fid = Some (p, sz)" for d fid p sz
    using fat_view_Some [OF that(2)] that(1) by (simp add: fat_vfs_abs_tell_def fat_fd_ok)
  show "\<exists>d' p'. fat_vfs_seek d fid whence off = Ret (0, d') \<and> fat_ok d' \<and>
      fat_view d' = (fat_view d)(fid := Some (p', sz)) \<and> 0 \<le> p' \<and> p' \<le> sz \<and>
      (whence = VW_START \<longrightarrow> p' = clamp sz (sint off)) \<and> (whence = VW_END \<longrightarrow> p' = clamp sz (sz + sint off))"
    if "fat_ok d" "fat_view d fid = Some (p, sz)" for d fid p sz whence off
    using that by (rule fat_seek_law)
qed

subsection \<open>Opening\<close>

lemma find_slot_from_Some:
  "find_slot_from fds i = Some k \<longleftrightarrow> i \<le> k \<and> k < i + length fds \<and> fd_flags (fds ! (k - i)) AND FFDF_OPEN = 0 \<and>
   (\<forall>j < k - i. fd_flags (fds ! j) AND FFDF_OPEN \<noteq> 0)"
proof (induction fds arbitrary: i)
  case (Cons fd fds)
  show ?case
  proof (cases "fd_flags fd AND FFDF_OPEN = 0")
    case True
    then show ?thesis by (cases "k - i") (auto simp: nth_Cons')
  next
    case False
    have "i \<le> k \<Longrightarrow> (\<forall>j < k - i. fd_flags ((fd # fds) ! j) AND FFDF_OPEN \<noteq> 0) \<longleftrightarrow>
        (\<forall>j < k - Suc i. fd_flags (fds ! j) AND FFDF_OPEN \<noteq> 0)" if "k \<noteq> i"
      using False that by (cases "k - i") (auto simp: All_less_Suc2 Suc_diff_Suc nth_Cons' simp del: One_nat_def)
    then show ?thesis using False Cons.IH [of "Suc i"] by (cases "k = i") (auto simp: nth_Cons' Suc_le_eq)
  qed
qed simp

lemma find_slot_from_None:
  "find_slot_from fds i = None \<longleftrightarrow> (\<forall>fd \<in> set fds. fd_flags fd AND FFDF_OPEN \<noteq> 0)"
  by (induction fds arbitrary: i) auto


text \<open>Directory lookups leave the descriptors alone, and the sizes they find have 32 bits.\<close>

lemma rd_ent_descs: "rd_ent crd pos drv w = Ret (rc, buf, drv', w') \<Longrightarrow> ft_file_descs drv' = ft_file_descs drv"
  by (auto simp: rd_ent_def seq_Ret_iff)

lemma fat_get_dirent_info_descs:
  fixes w :: 'w
  assumes "fat_get_dirent_info crd drv de w = Ret (info, drv', w')"
  shows "ft_file_descs drv' = ft_file_descs drv \<and> (\<forall>i. info = Some i \<longrightarrow> unat (di_size i) < 2 ^ 32)"
proof -
  have sz: "unat (ucast (x :: u32) :: u64) < 2 ^ 32" for x
    using unsigned_less [of x] by (simp only: unat_ucast_u32) simp
  let ?P = "\<lambda>(de :: u64, name :: u8 list, drv', w' :: 'w). ft_file_descs drv' = ft_file_descs drv"
    and ?Q = "\<lambda>(info, drv', w' :: 'w). ft_file_descs drv' = ft_file_descs drv \<and> (\<forall>i. info = Some i \<longrightarrow> unat (di_size i) < 2 ^ 32)"
  have "?Q (info, drv', w')"
  proof (rule forever_inv [where P = ?P and Q = ?Q])
    show "forever (info_body crd) (de, replicate 255 0, drv, w) = Ret (info, drv', w')"
      using assms by (simp add: fat_get_dirent_info_def)
    show "?P (de, replicate 255 0, drv, w)" by simp
    show "?P s'" if "?P s" "info_body crd s = Ret (Inl s')" for s s'
      using that rd_ent_descs by (fastforce simp: info_body_def seq_Ret_iff split: if_splits)
    show "?Q r" if "?P s" "info_body crd s = Ret (Inr r)" for s r
      using that rd_ent_descs sz by (fastforce simp: info_body_def seq_Ret_iff dirent_info_def split: if_splits)
  qed
  then show ?thesis by simp
qed

lemma fat_next_dirent_descs:
  fixes w :: 'w
  assumes "fat_next_dirent crd drv de w = Ret (v, drv', w')"
  shows "ft_file_descs drv' = ft_file_descs drv"
proof -
  let ?P = "\<lambda>(de :: u64, drv', w' :: 'w). ft_file_descs drv' = ft_file_descs drv"
    and ?Q = "\<lambda>(v :: u64 + u64, drv', w' :: 'w). ft_file_descs drv' = ft_file_descs drv"
  obtain res drv1 w1 where r: "forever (next_skip crd) (de, drv, w) = Ret (res, drv1, w1)"
    "(case res of Inl v \<Rightarrow> Ret (v, drv1, w1) | Inr l \<Rightarrow> forever (next_find crd l) (l + 32, drv1, w1)) = Ret (v, drv', w')"
    using assms by (auto simp: fat_next_dirent_def seq_Ret_iff)
  have "?Q (res, drv1, w1)"
    by (rule forever_inv [where P = ?P and Q = ?Q, OF r(1)])
      (use rd_ent_descs in \<open>fastforce simp: next_skip_def seq_Ret_iff split: if_splits\<close>)+
  then have d1: "ft_file_descs drv1 = ft_file_descs drv" by simp
  show ?thesis
  proof (cases res)
    case (Inl a)
    then show ?thesis using r(2) d1 by simp
  next
    case (Inr l)
    then have r2: "forever (next_find crd l) (l + 32, drv1, w1) = Ret (v, drv', w')" using r(2) by simp
    have "?P (v, drv', w')"
      by (rule forever_inv [where P = ?P and Q = ?P, OF r2])
        (use d1 rd_ent_descs in \<open>fastforce simp: next_find_def seq_Ret_iff split: if_splits\<close>)+
    then show ?thesis by simp
  qed
qed

lemma fat_find_dirent_descs:
  fixes w :: 'w
  assumes "fat_find_dirent crd drv de name w = Ret (v, drv', w')"
  shows "ft_file_descs drv' = ft_file_descs drv"
proof -
  let ?P = "\<lambda>(de :: u64, drv', w' :: 'w). ft_file_descs drv' = ft_file_descs drv"
  have "?P (v, drv', w')"
    by (rule forever_inv [where P = ?P and Q = ?P, OF assms [unfolded fat_find_dirent_def]])
      (use fat_get_dirent_info_descs fat_next_dirent_descs in
        \<open>fastforce simp: find_body_def seq_Ret_iff split: if_splits option.splits\<close>)+
  then show ?thesis by simp
qed

lemma open_step_descs:
  assumes "open_step crd path_buf de drv w = Ret (info, drv', w')"
  shows "ft_file_descs drv' = ft_file_descs drv \<and> (\<forall>i. info = Some i \<longrightarrow> unat (di_size i) < 2 ^ 32)"
proof -
  obtain de1 drv1 w1 where f: "fat_find_dirent crd drv de path_buf w = Ret (de1, drv1, w1)"
    "(if de1 = 0 then Ret (None, drv1, w1) else fat_get_dirent_info crd drv1 de1 w1) = Ret (info, drv', w')"
    using assms by (auto simp: open_step_def seq_Ret_iff split: if_splits)
  have d: "ft_file_descs drv1 = ft_file_descs drv" using fat_find_dirent_descs [OF f(1)] .
  show ?thesis
  proof (cases "de1 = 0")
    case True
    then show ?thesis using f(2) d by simp
  next
    case False
    then show ?thesis using f(2) d fat_get_dirent_info_descs [of crd drv1 de1 w1 info drv' w'] by simp
  qed
qed

text \<open>A path with a component, whose entry the walk looks up; without one \<open>de_info\<close> is never written.\<close>

definition path_names :: "u8 list \<Rightarrow> bool" where
  "path_names path \<longleftrightarrow> (\<exists>c \<in> set path. c \<noteq> 0x2f)"

lemma open_walk_descs:
  "open_walk crd cs path_buf de de_info drv w = Ret (res, drv', w') \<Longrightarrow>
   unat (di_size de_info) < 2 ^ 32 \<or> path_buf \<noteq> [] \<or> path_names cs \<Longrightarrow>
   ft_file_descs drv' = ft_file_descs drv \<and> (\<forall>pb d i. res = Some (pb, d, i) \<longrightarrow> pb \<noteq> [] \<or> unat (di_size i) < 2 ^ 32)"
proof (induction cs arbitrary: path_buf de de_info drv w)
  case (Cons c cs)
  consider (char) "c \<noteq> 0x2f" | (skip) "c = 0x2f" "path_buf = []" | (step) "c = 0x2f" "path_buf \<noteq> []" by blast
  then show ?case
  proof cases
    case char
    then show ?thesis using Cons by (auto split: if_splits)
  next
    case skip
    then have "open_walk crd cs [] de de_info drv w = Ret (res, drv', w')" "unat (di_size de_info) < 2 ^ 32 \<or> path_names cs"
      using Cons.prems by (auto simp: path_names_def)
    then show ?thesis using Cons.IH by blast
  next
    case step
    then obtain info drv1 w1 where st: "open_step crd path_buf de drv w = Ret (info, drv1, w1)"
      and rest: "(case info of None \<Rightarrow> Ret (None, drv1, w1) | Some de_info \<Rightarrow>
        if di_attr de_info AND FDA_DIR = 0 \<and> cs \<noteq> [] then Ret (None, drv1, w1)
        else open_walk crd cs [] (cluster_to_pos drv1 (di_cluster de_info)) de_info drv1 w1) = Ret (res, drv', w')"
      using Cons.prems(1) by (auto simp: seq_Ret_iff)
    have d: "ft_file_descs drv1 = ft_file_descs drv" "\<And>i. info = Some i \<Longrightarrow> unat (di_size i) < 2 ^ 32"
      using open_step_descs [OF st] by auto
    show ?thesis
    proof (cases info)
      case None
      then show ?thesis using rest d by auto
    next
      case (Some i)
      then show ?thesis
        using rest d Cons.IH [of "[]" "cluster_to_pos drv1 (di_cluster i)" i drv1 w1] by (auto split: if_splits)
    qed
  qed
qed (auto simp: path_names_def)

lemma fat_view_descs:
  "ft_file_descs drv' = ft_file_descs drv \<Longrightarrow> fat_view drv' = fat_view drv \<and> (fat_ok drv' \<longleftrightarrow> fat_ok drv)"
  by (simp add: fat_view_def fat_ok_def fun_eq_iff)

lemma open_flags_open: "open_flags flags AND FFDF_OPEN \<noteq> 0"
  by (simp add: open_flags_def)

lemma of_nat_fid: "k < 128 \<Longrightarrow> fid_ok (of_nat k + 1) \<and> unat ((of_nat k + 1 :: u64) - 1) = k"
  by (simp add: fid_ok_unat unat_of_nat)

text \<open>The first closed descriptor is taken; the handle's number is one more than its place.\<close>

lemma open_file_correct:
  assumes ok: "fat_ok drv" and sz: "unat (di_size info) < 2 ^ 32" and r: "open_file info flags drv = (fid, drv')"
  shows "fat_ok drv' \<and> (if fid = 0 then drv' = drv
    else fid_ok fid \<and> fat_view drv fid = None \<and> (\<forall>f. 1 \<le> f \<and> f < fid \<longrightarrow> fat_view drv f \<noteq> None) \<and>
      fat_view drv' = (fat_view drv)(fid := Some (0, uint (di_size info))))"
proof (cases "fid = 0")
  case True
  have "of_nat k + 1 \<noteq> (0 :: u64)" if "k < 128" for k
    using of_nat_fid [OF that] by (auto simp: fid_ok_def)
  then have "fat_find_slot drv \<noteq> Some 0" using ok
    by (auto simp: fat_find_slot_def find_slot_from_Some fat_ok_def)
  then show ?thesis using True ok r by (auto simp: open_file_def split: if_splits option.splits)
next
  case False
  let ?fd = "\<lparr>fd_cluster = di_cluster info, fd_size = di_size info, fd_file_pos = 0, fd_flags = open_flags flags\<rparr>"
  have slot: "fat_find_slot drv = Some fid" and d': "drv' = set_fd fid ?fd drv"
    using r False by (auto simp: open_file_def split: if_splits option.splits)
  have len: "length (ft_file_descs drv) = 128" using ok by (simp add: fat_ok_def)
  obtain k where k: "k < 128" "fid = of_nat k + 1" "fd_flags (ft_file_descs drv ! k) AND FFDF_OPEN = 0"
    "\<forall>j < k. fd_flags (ft_file_descs drv ! j) AND FFDF_OPEN \<noteq> 0"
    using slot len by (auto simp: fat_find_slot_def find_slot_from_Some)
  have f: "fid_ok fid" "unat (fid - 1) = k" using of_nat_fid [OF k(1)] k(2) by simp_all
  have "fat_view drv fid = None" using k(3) f by (simp add: fat_view_def)
  moreover have "fat_view drv f \<noteq> None" if "1 \<le> f" "f < fid" for f
  proof -
    have "fid_ok f" using that f(1) unfolding fid_ok_def by (meson less_imp_le order.trans)
    moreover have "unat (f - 1) < k"
      using that f by (simp add: unat_sub_u64 word_le_nat_alt word_less_nat_alt fid_ok_def)
    ultimately show ?thesis using k(4) by (simp add: fat_view_def Let_def)
  qed
  moreover have "fat_view drv' = (fat_view drv)(fid := Some (0, uint (di_size info)))"
    using fat_view_set [OF ok f(1), of ?fd] open_flags_open by (simp add: d')
  moreover have "fat_ok drv'" unfolding d' using ok sz by (intro set_fd_ok) (simp_all add: fd_ok_def)
  ultimately show ?thesis using f False by simp
qed

lemma fat_vfs_open_file:
  assumes "fat_vfs_open crd stk_info drv path flags w = Ret (fid, drv', w')" and "path_names path \<or> unat (di_size stk_info) < 2 ^ 32"
  shows "\<exists>drv1. ft_file_descs drv1 = ft_file_descs drv \<and> (fid = 0 \<and> drv' = drv1 \<or>
    (\<exists>info. unat (di_size info) < 2 ^ 32 \<and> open_file info flags drv1 = (fid, drv')))"
proof -
  obtain res drv1 w1 where w: "open_walk crd path [] (fat_get_root drv) stk_info drv w = Ret (res, drv1, w1)"
    and rest: "(case res of None \<Rightarrow> Ret (VFS_FILE_ID_NULL, drv1, w1) | Some (path_buf, de, de_info) \<Rightarrow>
        if path_buf \<noteq> [] then seq (open_step crd path_buf de drv1 w1) (\<lambda>(info, drv, w).
           case info of None \<Rightarrow> Ret (VFS_FILE_ID_NULL, drv, w)
           | Some de_info \<Rightarrow> (case open_file de_info flags drv of (fid, drv) \<Rightarrow> Ret (fid, drv, w)))
         else (case open_file de_info flags drv1 of (fid, drv) \<Rightarrow> Ret (fid, drv, w1))) = Ret (fid, drv', w')"
    using assms(1) by (auto simp: fat_vfs_open_def seq_Ret_iff)
  have d1: "ft_file_descs drv1 = ft_file_descs drv" "\<And>pb d i. res = Some (pb, d, i) \<Longrightarrow> pb \<noteq> [] \<or> unat (di_size i) < 2 ^ 32"
    using open_walk_descs [OF w] assms(2) by auto
  show ?thesis
  proof (cases res)
    case None
    then show ?thesis using rest d1 by auto
  next
    case (Some r)
    obtain pb de i where r: "r = (pb, de, i)" by (cases r)
    show ?thesis
    proof (cases "pb = []")
      case True
      then show ?thesis using rest Some r d1 by (fastforce split: prod.splits)
    next
      case False
      then obtain info drv2 w2 where st: "open_step crd pb de drv1 w1 = Ret (info, drv2, w2)"
        and e: "(case info of None \<Rightarrow> Ret (VFS_FILE_ID_NULL, drv2, w2)
           | Some de_info \<Rightarrow> (case open_file de_info flags drv2 of (fid, drv) \<Rightarrow> Ret (fid, drv, w2))) = Ret (fid, drv', w')"
        using rest Some r by (auto simp: seq_Ret_iff)
      show ?thesis using e open_step_descs [OF st] d1 by (fastforce split: option.splits prod.splits)
    qed
  qed
qed

subsection \<open>A directory in memory\<close>

text \<open>A reader of an image in memory, and a driver on it with one file, \<open>A\<close>, of five bytes.\<close>

definition ram_crd :: "u8 list \<Rightarrow> unit crd_fn" where
  "ram_crd img c dst addr n w =
     (if unat addr + unat n \<le> length img then Ret (0, take (unat n) (drop (unat addr) img) @ drop (unat n) dst, c, w)
      else Ret (1, dst, c, w))"

definition ram_dir :: "u8 list" where
  "ram_dir = replicate 32 0 @ [0x41, 0x20, 0x20, 0x20, 0x20, 0x20, 0x20, 0x20, 0x20, 0x20, 0x20, 0x20, 0, 0, 0, 0,
     0, 0, 0, 0, 0, 0, 0, 0, 0, 0, 2, 0, 5, 0, 0, 0] @ replicate 32 0"

definition ram_fat :: fat_driver where
  "ram_fat = \<lparr>ft_cache = \<lparr>bc_blkdev = Dev 0, bc_buf = [], bc_loaded_blk = 0, bc_mutex = 0\<rparr>,
     ft_file_descs = replicate 128 fd_closed, ft_sector_size = 32, ft_cluster_size = 1, ft_first_data_sector = 3,
     ft_sector_cnt = 4, ft_root_sector_cnt = 2, ft_data_sector_cnt = 2, ft_cluster_cnt = 2\<rparr>"

definition no_info :: fat_dirent_info where
  "no_info = \<lparr>di_name = [], di_time_mk = (0, 0, 0), di_date_mk = (0, 0, 0), di_date_acc = (0, 0, 0),
     di_time_mod = (0, 0, 0), di_date_mod = (0, 0, 0), di_attr = 0, di_cluster = 0, di_size = 0\<rparr>"

lemma ram_rd_ent:
  "unat pos + 32 \<le> length img \<Longrightarrow> rd_ent (ram_crd img) pos drv w = Ret (0, take 32 (drop (unat pos) img), drv, w)"
  by (simp add: rd_ent_def ram_crd_def)

lemma ram_info:
  "fat_get_dirent_info (ram_crd ram_dir) drv 32 w =
   Ret (Some (dirent_info (take 32 (drop 32 ram_dir)) (put_dos (take 32 (drop 32 ram_dir)) (replicate 255 0))), drv, w)"
  unfolding fat_get_dirent_info_def
  by (subst forever_unfold) (simp add: info_body_def ram_rd_ent ram_dir_def rd8_def)

lemma ram_name: "put_dos (take 32 (drop 32 ram_dir)) (replicate 255 0) = 0x41 # replicate 254 0"
proof -
  have "dos_name (take 32 (drop 32 ram_dir)) = [0x41]" by (simp add: dos_name_def ram_dir_def)
  then show ?thesis by (simp add: put_dos_def)
qed

lemma ram_fat_ok: "fat_ok ram_fat"
  by (simp add: fat_ok_def ram_fat_def fd_closed_ok)

lemma ram_open:
  "\<exists>drv'. fat_vfs_open (ram_crd ram_dir) no_info ram_fat [0x61] VFF_READ () = Ret (1, drv', ())"
proof -
  let ?i = "dirent_info (take 32 (drop 32 ram_dir)) (put_dos (take 32 (drop 32 ram_dir)) (replicate 255 0))"
  have n: "names_match [0x61] (di_name ?i) = Ret True"
    unfolding dirent_info_def by (simp add: ram_name to_lower_def)
  have f: "fat_find_dirent (ram_crd ram_dir) ram_fat 32 [0x61] () = Ret (32, ram_fat, ())"
    unfolding fat_find_dirent_def by (subst forever_unfold) (simp add: find_body_def ram_info n)
  have o: "open_step (ram_crd ram_dir) [0x61] 32 ram_fat () = Ret (Some ?i, ram_fat, ())"
    by (simp add: open_step_def f ram_info)
  have "di_attr ?i = 0x20" by (simp add: dirent_info_def rd8_def ram_dir_def)
  moreover have "fat_find_slot ram_fat = Some 1"
  proof -
    have "find_slot_from (ft_file_descs ram_fat) 0 = Some 0"
      by (simp add: find_slot_from_Some ram_fat_def fd_closed_def)
    then show ?thesis by (simp add: fat_find_slot_def)
  qed
  ultimately have "fst (open_file ?i VFF_READ ram_fat) = 1" by (simp add: open_file_def)
  then obtain drv' where "open_file ?i VFF_READ ram_fat = (1, drv')" by (metis prod.collapse)
  moreover have "fat_get_root ram_fat = 32" by (simp add: fat_get_root_def ram_fat_def)
  ultimately show ?thesis by (simp add: fat_vfs_open_def o)
qed

subsection \<open>Properties\<close>

text \<open>
  Opening takes the first free of the 128 descriptors and gives a handle for it, at position 0 of
  a file with the size of the directory entry (a path without a component gets the size in an uninitialised
  struct); all other open files stay as they are, and a failing
  open changes no descriptor.
\<close>
theorem fat_vfs_open_fresh:
  assumes "fat_vfs_open crd stk_info drv path flags w = Ret (fid, drv', w')" and "fat_ok drv"
    and "path_names path \<or> unat (di_size stk_info) < 2 ^ 32"
  shows "fat_ok drv' \<and> (if fid = 0 then fat_view drv' = fat_view drv
    else fid_ok fid \<and> fat_view drv fid = None \<and> (\<forall>f. 1 \<le> f \<and> f < fid \<longrightarrow> fat_view drv f \<noteq> None) \<and>
      (\<exists>sz < 2 ^ 32. fat_view drv' = (fat_view drv)(fid := Some (0, sz))))"
proof -
  obtain drv1 where d: "ft_file_descs drv1 = ft_file_descs drv"
    and c: "fid = 0 \<and> drv' = drv1 \<or> (\<exists>info. unat (di_size info) < 2 ^ 32 \<and> open_file info flags drv1 = (fid, drv'))"
    using fat_vfs_open_file [OF assms(1,3)] by blast
  have v: "fat_view drv1 = fat_view drv" "fat_ok drv1" using fat_view_descs [OF d] assms(2) by simp_all
  from c show ?thesis
  proof (elim disjE exE conjE)
    assume "fid = 0" "drv' = drv1"
    then show ?thesis using v by simp
  next
    fix info assume i: "unat (di_size info) < 2 ^ 32" "open_file info flags drv1 = (fid, drv')"
    have "int (unat (di_size info)) < int (2 ^ 32)" using i(1) unfolding of_nat_less_iff .
    then have "uint (di_size info) < 2 ^ 32" by (simp only: uint_nat of_nat_power of_nat_numeral)
    then show ?thesis using open_file_correct [OF v(2) i] v(1) by (auto split: if_splits)
  qed
qed


theorem fat_vfs_open_fresh_witness:
  "\<exists>drv'. fat_vfs_open (ram_crd ram_dir) no_info ram_fat [0x61] VFF_READ () = Ret (1, drv', ()) \<and>
     fat_ok drv' \<and> fat_view drv' 1 \<noteq> None"
proof -
  obtain drv' where o: "fat_vfs_open (ram_crd ram_dir) no_info ram_fat [0x61] VFF_READ () = Ret (1, drv', ())"
    using ram_open by blast
  show ?thesis using fat_vfs_open_fresh [OF o ram_fat_ok] o by (auto simp: no_info_def)
qed

text \<open>
  Long names are written at 13 times the raw sequence number: for every entry with a number from
  19 on, and so for the last piece of any long name, whose number has bit 0x40 set, reading the
  entry writes past the end of the 255 bytes of the name.
\<close>
theorem fat_lfn_overflow:
  assumes "rd_ent crd de drv w = Ret (0, buf, drv', w')" and "rd8 buf 0 \<notin> {0, 0xe5}" and "rd8 buf 11 = FDA_LFN"
    and "19 \<le> unat (rd8 buf 0)"
  shows "fat_get_dirent_info crd drv de w = Fault"
proof -
  have "put_lfn buf (replicate 255 0) = Fault" using assms(4) by (intro put_lfn_oob) simp_all
  then have "info_body crd (de, replicate 255 0, drv, w) = Fault" using assms by (simp add: info_body_def)
  then show ?thesis unfolding fat_get_dirent_info_def by (rule forever_step(3))
qed

text \<open>The only piece of the long name \<open>b\<close>, with the sequence number \<open>0x41\<close>.\<close>

definition lfn_ent :: "u8 list" where
  "lfn_ent = [0x41, 0x62, 0, 0, 0, 0xff, 0xff, 0xff, 0xff, 0xff, 0xff, 0xf, 0, 0, 0xff, 0xff,
     0xff, 0xff, 0xff, 0xff, 0xff, 0xff, 0xff, 0xff, 0xff, 0xff, 0, 0, 0xff, 0xff, 0xff, 0xff]"

theorem fat_lfn_overflow_witness: "fat_get_dirent_info (ram_crd lfn_ent) ram_fat 0 () = Fault"
proof -
  have "rd_ent (ram_crd lfn_ent) 0 ram_fat () = Ret (0, lfn_ent, ram_fat, ())"
    using ram_rd_ent [of 0 lfn_ent] by (simp add: lfn_ent_def)
  then show ?thesis by (rule fat_lfn_overflow) (simp_all add: lfn_ent_def rd8_def)
qed

text \<open>
  C39: seeking relative to the position is exact and cut to the file when it goes forwards; backwards it
  does not go back: from any position but 0 it ends at the end of the file.
\<close>
theorem fat_vfs_seek_cur:
  assumes "fat_ok drv" and "fat_view drv fid = Some (p, sz)"
  shows "\<exists>drv'. fat_vfs_seek drv fid VW_CUR off = Ret (0, drv') \<and> fat_ok drv' \<and>
    fat_view drv' = (fat_view drv)(fid := Some (if sint off \<ge> 0 then clamp sz (p + sint off) else if p = 0 then 0 else sz, sz))"
proof -
  let ?fd = "ft_file_descs drv ! unat (fid - 1)"
  note fv = fat_view_Some [OF assms(2)]
  have fd: "fd_ok ?fd" using assms(1) fv(1) by (rule fat_ok_fd)
  let ?fd' = "?fd\<lparr>fd_file_pos := seek_pos ?fd VW_CUR off\<rparr>"
  have "p = 0 \<longleftrightarrow> fd_file_pos ?fd = 0" using fv(3) by (simp add: uint_0_iff)
  then have p': "uint (seek_pos ?fd VW_CUR off) =
      (if sint off \<ge> 0 then clamp sz (p + sint off) else if p = 0 then 0 else sz)"
    unfolding seek_cur [OF fd] fv(3,4) by simp
  have "fat_vfs_seek drv fid VW_CUR off = Ret (0, set_fd fid ?fd' drv)"
    using assms(1) fv(1) by (simp add: fat_vfs_seek_def fat_fd_ok)
  moreover have "fat_ok (set_fd fid ?fd' drv)" using assms(1) seek_fd_ok [OF fd] by (rule set_fd_ok)
  moreover have "fat_view (set_fd fid ?fd' drv) = (fat_view drv)(fid := Some (uint (seek_pos ?fd VW_CUR off), sz))"
    using fat_view_set [OF assms(1) fv(1), of ?fd'] fv(2,4) by simp
  ultimately show ?thesis unfolding p' by blast
qed

text \<open>File 1 is open at position 3 of 5 bytes.\<close>

definition ram_open_fat :: fat_driver where
  "ram_open_fat = set_fd 1 \<lparr>fd_cluster = 2, fd_size = 5, fd_file_pos = 3, fd_flags = 3\<rparr> ram_fat"

lemma ram_open_ok: "fat_ok ram_open_fat"
  unfolding ram_open_fat_def by (rule set_fd_ok [OF ram_fat_ok]) (simp add: fd_ok_def)

lemma ram_open_view: "fat_view ram_open_fat 1 = Some (3, 5)"
proof -
  have "fid_ok 1" by (simp add: fid_ok_def)
  from fat_view_set [OF ram_fat_ok this] show ?thesis unfolding ram_open_fat_def by simp
qed

theorem fat_vfs_seek_cur_witness:
  "\<exists>drv'. fat_vfs_seek ram_open_fat 1 VW_CUR (- 1) = Ret (0, drv') \<and> fat_view drv' 1 = Some (5, 5)"
  using fat_vfs_seek_cur [OF ram_open_ok ram_open_view, of "- 1"] by auto

text \<open>
  Names are compared without regard to case and only as far as the shorter one reaches: a component
  of a path finds an entry as soon as one name is a prefix of the other.
\<close>
theorem fat_name_prefix:
  assumes "0 \<notin> set bs"
  shows "names_match as (bs @ 0 # cs) =
    Ret (\<forall>i < min (length as) (length bs). to_lower (as ! i) = to_lower (bs ! i))"
  using names_match_agree [OF assms] by (simp add: names_agree_def)

theorem fat_name_prefix_witness: "names_match [0x72, 0x65, 0x61, 0x64] ([0x52, 0x45] @ 0 # []) = Ret True"
  using fat_name_prefix [of "[0x52, 0x45]" "[0x72, 0x65, 0x61, 0x64]" "[]"]
  by (simp add: to_lower_def less_2_cases_iff)

end
