(* ===== verification/Fat_Disk.thy ===== *)
theory Fat_Disk
  imports Fat Ata_Pio
begin

section \<open>FAT over the block cache over the ATA disk\<close>

text \<open>
  The composition the kernel runs: the directory and file reads of Fat go through the block cache of
  Blk_Cache and the partitions of Blkdev to the registers of the disk of Ata_Pio.  The interface
  \<open>byte_reader\<close> is interpreted on that stack, so the lemmas of Fat hold of it.
\<close>

context byte_reader
begin

text \<open>Reading an open file inside one block: the bytes from the cluster and position on.\<close>

lemma fat_rd_run:
  assumes g: "good (ft_cache drv) w" and ok: "fat_ok drv" and fid: "fid_ok fid" and n: "n \<noteq> 0" "unat n \<le> length dst"
    and fd: "fd = ft_file_descs drv ! unat (fid - 1)"
    and sz: "unat (fd_file_pos fd) + unat n \<le> unat (fd_size fd)"
    and a: "a = cluster_to_pos drv (fd_cluster fd) + fd_file_pos fd"
    and tot: "unat a + unat n \<le> total (ft_cache drv) w"
    and blk: "unat a mod bsize (ft_cache drv) w + unat n \<le> bsize (ft_cache drv) w"
  shows "\<exists>c' w'. fat_vfs_rd crd drv fid dst n w =
      Ret (0, map (content (ft_cache drv) w) [unat a..<unat a + unat n] @ drop (unat n) dst, drv\<lparr>ft_cache := c'\<rparr>, w') \<and>
    good c' w' \<and> content c' w' = content (ft_cache drv) w"
proof -
  have "fd_ok fd" unfolding fd using ok fid by (rule fat_ok_fd)
  then have small: "unat (fd_size fd) < 2 ^ 32" by (simp add: fd_ok_def)
  have n0: "0 < unat n" using n(1) by (simp add: unat_gt_0)
  have u: "unat (fd_file_pos fd + n) = unat (fd_file_pos fd) + unat n"
    using sz small by (intro unat_add_u64) simp
  have lt: "\<not> fd_file_pos fd \<ge> fd_size fd" "\<not> fd_file_pos fd + n > fd_size fd"
    using sz n0 u by (simp_all add: word_le_nat_alt word_less_nat_alt)
  obtain c' w' where r: "crd (ft_cache drv) dst a n w =
      Ret (0, map (content (ft_cache drv) w) [unat a..<unat a + unat n] @ drop (unat n) dst, c', w')"
    "good c' w'" "content c' w' = content (ft_cache drv) w"
    using crd_law [OF g n tot blk] by blast
  have "fat_fd drv fid = Ret fd" using fat_fd_ok [OF ok fid] fd by simp
  then have "fat_vfs_rd crd drv fid dst n w =
      Ret (0, map (content (ft_cache drv) w) [unat a..<unat a + unat n] @ drop (unat n) dst, drv\<lparr>ft_cache := c'\<rparr>, w')"
    using lt r(1) a by (simp add: fat_vfs_rd_def Let_def)
  then show ?thesis using r by blast
qed

end

text \<open>A cache over the ATA driver, whatever the bus and the heap, provides the interface.\<close>

interpretation ata_cache: cached_driver "ata_pio_blkdev_rd bus" "ata_ready bus idle tf disk D" "ata_valid D"
  "ata_sector disk" "\<lambda>d. unat (ad_sector_size d)" "\<lambda>d. unat (ad_nsector d)" kalloc junk
  for bus idle tf disk D kalloc junk ..

subsection \<open>A disk with a directory\<close>

text \<open>Sectors of 32 bytes: sector 1 is the entry of the file \<open>A\<close>, sector 3 its data.\<close>

definition dir_img :: "nat \<Rightarrow> u16 list" where
  "dir_img n =
     (if n = 1 then [0x2041, 0x2020, 0x2020, 0x2020, 0x2020, 0x2020, 0, 0, 0, 0, 0, 0, 0, 2, 5, 0]
      else if n = 3 then 0x6968 # replicate 15 0
      else replicate 16 0)"

definition dir_dev :: ata_pio_dev where
  "dir_dev = \<lparr>ad_sector_size = 32, ad_nsector = 4, ad_bus_io_port = 0x1f0, ad_bus_ctl_port = 0x3f6,
     ad_dev_num = 0, ad_support = 1\<rparr>"

definition dir_disks :: "(ata_pio_dev, ram_ata ata, unit) disks" where
  "dir_disks = \<lparr>dk_slots = [(\<lparr>bd_driver_data = dir_dev, bd_rd = Some (ata_pio_blkdev_rd ram_bus),
       bd_wr = Some (ata_pio_blkdev_wr ram_bus), bd_children = 0x1000, bd_part_base = 0, bd_flags = 0,
       bd_dev_type = BDT_DISK_DRIVE, bd_driver = BD_ATA_PIO, bd_blk_size = 32, bd_nblk = 4, bd_mutex = 0,
       bd_parent_mutex = None\<rparr>, [])],
     dk_hw = ram_ata_of dir_img, dk_heap = ()\<rparr>"

text \<open>The driver on it, with an empty cache; file 1 is open at the start of cluster 3.\<close>

definition dir_fat :: fat_driver where
  "dir_fat = set_fd 1 \<lparr>fd_cluster = 2, fd_size = 5, fd_file_pos = 0, fd_flags = 3\<rparr> (ram_fat
     \<lparr>ft_cache := \<lparr>bc_blkdev = Dev 0, bc_buf = replicate 32 0, bc_loaded_blk = 4, bc_mutex = 0\<rparr>\<rparr>)"

lemma dir_ready: "ata_ready ram_bus ra_idle ra_tf ra_words {dir_dev} (ram_ata_of dir_img)"
  by (rule ram_ready_of) (simp_all add: dir_dev_def dir_img_def)

lemma dir_bc_dev: "ata_cache.bc_dev (ft_cache dir_fat) dir_disks = fst (hd (dk_slots dir_disks))"
  by (simp add: ata_cache.bc_dev_def dir_fat_def set_fd_def dir_disks_def)

lemma dir_sizes:
  "ata_cache.bc_bsize (ft_cache dir_fat) dir_disks = 32" "ata_cache.bc_total (ft_cache dir_fat) dir_disks = 128"
  by (simp_all add: ata_cache.bc_total_def ata_cache.bc_bsize_def dir_bc_dev) (simp_all add: dir_disks_def)

lemma dir_ok: "ata_cache.bc_ok ram_bus ra_idle ra_tf ra_words {dir_dev} (ft_cache dir_fat) dir_disks"
proof -
  have "ata.served ram_bus ra_idle ra_tf ra_words {dir_dev} dir_disks"
    using dir_ready
    by (simp add: ata.served_def ata.dev_ok_def dir_disks_def bd_ok_def slot_ok_def ata_valid_def dev_addressable_def
        dir_dev_def ata_buses_def)
  then show ?thesis
    unfolding ata_cache.bc_ok_def dir_sizes dir_bc_dev
    by (simp add: dir_fat_def set_fd_def) (simp add: dir_disks_def)
qed


lemma dir_byte:
  assumes "q < 4" and "r < 32"
  shows "ata_cache.bc_byte ra_words (ft_cache dir_fat) dir_disks (32 * q + r) = concat (map word_bytes (dir_img q)) ! r"
proof -
  have "unat (of_nat q :: u64) = q" using assms(1) by (intro unat_of_nat_u64) simp
  then show ?thesis
    using assms
    unfolding ata_cache.bc_byte_def dir_sizes dir_bc_dev ata.block_def
    by (simp add: dir_disks_def ata_sector_def ram_ata_of_def ra_words_def dir_dev_def)
qed

lemma dir_entry:
  assumes "q < 4"
  shows "ent_at (ata_cache.bc_byte ra_words (ft_cache dir_fat) dir_disks) (32 * q) = concat (map word_bytes (dir_img q))"
proof (rule nth_equalityI)
  show l: "length (ent_at (ata_cache.bc_byte ra_words (ft_cache dir_fat) dir_disks) (32 * q)) =
      length (concat (map word_bytes (dir_img q)))"
    by (simp add: ent_at_def word_bytes_length) (simp add: dir_img_def)
  fix i assume "i < length (ent_at (ata_cache.bc_byte ra_words (ft_cache dir_fat) dir_disks) (32 * q))"
  then have "i < 32" by (simp add: ent_at_def)
  then show "ent_at (ata_cache.bc_byte ra_words (ft_cache dir_fat) dir_disks) (32 * q) ! i =
      concat (map word_bytes (dir_img q)) ! i"
    using dir_byte [OF assms] by (simp add: ent_at_def)
qed

lemma dir_entries:
  "ent_at (ata_cache.bc_byte ra_words (ft_cache dir_fat) dir_disks) 32 = concat (map word_bytes (dir_img 1))"
  "ent_at (ata_cache.bc_byte ra_words (ft_cache dir_fat) dir_disks) 64 = concat (map word_bytes (dir_img 2))"
  using dir_entry [of 1] dir_entry [of 2] by simp_all

lemma dir_last: "ent_end (ent_at (ata_cache.bc_byte ra_words (ft_cache dir_fat) dir_disks) 64)"
proof -
  have "dir_img 2 = 0 # replicate 15 0" using replicate_Suc [of 15 "0 :: u16"] by (simp add: dir_img_def)
  then show ?thesis by (simp add: dir_entries ent_end_def rd8_def word_bytes_def)
qed

lemma dir_hit: "dir_find [0x61] (dir_at (ata_cache.bc_byte ra_words (ft_cache dir_fat) dir_disks) 32 (Suc 1)) 0 0 (replicate 255 0) = Ret (Some 0)"
proof -
  have d: "dir_at (ata_cache.bc_byte ra_words (ft_cache dir_fat) dir_disks) 32 (Suc 1) =
      [concat (map word_bytes (dir_img 1)), concat (map word_bytes (dir_img 2))]"
    by (simp add: dir_at_Suc dir_entries)
  have "dos_name (concat (map word_bytes (dir_img 1))) = [0x41]"
    by (simp add: dos_name_def dir_img_def word_bytes_def)
  then have "put_dos (concat (map word_bytes (dir_img 1))) (replicate 255 0) = 0x41 # replicate 254 0"
    by (simp add: put_dos_def)
  then show ?thesis
    unfolding d by (simp add: ent_end_def ent_unused_def ent_lfn_def rd8_def dir_img_def word_bytes_def to_lower_def)
qed

lemma dir_fat_ok: "fat_ok dir_fat"
  unfolding dir_fat_def by (rule set_fd_ok) (use ram_fat_ok in \<open>simp_all add: fat_ok_def fd_ok_def\<close>)

lemma dir_data: "map (ata_cache.bc_byte ra_words (ft_cache dir_fat) dir_disks) [96..<98] = [0x68, 0x69]"
proof -
  have "[96..<98] = [96, 97 :: nat]" by (simp add: upt_rec)
  then show ?thesis using dir_byte [of 3 0] dir_byte [of 3 1] by (simp add: dir_img_def word_bytes_def)
qed

subsection \<open>Properties\<close>

text \<open>
  C5: looking up a name on the disk: in a directory that ends on the device, with entries that do not
  cross blocks, \<open>fat_find_dirent\<close> through cache, registry and disk driver returns the place the
  one-pass search \<open>dir_find\<close> over the entries finds, or 0, and changes nothing but the cache.
\<close>
theorem fat_find_on_disk:
  assumes "ata_cache.bc_ok bus idle tf disk D (ft_cache drv) s"
    and "32 dvd ata_cache.bc_bsize (ft_cache drv) s" and "32 dvd unat pos"
    and "unat pos + 32 * Suc n \<le> ata_cache.bc_total (ft_cache drv) s"
    and "f = ata_cache.bc_byte disk (ft_cache drv) s" and "ent_end (ent_at f (unat pos + 32 * n))"
  shows "\<exists>c' s'. fat_find_dirent (blk_cache_rd kalloc junk) drv pos name s =
      seq (dir_find name (dir_at f (unat pos) (Suc n)) 0 0 (replicate 255 0))
        (\<lambda>r. Ret (case r of None \<Rightarrow> 0 | Some i \<Rightarrow> pos + of_nat (32 * i), drv\<lparr>ft_cache := c'\<rparr>, s')) \<and>
    ata_cache.bc_ok bus idle tf disk D c' s' \<and> ata_cache.bc_byte disk c' s' = f"
proof -
  have ok: "ata_cache.fs_ok bus idle tf disk D drv s"
    using assms(1,2) by (simp add: ata_cache.fs_ok_def ata_cache.bc_ok_def)
  then have "ata_cache.dir_readable bus idle tf disk D drv s pos n"
    using assms(3,4) by (simp add: ata_cache.dir_readable_def ata_cache.fs_total_def)
  moreover have "ata_cache.fs_bytes disk drv s = f" by (simp add: ata_cache.fs_bytes_def assms(5))
  ultimately obtain drv' s' where
    r: "forever (find_body (blk_cache_rd kalloc junk) name) (pos, drv, s) =
      seq (dir_find name (dir_at f (unat pos) (Suc n)) 0 0 (replicate 255 0))
        (\<lambda>r. Ret (case r of None \<Rightarrow> 0 | Some i \<Rightarrow> pos + of_nat (32 * i), drv', s'))"
    and s: "ata_cache.fs_same bus idle tf disk D drv s drv' s'"
    using ata_cache.fat_find_run [of bus idle tf disk D drv s pos n] assms(6) by metis
  have "drv' = drv\<lparr>ft_cache := ft_cache drv'\<rparr>" "ata_cache.bc_ok bus idle tf disk D (ft_cache drv') s'"
    "ata_cache.bc_byte disk (ft_cache drv') s' = f"
    using s assms(5) by (simp_all add: ata_cache.fs_same_def ata_cache.fs_ok_def ata_cache.fs_bytes_def)
  then show ?thesis using r unfolding fat_find_dirent_def by metis
qed

theorem fat_find_on_disk_witness:
  "\<exists>c' s'. fat_find_dirent (blk_cache_rd demo_kalloc (\<lambda>_. 0)) dir_fat 32 [0x61] dir_disks =
     Ret (32, dir_fat\<lparr>ft_cache := c'\<rparr>, s')"
proof -
  have "ent_end (ent_at (ata_cache.bc_byte ra_words (ft_cache dir_fat) dir_disks) (unat (32 :: u64) + 32 * 1))"
    using dir_last by simp
  from fat_find_on_disk [OF dir_ok _ _ _ refl this, of demo_kalloc "\<lambda>_. 0" "[0x61]"] show ?thesis
    using dir_hit by (auto simp: dir_sizes)
qed

text \<open>
  C22: reading an open file on the disk: a read that stays in the file and in one block returns the bytes
  of the device from the file's cluster and position on, and leaves the position where it was.
\<close>
theorem fat_rd_on_disk:
  assumes "ata_cache.bc_ok bus idle tf disk D (ft_cache drv) s" and "fat_ok drv" and "fid_ok fid"
    and "n \<noteq> 0" and "unat n \<le> length dst" and "fd = ft_file_descs drv ! unat (fid - 1)"
    and "unat (fd_file_pos fd) + unat n \<le> unat (fd_size fd)"
    and "a = cluster_to_pos drv (fd_cluster fd) + fd_file_pos fd"
    and "unat a + unat n \<le> ata_cache.bc_total (ft_cache drv) s"
    and "unat a mod ata_cache.bc_bsize (ft_cache drv) s + unat n \<le> ata_cache.bc_bsize (ft_cache drv) s"
  shows "\<exists>c' s'. fat_vfs_rd (blk_cache_rd kalloc junk) drv fid dst n s =
      Ret (0, map (ata_cache.bc_byte disk (ft_cache drv) s) [unat a..<unat a + unat n] @ drop (unat n) dst,
        drv\<lparr>ft_cache := c'\<rparr>, s') \<and>
    ata_cache.bc_ok bus idle tf disk D c' s' \<and>
    ata_cache.bc_byte disk c' s' = ata_cache.bc_byte disk (ft_cache drv) s"
  using assms by (rule ata_cache.fat_rd_run)

theorem fat_rd_on_disk_witness:
  "\<exists>c' s'. fat_vfs_rd (blk_cache_rd demo_kalloc (\<lambda>_. 0)) dir_fat 1 [0, 0] 2 dir_disks =
     Ret (0, [0x68, 0x69], dir_fat\<lparr>ft_cache := c'\<rparr>, s')"
proof -
  let ?f = "ata_cache.bc_byte ra_words (ft_cache dir_fat) dir_disks"
  have f: "ft_file_descs dir_fat ! unat (1 - 1 :: u64) = \<lparr>fd_cluster = 2, fd_size = 5, fd_file_pos = 0, fd_flags = 3\<rparr>"
    by (simp add: dir_fat_def set_fd_def ram_fat_def)
  have a': "96 = cluster_to_pos dir_fat (fd_cluster \<lparr>fd_cluster = 2, fd_size = 5, fd_file_pos = 0, fd_flags = 3\<rparr>) +
      fd_file_pos \<lparr>fd_cluster = 2, fd_size = 5, fd_file_pos = 0, fd_flags = 3\<rparr>"
    by (simp add: cluster_to_pos_def dir_fat_def set_fd_def ram_fat_def)
  have "map ?f [96..<98] = [0x68, 0x69]" by (rule dir_data)
  then show ?thesis
    using fat_rd_on_disk [OF dir_ok dir_fat_ok _ _ _ f [symmetric] _ a', of 2 "[0, 0]" demo_kalloc "\<lambda>_. 0"]
    by (auto simp: dir_sizes fid_ok_def)
qed

end
