(* ===== verification/Vfs.thy ===== *)
theory Vfs
  imports Fat
begin

section \<open>The virtual file system (vfs.c)\<close>

text \<open>
  The table of 255 drives and the dispatch of the file operations to the driver of a drive.  The
  drives' drivers are over the data \<open>'fd\<close> and the world \<open>'w\<close>; mounting is for FAT.  A drive that was
  never mounted has NULL function pointers, so calling them is a fault.
\<close>

abbreviation VFS_DRIVE_ID_NULL :: u8 where "VFS_DRIVE_ID_NULL \<equiv> 0"
abbreviation DF_MOUNTED :: u8 where "DF_MOUNTED \<equiv> 0x1"
abbreviation NDRIVES :: nat where "NDRIVES \<equiv> 255"

record ('fd, 'w) drive =
  dr_driver :: "('fd, 'w) vfs_fs_driver"
  dr_blkdev :: "bd_ref option"
  dr_fs :: vfs_fs
  dr_flags :: u8

record vfs_file =
  vf_drive :: u8
  vf_file :: u64

subsection \<open>Mounting\<close>

definition is_mounted :: "('fd, 'w) drive \<Rightarrow> bool" where
  "is_mounted dr \<longleftrightarrow> dr_flags dr AND DF_MOUNTED \<noteq> 0"

definition vfs_cnt_mounted :: "('fd, 'w) drive list \<Rightarrow> nat" where
  "vfs_cnt_mounted drives = (\<Sum>dr \<leftarrow> drives. of_bool (is_mounted dr))"

fun vfs_get_mount_fs :: "('fd, 'w) drive list \<Rightarrow> bd_ref \<Rightarrow> vfs_fs" where
  "vfs_get_mount_fs [] r = VF_NULL"
| "vfs_get_mount_fs (dr # drs) r =
     (if is_mounted dr \<and> dr_blkdev dr = Some r then dr_fs dr else vfs_get_mount_fs drs r)"

fun vfs_find_slot :: "('fd, 'w) drive list \<Rightarrow> nat \<Rightarrow> nat option" where
  "vfs_find_slot [] i = None"
| "vfs_find_slot (dr # drs) i = (if \<not> is_mounted dr then Some i else vfs_find_slot drs (Suc i))"

text \<open>
  The arguments of a mount that are not the program's state: the heap, the values of uninitialised
  memory (a heap block, the two sector buffers, a directory entry).
\<close>

record 'k mount_env =
  me_kalloc :: "u64 \<Rightarrow> 'k \<Rightarrow> (u64 \<times> 'k) exec"
  me_junk :: "u64 \<Rightarrow> u8"
  me_stk :: "u8 list"
  me_info :: fat_dirent_info

type_synonym ('d, 'h, 'k) fat_drive = "(fat_driver, ('d, 'h, 'k) disks) drive"

definition vfs_mount :: "'k mount_env \<Rightarrow> bd_ref \<Rightarrow> vfs_fs \<Rightarrow> ('d, 'h, 'k) fat_drive list \<Rightarrow> ('d, 'h, 'k) disks \<Rightarrow>
    (u8 \<times> ('d, 'h, 'k) fat_drive list \<times> ('d, 'h, 'k) disks) exec" where
  "vfs_mount env r fs drives s =
     (if vfs_get_mount_fs drives r \<noteq> VF_NULL then Ret (VFS_DRIVE_ID_NULL, drives, s)
      else (case vfs_find_slot drives 0 of
         None \<Rightarrow> Ret (VFS_DRIVE_ID_NULL, drives, s)
       | Some i \<Rightarrow>
           (case fs of
              VF_FAT_16 \<Rightarrow>
                seq (fat_driver_create (me_kalloc env) (me_junk env) (me_stk env) r s) (\<lambda>(fat, s).
                case fat of
                  None \<Rightarrow> Ret (VFS_DRIVE_ID_NULL, drives, s)
                | Some drv \<Rightarrow>
                    seq (fat_vfs_fs_driver_create (me_kalloc env) (blk_cache_rd (me_kalloc env) (me_junk env))
                           (me_info env) drv s) (\<lambda>(vfs_driver, s).
                    Ret (of_nat i + 1, drives[i := \<lparr>dr_driver = vfs_driver, dr_blkdev = Some r, dr_fs = fs,
                      dr_flags = DF_MOUNTED\<rparr>], s)))
            | VF_NULL \<Rightarrow> Ret (VFS_DRIVE_ID_NULL, drives, s))))"

text \<open>\<open>try_mount_tree\<close> on one device: probing it and mounting it; then its partitions, which have none.\<close>

definition try_mount :: "'k mount_env \<Rightarrow> bd_ref \<Rightarrow> ('d, 'h, 'k) fat_drive list \<times> ('d, 'h, 'k) disks \<Rightarrow>
    (('d, 'h, 'k) fat_drive list \<times> ('d, 'h, 'k) disks) exec" where
  "try_mount env r st = (case st of (drives, s) \<Rightarrow>
     seq (bd_get r s) (\<lambda>bd.
     if bd_dev_type bd = BDT_DISK_DRIVE then
       seq (fat_verify (me_stk env) r s) (\<lambda>(rc, s).
       if rc = 0 then seq (vfs_mount env r VF_FAT_16 drives s) (\<lambda>(drive_id, drives, s). Ret (drives, s))
       else Ret (drives, s))
     else Ret (drives, s)))"

definition try_mount_tree :: "'k mount_env \<Rightarrow> nat \<Rightarrow> ('d, 'h, 'k) fat_drive list \<times> ('d, 'h, 'k) disks \<Rightarrow>
    (('d, 'h, 'k) fat_drive list \<times> ('d, 'h, 'k) disks) exec" where
  "try_mount_tree env i st =
     seq (try_mount env (Dev i) st) (\<lambda>st.
     for_each (map (Part i) [0..<bd_nchildren (Dev i) (dk_slots (snd st))]) (try_mount env) st)"

definition vfs_auto_mount :: "'k mount_env \<Rightarrow> ('d, 'h, 'k) fat_drive list \<times> ('d, 'h, 'k) disks \<Rightarrow>
    (('d, 'h, 'k) fat_drive list \<times> ('d, 'h, 'k) disks) exec" where
  "vfs_auto_mount env st = for_each [0..<length (dk_slots (snd st))] (try_mount_tree env) st"

subsection \<open>File operations\<close>

definition set_data :: "nat \<Rightarrow> 'fd \<Rightarrow> ('fd, 'w) drive list \<Rightarrow> ('fd, 'w) drive list" where
  "set_data i d drives = drives[i := (drives ! i)\<lparr>dr_driver := (dr_driver (drives ! i))\<lparr>vd_data := d\<rparr>\<rparr>]"

text \<open>
  The drive number at the start of a path: the digits before the colon.  \<open>acc\<close> is the variable
  \<open>drive_id\<close>, which the source does not initialise.
\<close>

fun parse_drive :: "u8 list \<Rightarrow> int \<Rightarrow> int option" where
  "parse_drive [] acc = Some acc"
| "parse_drive (c # cs) acc =
     (if c < 0x30 \<or> c > 0x39 then None
      else parse_drive cs (acc + (uint c - 0x30) * 10 ^ length cs))"

text \<open>\<open>path + drive_id_ch_cnt + 1\<close> is behind the terminator when there is no colon.\<close>

definition vfs_open :: "int \<Rightarrow> u8 list \<Rightarrow> u8 \<Rightarrow> ('fd, 'w) drive list \<Rightarrow> 'w \<Rightarrow>
    (vfs_file option \<times> ('fd, 'w) drive list \<times> 'w) exec" where
  "vfs_open stk_id path flags drives w =
     (let drive_id_ch_cnt = length (takeWhile (\<lambda>c. c \<noteq> 0x3a) path) in
      if drive_id_ch_cnt = 0 \<or> drive_id_ch_cnt > 3 then Ret (None, drives, w)
      else (case parse_drive (take drive_id_ch_cnt path) stk_id of
         None \<Rightarrow> Ret (None, drives, w)
       | Some drive_id \<Rightarrow>
           if drive_id < 1 \<or> drive_id > int NDRIVES then Ret (None, drives, w)
           else
             let i = nat (drive_id - 1) in
             if \<not> is_mounted (drives ! i) then Ret (None, drives, w)
             else if drive_id_ch_cnt = length path then Fault
             else (case vd_open (dr_driver (drives ! i)) of
                None \<Rightarrow> Fault
              | Some op \<Rightarrow>
                  seq (op (vd_data (dr_driver (drives ! i))) (drop (drive_id_ch_cnt + 1) path) flags w) (\<lambda>(fid, d, w).
                  let drives = set_data i d drives in
                  if fid = 0 then Ret (None, drives, w)
                  else Ret (Some \<lparr>vf_drive = of_int drive_id, vf_file = fid\<rparr>, drives, w)))))"

text \<open>What every call on an open file starts with: the driver of its drive, and \<open>is_open\<close>.\<close>

definition vfs_check :: "vfs_file \<Rightarrow> ('fd, 'w) drive list \<Rightarrow> (nat \<times> ('fd, 'w) vfs_fs_driver) option exec" where
  "vfs_check f drives =
     (if vf_drive f = 0 \<or> vf_file f = 0 then Ret None
      else
        let i = unat (vf_drive f) - 1; driver = dr_driver (drives ! i) in
        (case vd_is_open driver of
           None \<Rightarrow> Fault
         | Some is_open \<Rightarrow>
             seq (is_open (vd_data driver) (vf_file f)) (\<lambda>open. Ret (if open then Some (i, driver) else None))))"

definition vfs_close :: "vfs_file \<Rightarrow> ('fd, 'w) drive list \<Rightarrow> (int \<times> ('fd, 'w) drive list) exec" where
  "vfs_close f drives =
     seq (vfs_check f drives) (\<lambda>chk.
     case chk of
       None \<Rightarrow> Ret (1, drives)
     | Some (i, driver) \<Rightarrow>
         (case vd_close driver of
            None \<Rightarrow> Fault
          | Some close \<Rightarrow>
              seq (close (vd_data driver) (vf_file f)) (\<lambda>(rc, d).
              Ret (if rc \<noteq> 0 then 1 else 0, set_data i d drives))))"

definition vfs_abs_tell :: "vfs_file \<Rightarrow> ('fd, 'w) drive list \<Rightarrow> (int \<times> u64 option) exec" where
  "vfs_abs_tell f drives =
     seq (vfs_check f drives) (\<lambda>chk.
     case chk of
       None \<Rightarrow> Ret (1, None)
     | Some (i, driver) \<Rightarrow>
         (case vd_abs_tell driver of
            None \<Rightarrow> Fault
          | Some abs_tell \<Rightarrow>
              seq (abs_tell (vd_data driver) (vf_file f)) (\<lambda>(rc, pos).
              Ret (if rc \<noteq> 0 then 1 else 0, Some pos))))"

definition vfs_seek :: "vfs_file \<Rightarrow> vfs_whence \<Rightarrow> u64 \<Rightarrow> ('fd, 'w) drive list \<Rightarrow> (int \<times> ('fd, 'w) drive list) exec" where
  "vfs_seek f whence off drives =
     seq (vfs_check f drives) (\<lambda>chk.
     case chk of
       None \<Rightarrow> Ret (1, drives)
     | Some (i, driver) \<Rightarrow>
         (case vd_seek driver of
            None \<Rightarrow> Fault
          | Some seek \<Rightarrow>
              seq (seek (vd_data driver) (vf_file f) whence off) (\<lambda>(rc, d).
              Ret (if rc \<noteq> 0 then 1 else 0, set_data i d drives))))"

definition vfs_rd :: "vfs_file \<Rightarrow> u8 list \<Rightarrow> u64 \<Rightarrow> ('fd, 'w) drive list \<Rightarrow> 'w \<Rightarrow>
    (int \<times> u8 list \<times> ('fd, 'w) drive list \<times> 'w) exec" where
  "vfs_rd f dst n drives w =
     seq (vfs_check f drives) (\<lambda>chk.
     case chk of
       None \<Rightarrow> Ret (1, dst, drives, w)
     | Some (i, driver) \<Rightarrow>
         (case vd_rd driver of
            None \<Rightarrow> Fault
          | Some rd \<Rightarrow>
              seq (rd (vd_data driver) (vf_file f) dst n w) (\<lambda>(rc, dst, d, w).
              Ret (if rc \<noteq> 0 then 1 else 0, dst, set_data i d drives, w))))"

subsection \<open>The file operations over the interface of a driver\<close>

definition handle_ok :: "vfs_file \<Rightarrow> ('fd, 'w) drive list \<Rightarrow> bool" where
  "handle_ok f drives \<longleftrightarrow> vf_drive f \<noteq> 0 \<and> vf_file f \<noteq> 0 \<and> unat (vf_drive f) \<le> length drives"

definition handle_drive :: "vfs_file \<Rightarrow> nat" where
  "handle_drive f = unat (vf_drive f) - 1"

definition drive_data :: "vfs_file \<Rightarrow> ('fd, 'w) drive list \<Rightarrow> 'fd" where
  "drive_data f drives = vd_data (dr_driver (drives ! handle_drive f))"

lemma handle_drive_less:
  assumes "handle_ok f drives"
  shows "handle_drive f < length drives"
proof -
  have "0 < unat (vf_drive f)" using assms by (simp add: handle_ok_def unat_gt_0)
  moreover have "unat (vf_drive f) \<le> length drives" using assms by (simp add: handle_ok_def)
  ultimately show ?thesis unfolding handle_drive_def by linarith
qed

lemma handle_ok_set [simp]: "handle_ok f (set_data i d drives) = handle_ok f drives"
  by (simp add: handle_ok_def set_data_def)

lemma set_data_at:
  assumes "i < length drives"
  shows "dr_driver (set_data i d drives ! i) = (dr_driver (drives ! i))\<lparr>vd_data := d\<rparr>"
    and "j \<noteq> i \<Longrightarrow> set_data i d drives ! j = drives ! j"
  using assms by (simp_all add: set_data_def)

context fs_driver
begin

text \<open>The drive of a handle is served by this driver.\<close>

definition dispatched :: "vfs_file \<Rightarrow> ('fd, 'w) drive list \<Rightarrow> bool" where
  "dispatched f drives \<longleftrightarrow> handle_ok f drives \<and> fid_ok (vf_file f) \<and>
     (let driver = dr_driver (drives ! handle_drive f) in
      vd_is_open driver = Some is_open \<and> vd_close driver = Some close \<and> vd_abs_tell driver = Some abs_tell \<and>
      vd_seek driver = Some seek \<and> ok (vd_data driver))"

lemma dispatched_set:
  "dispatched f drives \<Longrightarrow> ok d \<Longrightarrow> dispatched f (set_data (handle_drive f) d drives)"
  using handle_drive_less [of f drives] by (simp add: dispatched_def Let_def set_data_at(1))

lemma drive_data_set:
  "dispatched f drives \<Longrightarrow> drive_data f (set_data (handle_drive f) d drives) = d"
  using handle_drive_less [of f drives] by (simp add: dispatched_def drive_data_def set_data_at(1))

lemma vfs_check_dispatched:
  assumes "dispatched f drives"
  shows "vfs_check f drives = Ret (if view (drive_data f drives) (vf_file f) \<noteq> None
    then Some (handle_drive f, dr_driver (drives ! handle_drive f)) else None)"
proof -
  have "is_open (drive_data f drives) (vf_file f) = Ret (view (drive_data f drives) (vf_file f) \<noteq> None)"
    using assms by (intro is_open_law) (simp_all add: dispatched_def Let_def drive_data_def)
  then show ?thesis
    using assms by (simp add: vfs_check_def dispatched_def Let_def handle_ok_def handle_drive_def drive_data_def)
qed

lemma dispatched_ok: "dispatched f drives \<Longrightarrow> ok (drive_data f drives)"
  by (simp add: dispatched_def Let_def drive_data_def)

lemma vfs_seek_run:
  assumes d: "dispatched f drives" and v: "view (drive_data f drives) (vf_file f) = Some (p, sz)"
  shows "\<exists>drives' p'. vfs_seek f whence off drives = Ret (0, drives') \<and> dispatched f drives' \<and>
    view (drive_data f drives') = (view (drive_data f drives))(vf_file f := Some (p', sz)) \<and> 0 \<le> p' \<and> p' \<le> sz \<and>
    (whence = VW_START \<longrightarrow> p' = clamp sz (sint off)) \<and> (whence = VW_END \<longrightarrow> p' = clamp sz (sz + sint off))"
proof -
  obtain d' p' where s: "seek (drive_data f drives) (vf_file f) whence off = Ret (0, d')" "ok d'"
    "view d' = (view (drive_data f drives))(vf_file f := Some (p', sz))" "0 \<le> p'" "p' \<le> sz"
    "whence = VW_START \<longrightarrow> p' = clamp sz (sint off)" "whence = VW_END \<longrightarrow> p' = clamp sz (sz + sint off)"
    using seek_law [OF dispatched_ok [OF d] v] by blast
  let ?ds = "set_data (handle_drive f) d' drives"
  have "vfs_seek f whence off drives = Ret (0, ?ds)"
    using d v s(1) by (simp add: vfs_seek_def vfs_check_dispatched) (simp add: dispatched_def Let_def drive_data_def)
  then show ?thesis using dispatched_set [OF d s(2)] drive_data_set [OF d, of d'] s by (intro exI [of _ ?ds] exI [of _ p']) simp
qed

lemma vfs_tell_run:
  assumes d: "dispatched f drives" and v: "view (drive_data f drives) (vf_file f) = Some (p, sz)"
  shows "\<exists>v. vfs_abs_tell f drives = Ret (0, Some v) \<and> uint v = p"
proof -
  obtain u where "abs_tell (drive_data f drives) (vf_file f) = Ret (0, u)" "uint u = p"
    using tell_law [OF dispatched_ok [OF d] v] by blast
  then show ?thesis
    using d v by (simp add: vfs_abs_tell_def vfs_check_dispatched) (simp add: dispatched_def Let_def drive_data_def)
qed

lemma vfs_close_run:
  assumes d: "dispatched f drives" and v: "view (drive_data f drives) (vf_file f) \<noteq> None"
  shows "\<exists>drives'. vfs_close f drives = Ret (0, drives') \<and> dispatched f drives' \<and>
    view (drive_data f drives') = (view (drive_data f drives))(vf_file f := None)"
proof -
  obtain d' where s: "close (drive_data f drives) (vf_file f) = Ret (0, d')" "ok d'"
    "view d' = (view (drive_data f drives))(vf_file f := None)"
    using close_law [OF dispatched_ok [OF d] v] by blast
  let ?ds = "set_data (handle_drive f) d' drives"
  have "vfs_close f drives = Ret (0, ?ds)"
    using d v s(1) by (auto simp: vfs_close_def vfs_check_dispatched) (simp add: dispatched_def Let_def drive_data_def)
  then show ?thesis using dispatched_set [OF d s(2)] drive_data_set [OF d, of d'] s by (intro exI [of _ ?ds]) simp
qed

lemma vfs_closed_refused:
  assumes "dispatched f drives" and "view (drive_data f drives) (vf_file f) = None"
  shows "vfs_close f drives = Ret (1, drives)" "vfs_seek f whence off drives = Ret (1, drives)"
    "vfs_abs_tell f drives = Ret (1, None)" "vfs_rd f dst n drives w = Ret (1, dst, drives, w)"
  using assms by (simp_all add: vfs_close_def vfs_seek_def vfs_abs_tell_def vfs_rd_def vfs_check_dispatched)

end

subsection \<open>The table of drives\<close>

definition mounts_ok :: "('fd, 'w) drive list \<Rightarrow> bool" where
  "mounts_ok drives \<longleftrightarrow> length drives = NDRIVES \<and>
     (\<forall>dr \<in> set drives. is_mounted dr \<longrightarrow> dr_fs dr \<noteq> VF_NULL) \<and>
     (\<forall>i < NDRIVES. \<forall>j < NDRIVES. is_mounted (drives ! i) \<longrightarrow> is_mounted (drives ! j) \<longrightarrow>
        dr_blkdev (drives ! i) = dr_blkdev (drives ! j) \<longrightarrow> i = j)"

lemma vfs_get_mount_fs_null:
  "\<forall>dr \<in> set drives. is_mounted dr \<longrightarrow> dr_fs dr \<noteq> VF_NULL \<Longrightarrow>
   vfs_get_mount_fs drives r = VF_NULL \<longleftrightarrow> (\<forall>dr \<in> set drives. is_mounted dr \<longrightarrow> dr_blkdev dr \<noteq> Some r)"
  by (induction drives) auto

lemma vfs_find_slot_Some:
  "vfs_find_slot drives k = Some i \<Longrightarrow> k \<le> i \<and> i < k + length drives \<and> \<not> is_mounted (drives ! (i - k))"
proof (induction drives arbitrary: k)
  case (Cons dr drs)
  show ?case
  proof (cases "is_mounted dr")
    case True
    then have ih: "Suc k \<le> i \<and> i < Suc k + length drs \<and> \<not> is_mounted (drs ! (i - Suc k))"
      using Cons.prems by (intro Cons.IH) simp
    then have "Suc k \<le> i" by blast
    then have "i - k = Suc (i - Suc k)" by simp
    then show ?thesis using ih by auto
  next
    case False
    then show ?thesis using Cons.prems by simp
  qed
qed simp

lemma vfs_cnt_mounted_set:
  assumes "i < length drives" "\<not> is_mounted (drives ! i)" "is_mounted dr"
  shows "vfs_cnt_mounted (drives[i := dr]) = vfs_cnt_mounted drives + 1"
  using assms
proof (induction drives arbitrary: i)
  case (Cons d ds)
  then show ?case by (cases i) (auto simp: vfs_cnt_mounted_def)
qed simp

text \<open>A mount that succeeds fills a free slot.\<close>

lemma vfs_mount_slot:
  assumes "vfs_mount env r fs drives s = Ret (drive_id, drives', s')"
  shows "drive_id = 0 \<and> drives' = drives \<or>
    (\<exists>i vfs_driver. vfs_get_mount_fs drives r = VF_NULL \<and> vfs_find_slot drives 0 = Some i \<and> fs = VF_FAT_16 \<and>
       drive_id = of_nat i + 1 \<and>
       drives' = drives[i := \<lparr>dr_driver = vfs_driver, dr_blkdev = Some r, dr_fs = fs, dr_flags = DF_MOUNTED\<rparr>])"
proof (cases "vfs_get_mount_fs drives r = VF_NULL")
  case False
  then show ?thesis using assms by (simp add: vfs_mount_def)
next
  case True
  show ?thesis
  proof (cases "vfs_find_slot drives 0")
    case None
    then show ?thesis using assms True by (simp add: vfs_mount_def)
  next
    case (Some i)
    show ?thesis
    proof (cases fs)
      case VF_NULL
      then show ?thesis using assms True Some by (simp add: vfs_mount_def)
    next
      case VF_FAT_16
      then obtain fat s1 where rest: "(case fat of None \<Rightarrow> Ret (VFS_DRIVE_ID_NULL, drives, s1)
          | Some drv \<Rightarrow> seq (fat_vfs_fs_driver_create (me_kalloc env) (blk_cache_rd (me_kalloc env) (me_junk env))
                           (me_info env) drv s1) (\<lambda>(vfs_driver, s).
                    Ret (of_nat i + 1, drives[i := \<lparr>dr_driver = vfs_driver, dr_blkdev = Some r, dr_fs = fs,
                      dr_flags = DF_MOUNTED\<rparr>], s))) = Ret (drive_id, drives', s')"
        using assms True Some by (auto simp: vfs_mount_def seq_Ret_iff)
      then show ?thesis using True Some VF_FAT_16 by (cases fat) (auto simp: seq_Ret_iff)
    qed
  qed
qed

lemma vfs_mount_ok:
  fixes drives :: "('d, 'h, 'k) fat_drive list"
  assumes ok: "mounts_ok drives" and m: "vfs_mount env r fs drives s = Ret (drive_id, drives', s')"
  shows "mounts_ok drives' \<and> (if drive_id = 0 then drives' = drives
    else (\<exists>i < NDRIVES. unat drive_id = i + 1 \<and> \<not> is_mounted (drives ! i) \<and> is_mounted (drives' ! i) \<and>
        dr_blkdev (drives' ! i) = Some r \<and> (\<forall>j. j \<noteq> i \<longrightarrow> drives' ! j = drives ! j)) \<and>
      vfs_get_mount_fs drives r = VF_NULL \<and> vfs_cnt_mounted drives' = vfs_cnt_mounted drives + 1)"
  using vfs_mount_slot [OF m]
proof (elim disjE exE conjE)
  assume "drive_id = 0" "drives' = drives"
  then show ?thesis using ok by simp
next
  fix i and vfs_driver :: "(fat_driver, ('d, 'h, 'k) disks) vfs_fs_driver"
  let ?dr = "\<lparr>dr_driver = vfs_driver, dr_blkdev = Some r, dr_fs = fs, dr_flags = DF_MOUNTED\<rparr>"
  assume free: "vfs_get_mount_fs drives r = VF_NULL" and slot: "vfs_find_slot drives 0 = Some i"
    and fs: "fs = VF_FAT_16" and did: "drive_id = of_nat i + 1" and d': "drives' = drives[i := ?dr]"
  have len: "length drives = 255" using ok by (simp add: mounts_ok_def)
  have i: "i < 255" "\<not> is_mounted (drives ! i)" using vfs_find_slot_Some [OF slot] len by simp_all
  have dr: "is_mounted ?dr" by (simp add: is_mounted_def)
  have null: "\<forall>dr \<in> set drives. is_mounted dr \<longrightarrow> dr_fs dr \<noteq> VF_NULL" using ok by (simp add: mounts_ok_def)
  have other: "dr_blkdev (drives ! j) \<noteq> Some r" if "j < 255" "is_mounted (drives ! j)" for j
    using free that len unfolding vfs_get_mount_fs_null [OF null] by simp
  have u: "unat drive_id = i + 1"
  proof -
    have "unat (of_nat (i + 1) :: u8) = i + 1" using i(1) by (simp only: unat_of_nat) simp
    then show ?thesis by (simp add: did add.commute)
  qed
  have "mounts_ok drives'"
    unfolding mounts_ok_def
  proof (intro conjI ballI allI impI)
    show "length drives' = NDRIVES" using len by (simp add: d')
    show "dr_fs d \<noteq> VF_NULL" if "d \<in> set drives'" "is_mounted d" for d
      using that set_update_subset_insert [of drives i ?dr] null fs by (auto simp: d')
    show "a = b" if "a < NDRIVES" "b < NDRIVES" "is_mounted (drives' ! a)" "is_mounted (drives' ! b)"
      "dr_blkdev (drives' ! a) = dr_blkdev (drives' ! b)" for a b
      using that ok other [of a] other [of b] len
      by (cases "a = i"; cases "b = i") (auto simp: d' mounts_ok_def)
  qed
  moreover have "vfs_cnt_mounted drives' = vfs_cnt_mounted drives + 1"
    unfolding d' using i len dr by (intro vfs_cnt_mounted_set) simp_all
  moreover have "drive_id \<noteq> 0" using u by auto
  ultimately show ?thesis using i u free dr len by (auto simp: d')
qed

definition dec_digits :: "u8 list \<Rightarrow> int" where
  "dec_digits ds = foldl (\<lambda>n c. 10 * n + (uint c - 0x30)) 0 ds"

lemma dec_digits_foldl: "foldl (\<lambda>n c. 10 * n + (uint c - 0x30)) a ds = a * 10 ^ length ds + dec_digits (ds :: u8 list)"
proof (induction ds arbitrary: a)
  case (Cons c ds)
  then have "foldl (\<lambda>n c. 10 * n + (uint c - 0x30)) (10 * a + (uint c - 0x30)) ds =
      (10 * a + (uint c - 0x30)) * 10 ^ length ds + dec_digits ds" .
  moreover have "dec_digits (c # ds) = (uint c - 0x30) * 10 ^ length ds + dec_digits ds"
    using Cons.IH [of "uint c - 0x30"] by (simp add: dec_digits_def)
  ultimately show ?case by (simp add: algebra_simps)
qed (simp add: dec_digits_def)

lemma parse_drive_dec:
  "parse_drive ds acc = (if \<forall>c \<in> set ds. 0x30 \<le> c \<and> c \<le> 0x39 then Some (acc + dec_digits ds) else None)"
proof (induction ds arbitrary: acc)
  case (Cons c ds)
  have "dec_digits (c # ds) = (uint c - 0x30) * 10 ^ length ds + dec_digits ds"
    using dec_digits_foldl [of "uint c - 0x30" ds] by (simp add: dec_digits_def)
  then show ?case using Cons.IH by (auto simp: not_less)
qed (simp add: dec_digits_def)

subsection \<open>A mounted drive in memory\<close>

definition ram_vfs_driver :: "(fat_driver, unit) vfs_fs_driver" where
  "ram_vfs_driver = \<lparr>vd_data = ram_open_fat, vd_is_open = Some fat_vfs_is_open,
     vd_open = Some (fat_vfs_open (ram_crd ram_dir) no_info), vd_close = Some fat_vfs_close,
     vd_abs_tell = Some fat_vfs_abs_tell, vd_seek = Some fat_vfs_seek, vd_rd = Some (fat_vfs_rd (ram_crd ram_dir))\<rparr>"

definition ram_drives :: "(fat_driver, unit) drive list" where
  "ram_drives = [\<lparr>dr_driver = ram_vfs_driver, dr_blkdev = Some (Dev 0), dr_fs = VF_FAT_16, dr_flags = DF_MOUNTED\<rparr>]"

definition ram_file :: vfs_file where
  "ram_file = \<lparr>vf_drive = 1, vf_file = 1\<rparr>"

lemma ram_dispatched: "fat.dispatched ram_file ram_drives"
  using ram_open_ok
  by (simp add: fat.dispatched_def handle_ok_def handle_drive_def ram_file_def ram_drives_def ram_vfs_driver_def fid_ok_def)

lemma ram_data: "drive_data ram_file ram_drives = ram_open_fat" "vf_file ram_file = 1"
  by (simp_all add: drive_data_def handle_drive_def ram_file_def ram_drives_def ram_vfs_driver_def)

subsection \<open>Properties\<close>

text \<open>
  On an open file of a FAT drive, the position that \<open>vfs_abs_tell\<close> reports after a \<open>vfs_seek\<close> from
  the start is the offset, cut to the range from 0 to the size of the file.
\<close>
theorem vfs_seek_tell:
  assumes "fat.dispatched f drives" and "fat_view (drive_data f drives) (vf_file f) = Some (p, sz)"
  shows "\<exists>drives' v. vfs_seek f VW_START off drives = Ret (0, drives') \<and>
    vfs_abs_tell f drives' = Ret (0, Some v) \<and> uint v = clamp sz (sint off)"
proof -
  obtain drives' where s: "vfs_seek f VW_START off drives = Ret (0, drives')" "fat.dispatched f drives'"
    "fat_view (drive_data f drives') = (fat_view (drive_data f drives))(vf_file f := Some (clamp sz (sint off), sz))"
    using fat.vfs_seek_run [OF assms, of VW_START off] by blast
  then have "fat_view (drive_data f drives') (vf_file f) = Some (clamp sz (sint off), sz)" by simp
  then show ?thesis using fat.vfs_tell_run [OF s(2)] s(1) by blast
qed

theorem vfs_seek_tell_witness:
  "\<exists>drives' v. vfs_seek ram_file VW_START 9 ram_drives = Ret (0, drives') \<and>
    vfs_abs_tell ram_file drives' = Ret (0, Some v) \<and> uint v = 5"
  using vfs_seek_tell [OF ram_dispatched, of 3 5 9] by (simp add: ram_data ram_open_view clamp_def)

text \<open>
  Closing an open file of a FAT drive succeeds and leaves every other file of the drive as it was;
  from then on the handle is refused by every operation.
\<close>
theorem vfs_close_final:
  assumes "fat.dispatched f drives" and "fat_view (drive_data f drives) (vf_file f) \<noteq> None"
  shows "\<exists>drives'. vfs_close f drives = Ret (0, drives') \<and>
    (\<forall>fid. fid \<noteq> vf_file f \<longrightarrow> fat_view (drive_data f drives') fid = fat_view (drive_data f drives) fid) \<and>
    vfs_close f drives' = Ret (1, drives') \<and> vfs_seek f whence off drives' = Ret (1, drives') \<and>
    vfs_abs_tell f drives' = Ret (1, None) \<and> vfs_rd f dst n drives' w = Ret (1, dst, drives', w)"
proof -
  obtain drives' where c: "vfs_close f drives = Ret (0, drives')" "fat.dispatched f drives'"
    "fat_view (drive_data f drives') = (fat_view (drive_data f drives))(vf_file f := None)"
    using fat.vfs_close_run [OF assms] by blast
  then have "fat_view (drive_data f drives') (vf_file f) = None" by simp
  note r = fat.vfs_closed_refused [OF c(2) this]
  show ?thesis using c(1,3) r by (intro exI [of _ drives']) simp
qed

theorem vfs_close_final_witness:
  "\<exists>drives'. vfs_close ram_file ram_drives = Ret (0, drives') \<and> vfs_close ram_file drives' = Ret (1, drives')"
  using vfs_close_final [OF ram_dispatched, of VW_START 0 "[]" 0 "()"] by (auto simp: ram_data ram_open_view)

text \<open>
  C29: a mount takes a free slot of the table and no other slot changes, it refuses a device that is
  mounted already, and so no device is ever in the table twice; a failing mount changes nothing.
\<close>
theorem vfs_mount_once:
  assumes "mounts_ok drives" and "vfs_mount env r fs drives s = Ret (drive_id, drives', s')"
  shows "mounts_ok drives' \<and> (if drive_id = 0 then drives' = drives
    else (\<exists>i < NDRIVES. unat drive_id = i + 1 \<and> \<not> is_mounted (drives ! i) \<and> is_mounted (drives' ! i) \<and>
        dr_blkdev (drives' ! i) = Some r \<and> (\<forall>j. j \<noteq> i \<longrightarrow> drives' ! j = drives ! j)) \<and>
      vfs_get_mount_fs drives r = VF_NULL \<and> vfs_cnt_mounted drives' = vfs_cnt_mounted drives + 1)"
  using assms by (rule vfs_mount_ok)

text \<open>A boot sector with 65502 clusters, on a device whose every sector is this one.\<close>

definition boot_sector :: "u8 list" where
  "boot_sector = [0, 0, 0, 0, 0, 0, 0, 0, 0, 0, 0, 0, 2, 1, 1, 0, 2, 0x10, 0, 0, 0, 0xf8, 0x10, 0, 0, 0, 0, 0,
     0, 0, 0, 0, 0, 0, 1, 0] @ replicate 474 0 @ [0x55, 0xaa]"

definition boot_disks :: "(unit, unit, unit) disks" where
  "boot_disks = \<lparr>dk_slots = [(\<lparr>bd_driver_data = (), bd_rd = Some (\<lambda>d b n h. Ret (0, boot_sector, h)), bd_wr = None,
       bd_children = 0x1000, bd_part_base = 0, bd_flags = 0, bd_dev_type = BDT_DISK_DRIVE, bd_driver = BD_ATA_PIO,
       bd_blk_size = 512, bd_nblk = 65536, bd_mutex = 0, bd_parent_mutex = None\<rparr>, [])], dk_hw = (), dk_heap = ()\<rparr>"

definition boot_env :: "unit mount_env" where
  "boot_env = \<lparr>me_kalloc = demo_kalloc, me_junk = \<lambda>_. 0, me_stk = replicate 512 0, me_info = no_info\<rparr>"

definition no_drive :: "(unit, unit, unit) fat_drive" where
  "no_drive = \<lparr>dr_driver = \<lparr>vd_data = ram_fat, vd_is_open = None, vd_open = None, vd_close = None,
     vd_abs_tell = None, vd_seek = None, vd_rd = None\<rparr>, dr_blkdev = None, dr_fs = VF_NULL, dr_flags = 0\<rparr>"

lemma boot_rd: "blkdev_rd (Dev 0) (replicate 512 0) 0 1 boot_disks = Ret (0, boot_sector, boot_disks)"
proof -
  have "bd_ok boot_disks" by (simp add: bd_ok_def slot_ok_def boot_disks_def)
  moreover have "length boot_sector = 512" by (simp add: boot_sector_def)
  ultimately show ?thesis
    using blkdev_rd_dev [of boot_disks 0 "replicate 512 0" 0 1]
    by (simp add: boot_disks_def drv_read_def buf_write_def)
qed

lemma boot_fields:
  "rd16 boot_sector 510 = 0xaa55" "bp_sector_size (bpb_of boot_sector) = 512" "bp_fat_sectors (bpb_of boot_sector) = 16"
  "bpb_geometry (bpb_of boot_sector) = Ret (1, 65502, 65502)" "bpb_sector_cnt (bpb_of boot_sector) = 65536"
proof -
  have d: "drop 510 boot_sector = [0x55, 0xaa]" by (simp add: boot_sector_def)
  show "rd16 boot_sector 510 = 0xaa55" unfolding rd16_def d by simp
  have f: "rd16 boot_sector 11 = 512" "rd8 boot_sector 13 = 1" "rd16 boot_sector 14 = 1" "rd8 boot_sector 16 = 2"
    "rd16 boot_sector 17 = 16" "rd16 boot_sector 19 = 0" "rd16 boot_sector 22 = 16" "rd32 boot_sector 32 = 65536"
    by (simp_all add: rd8_def rd16_def rd32_def boot_sector_def)
  show "bp_sector_size (bpb_of boot_sector) = 512" "bp_fat_sectors (bpb_of boot_sector) = 16"
    "bpb_sector_cnt (bpb_of boot_sector) = 65536"
    by (simp_all add: bpb_of_def f bpb_sector_cnt_def)
  show "bpb_geometry (bpb_of boot_sector) = Ret (1, 65502, 65502)"
    by (simp add: bpb_geometry_def bpb_of_def f bpb_sector_cnt_def)
qed

lemma boot_verify: "fat_verify (replicate 512 0) (Dev 0) boot_disks = Ret (0, boot_disks)"
proof -
  have "bd_get (Dev 0) boot_disks = Ret (fst (hd (dk_slots boot_disks)))" "bd_blk_size (fst (hd (dk_slots boot_disks))) = 512"
    by (simp_all add: bd_get_def boot_disks_def)
  then show ?thesis by (simp add: fat_verify_def boot_rd boot_fields Let_def)
qed

lemma boot_mount:
  "\<exists>drives' s'. vfs_mount boot_env (Dev 0) VF_FAT_16 (replicate 255 no_drive) boot_disks = Ret (1, drives', s')"
proof -
  have slot: "vfs_find_slot (replicate 255 no_drive) 0 = Some 0"
    using replicate_Suc [of 254 no_drive] by (simp add: no_drive_def is_mounted_def)
  have n: "vfs_get_mount_fs (replicate 255 no_drive) (Dev 0) = VF_NULL"
    by (simp add: vfs_get_mount_fs_null no_drive_def is_mounted_def)
  have "\<exists>drv s1. fat_driver_create demo_kalloc (\<lambda>_. 0) (replicate 512 0) (Dev 0) boot_disks = Ret (Some drv, s1)"
    by (simp add: fat_driver_create_def boot_verify boot_rd boot_fields Let_def blk_cache_create_def demo_kalloc_def
        bd_get_def) (simp add: boot_disks_def)
  then show ?thesis
    by (auto simp: vfs_mount_def n slot boot_env_def fat_vfs_fs_driver_create_def demo_kalloc_def)
qed

theorem vfs_mount_once_witness:
  "\<exists>drives' s'. vfs_mount boot_env (Dev 0) VF_FAT_16 (replicate 255 no_drive) boot_disks = Ret (1, drives', s') \<and>
     mounts_ok drives' \<and> vfs_cnt_mounted drives' = vfs_cnt_mounted (replicate 255 no_drive) + 1"
proof -
  obtain drives' s' where m: "vfs_mount boot_env (Dev 0) VF_FAT_16 (replicate 255 no_drive) boot_disks = Ret (1, drives', s')"
    using boot_mount by blast
  have "mounts_ok (replicate 255 no_drive)" by (simp add: mounts_ok_def no_drive_def is_mounted_def)
  then show ?thesis using vfs_mount_once [OF _ m] m by simp
qed

text \<open>
  C40: the drive of an opened file is the decimal number before the colon added to whatever the
  uninitialised variable \<open>drive_id\<close> held: it is the named drive only when that was 0.
\<close>
theorem vfs_open_drive_number:
  assumes "vfs_open stk_id (ds @ 0x3a # rest) flags drives w = Ret (Some f, drives', w')" and "0x3a \<notin> set ds"
  shows "uint (vf_drive f) = stk_id + dec_digits ds \<and> 1 \<le> length ds \<and> length ds \<le> 3 \<and> (\<forall>c \<in> set ds. 0x30 \<le> c \<and> c \<le> 0x39)"
proof -
  have tw: "takeWhile (\<lambda>c. c \<noteq> 0x3a) (ds @ 0x3a # rest) = ds"
    using assms(2) by (subst takeWhile_append2) auto
  have len: "length ds \<noteq> 0" "length ds \<le> 3"
    using assms(1) by (auto simp: vfs_open_def tw Let_def split: if_splits)
  have dig: "\<forall>c \<in> set ds. 0x30 \<le> c \<and> c \<le> 0x39"
    using assms(1) len by (auto simp: vfs_open_def tw Let_def parse_drive_dec split: if_splits)
  let ?id = "stk_id + dec_digits ds"
  have range: "1 \<le> ?id" "?id \<le> 255" and f: "vf_drive f = of_int ?id"
    using assms(1) len dig
    by (auto simp: vfs_open_def tw Let_def parse_drive_dec seq_Ret_iff split: if_splits option.splits)
  have "uint (of_int ?id :: u8) = ?id" using range by (simp add: uint_word_of_int del: of_int_add)
  then show ?thesis using f dig len by (simp add: Suc_le_eq)
qed

theorem vfs_open_drive_number_witness:
  "\<exists>f drives'. vfs_open 0 [0x31, 0x3a, 0x61] VFF_READ (set_data 0 ram_fat ram_drives) () =
     Ret (Some f, drives', ()) \<and> uint (vf_drive f) = 1"
proof -
  obtain drv' where o: "fat_vfs_open (ram_crd ram_dir) no_info ram_fat [0x61] VFF_READ () = Ret (1, drv', ())"
    using ram_open by blast
  then obtain f drives' where r: "vfs_open 0 ([0x31] @ 0x3a # [0x61]) VFF_READ (set_data 0 ram_fat ram_drives) () =
      Ret (Some f, drives', ())"
    by (simp add: vfs_open_def set_data_def ram_drives_def ram_vfs_driver_def is_mounted_def)
  from vfs_open_drive_number [OF r] have "uint (vf_drive f) = 1" by (simp add: dec_digits_def)
  then show ?thesis using r by simp
qed

end
