(* ===== verification/Serial.thy ===== *)
theory Serial
  imports Ports
begin

section \<open>The serial port (serial_port.c)\<close>

text \<open>
  COM1: initialisation, and writing and reading one byte at a time with polling of the line status
  register.  The interface \<open>console\<close> is what the printing functions rely on; the serial port is one
  on every UART that keeps the contracts \<open>uart_polls\<close> and \<open>uart_sends\<close>.
\<close>

abbreviation PORT_COM1 :: u16 where "PORT_COM1 \<equiv> 0x3f8"

record 'b serial =
  se_bus :: 'b
  se_mutex :: k_mutex_t

subsection \<open>Operations\<close>

definition sp_init :: "'b bus \<Rightarrow> 'b serial \<Rightarrow> int \<times> 'b serial" where
  "sp_init bus s =
     (let b = port_wr bus (PORT_COM1 + 1) 0x0 PS_8 (se_bus s);
          b = port_wr bus (PORT_COM1 + 3) 0x80 PS_8 b;
          b = port_wr bus PORT_COM1 0x3 PS_8 b;
          b = port_wr bus (PORT_COM1 + 1) 0x0 PS_8 b;
          b = port_wr bus (PORT_COM1 + 3) 0x3 PS_8 b;
          b = port_wr bus (PORT_COM1 + 2) 0xc7 PS_8 b;
          b = port_wr bus (PORT_COM1 + 4) 0xb PS_8 b;
          b = port_wr bus (PORT_COM1 + 4) 0x1e PS_8 b;
          b = port_wr bus PORT_COM1 0xae PS_8 b;
          (v, b) = port_rd bus PORT_COM1 PS_8 b
      in if v \<noteq> 0xae then (1, s\<lparr>se_bus := b\<rparr>)
         else (0, s\<lparr>se_bus := port_wr bus (PORT_COM1 + 4) 0xf PS_8 b\<rparr>))"

text \<open>\<open>while (!(port_rd(PORT_COM1 + 5, PS_8) & bit))\<close>.\<close>

definition sp_wait :: "'b bus \<Rightarrow> u64 \<Rightarrow> 'b \<Rightarrow> 'b exec" where
  "sp_wait bus ready =
     forever (\<lambda>b. case port_rd bus (PORT_COM1 + 5) PS_8 b of (v, b') \<Rightarrow>
       Ret (if v AND ready \<noteq> 0 then Inr b' else Inl b'))"

definition sp_lock :: "'b serial \<Rightarrow> 'b serial exec" where
  "sp_lock s = seq (k_mutex_lock (se_mutex s)) (\<lambda>m. Ret (s\<lparr>se_mutex := m\<rparr>))"

definition sp_unlock :: "'b serial \<Rightarrow> 'b serial exec" where
  "sp_unlock s = seq (k_mutex_unlock (se_mutex s)) (\<lambda>m. Ret (s\<lparr>se_mutex := m\<rparr>))"

definition sp_read_ch :: "'b bus \<Rightarrow> 'b serial \<Rightarrow> (u8 \<times> 'b serial) exec" where
  "sp_read_ch bus s =
     seq (sp_lock s) (\<lambda>s.
     seq (sp_wait bus 0x1 (se_bus s)) (\<lambda>b.
     let (v, b) = port_rd bus PORT_COM1 PS_8 b; ch = ucast v in
     seq (sp_unlock (s\<lparr>se_bus := b\<rparr>)) (\<lambda>s.
     Ret (ch, s))))"

text \<open>The argument of \<open>port_wr\<close> is a signed \<open>char\<close>, extended to 64 bits.\<close>

definition sp_out :: "'b bus \<Rightarrow> u8 \<Rightarrow> 'b \<Rightarrow> 'b exec" where
  "sp_out bus ch b = seq (sp_wait bus 0x20 b) (\<lambda>b. Ret (port_wr bus PORT_COM1 (scast ch) PS_8 b))"

definition sp_write_ch :: "'b bus \<Rightarrow> u8 \<Rightarrow> 'b serial \<Rightarrow> 'b serial exec" where
  "sp_write_ch bus ch s =
     seq (sp_lock s) (\<lambda>s.
     seq (sp_out bus ch (se_bus s)) (\<lambda>b.
     sp_unlock (s\<lparr>se_bus := b\<rparr>)))"

definition sp_write_str :: "'b bus \<Rightarrow> u8 list \<Rightarrow> 'b serial \<Rightarrow> 'b serial exec" where
  "sp_write_str bus str s =
     seq (sp_lock s) (\<lambda>s.
     seq (for_each str (sp_out bus) (se_bus s)) (\<lambda>b.
     sp_unlock (s\<lparr>se_bus := b\<rparr>)))"

subsection \<open>The interface of a console\<close>

text \<open>
  What the printing functions call, and what they rely on: in a ready state every call returns, in a
  ready state again, and appends its bytes to what was sent.
\<close>

record 's con =
  put_ch :: "u8 \<Rightarrow> 's \<Rightarrow> 's exec"
  put_str :: "u8 list \<Rightarrow> 's \<Rightarrow> 's exec"

definition sends :: "('s \<Rightarrow> bool) \<Rightarrow> ('s \<Rightarrow> u8 list) \<Rightarrow> 's exec \<Rightarrow> u8 list \<Rightarrow> 's \<Rightarrow> bool" where
  "sends ready sent e cs s \<longleftrightarrow> (\<exists>t. e = Ret t \<and> ready t \<and> sent t = sent s @ cs)"

locale console =
  fixes con :: "'s con" and ready :: "'s \<Rightarrow> bool" and sent :: "'s \<Rightarrow> u8 list"
  assumes put_ch_sends: "ready s \<Longrightarrow> sends ready sent (put_ch con c s) [c] s"
    and put_str_sends: "ready s \<Longrightarrow> sends ready sent (put_str con cs s) cs s"
begin

lemma sends_Ret: "ready s \<Longrightarrow> sends ready sent (Ret s) [] s"
  by (simp add: sends_def)

lemma sends_seq:
  assumes "sends ready sent e cs s" and "\<And>t. ready t \<Longrightarrow> sends ready sent (f t) ds t"
  shows "sends ready sent (seq e f) (cs @ ds) s"
proof -
  obtain t where t: "e = Ret t" "ready t" "sent t = sent s @ cs" using assms(1) by (auto simp: sends_def)
  then show ?thesis using assms(2) [OF t(2)] by (auto simp: sends_def)
qed

end

subsection \<open>The serial port as a console\<close>

text \<open>
  The contract of a 16550 UART that is set up (\<open>ua_up\<close>: the divisor latch is closed): reading the
  line status register sends nothing, bit 5 tells whether the transmitter is free, which it is
  after a bounded number of polls (\<open>ua_busy\<close>); a byte stored in the data register of a free transmitter is sent.
\<close>

record 'b uart =
  ua_up :: "'b \<Rightarrow> bool"
  ua_busy :: "'b \<Rightarrow> nat"
  ua_sent :: "'b \<Rightarrow> u8 list"

definition uart_polls :: "'b bus \<Rightarrow> 'b uart \<Rightarrow> bool" where
  "uart_polls bus u \<longleftrightarrow> (\<forall>b v b'. ua_up u b \<longrightarrow> in_8 bus 0x3fd b = (v, b') \<longrightarrow>
     ua_up u b' \<and> ua_sent u b' = ua_sent u b \<and> (v AND 0x20 \<noteq> 0 \<longleftrightarrow> ua_busy u b = 0) \<and>
     (ua_busy u b = 0 \<longrightarrow> ua_busy u b' = 0) \<and> (ua_busy u b > 0 \<longrightarrow> ua_busy u b' < ua_busy u b))"

definition uart_sends :: "'b bus \<Rightarrow> 'b uart \<Rightarrow> bool" where
  "uart_sends bus u \<longleftrightarrow> (\<forall>b c. ua_up u b \<longrightarrow> ua_busy u b = 0 \<longrightarrow>
     ua_up u (out_8 bus 0x3f8 c b) \<and> ua_sent u (out_8 bus 0x3f8 c b) = ua_sent u b @ [c])"

definition serial_up :: "'b bus \<Rightarrow> 'b uart \<Rightarrow> 'b serial \<Rightarrow> bool" where
  "serial_up bus u s \<longleftrightarrow> uart_polls bus u \<and> uart_sends bus u \<and> ua_up u (se_bus s) \<and> se_mutex s = 0"

definition serial_sent :: "'b uart \<Rightarrow> 'b serial \<Rightarrow> u8 list" where
  "serial_sent u s = ua_sent u (se_bus s)"

lemma ucast_and_u8: "(ucast (v :: u8) :: u64) AND 0x20 \<noteq> 0 \<longleftrightarrow> v AND 0x20 \<noteq> 0"
proof -
  have "(ucast v :: u64) AND 0x20 = ucast (v AND 0x20)" by (simp add: unsigned_and_eq)
  moreover have "ucast (w :: u8) = (0 :: u64) \<longleftrightarrow> w = 0" for w
    using ucast_ucast_u8 [of w] by (metis ucast_0)
  ultimately show ?thesis by simp
qed

lemma sp_wait_unfold:
  "sp_wait bus r b = (case port_rd bus (PORT_COM1 + 5) PS_8 b of (v, b') \<Rightarrow>
     if v AND r \<noteq> 0 then Ret b' else sp_wait bus r b')"
  unfolding sp_wait_def by (subst forever_unfold) (simp split: prod.splits)

lemma sp_wait_ends:
  assumes "uart_polls bus u" and "ua_up u b"
  shows "\<exists>b'. sp_wait bus 0x20 b = Ret b' \<and> ua_up u b' \<and> ua_busy u b' = 0 \<and> ua_sent u b' = ua_sent u b"
  using assms(2)
proof (induction "ua_busy u b" arbitrary: b rule: less_induct)
  case less
  obtain v b' where i: "in_8 bus 0x3fd b = (v, b')" by fastforce
  note c = assms(1) [unfolded uart_polls_def, rule_format, OF less.prems i]
  have u: "sp_wait bus 0x20 b = (if v AND 0x20 \<noteq> 0 then Ret b' else sp_wait bus 0x20 b')"
    by (simp add: sp_wait_unfold [of bus _ b] port_rd_def i ucast_and_u8)
  show ?case
  proof (cases "ua_busy u b = 0")
    case True
    with c u show ?thesis by auto
  next
    case False
    with c have "ua_busy u b' < ua_busy u b" and "ua_up u b'" by auto
    from less.hyps [OF this] show ?thesis using False c u by auto
  qed
qed

lemma ucast_scast_u8: "ucast (scast (c :: u8) :: u64) = c"
  by (rule bit_word_eqI) (auto simp: bit_simps)

lemma sp_out_sends:
  assumes "uart_polls bus u" and "uart_sends bus u" and "ua_up u b"
  shows "sends (ua_up u) (ua_sent u) (sp_out bus c b) [c] b"
proof -
  obtain b' where b': "sp_wait bus 0x20 b = Ret b'" "ua_up u b'" "ua_busy u b' = 0" "ua_sent u b' = ua_sent u b"
    using sp_wait_ends [OF assms(1,3)] by blast
  then show ?thesis using assms(2) [unfolded uart_sends_def, rule_format, OF b'(2,3), of c]
    by (simp add: sends_def sp_out_def port_wr_8 ucast_scast_u8)
qed

lemma sp_outs_send:
  assumes "uart_polls bus u" and "uart_sends bus u"
  shows "ua_up u b \<Longrightarrow> sends (ua_up u) (ua_sent u) (for_each cs (sp_out bus) b) cs b"
proof (induction cs arbitrary: b)
  case Nil
  then show ?case by (simp add: sends_def)
next
  case (Cons c cs)
  obtain t where t: "sp_out bus c b = Ret t" "ua_up u t" "ua_sent u t = ua_sent u b @ [c]"
    using sp_out_sends [OF assms Cons.prems, of c] by (auto simp: sends_def)
  from Cons.IH [OF t(2)] show ?case by (auto simp: sends_def t)
qed

definition serial_con :: "'b bus \<Rightarrow> 'b serial con" where
  "serial_con bus = \<lparr>put_ch = sp_write_ch bus, put_str = sp_write_str bus\<rparr>"

lemma sp_write_ch_sends:
  assumes "serial_up bus u s"
  shows "sends (serial_up bus u) (serial_sent u) (sp_write_ch bus c s) [c] s"
  using assms sp_out_sends [of bus u "se_bus s" c]
  by (auto simp: sends_def serial_up_def serial_sent_def sp_write_ch_def sp_lock_def sp_unlock_def)

lemma sp_write_str_sends:
  assumes "serial_up bus u s"
  shows "sends (serial_up bus u) (serial_sent u) (sp_write_str bus cs s) cs s"
  using assms sp_outs_send [of bus u "se_bus s" cs]
  by (auto simp: sends_def serial_up_def serial_sent_def sp_write_str_def sp_lock_def sp_unlock_def)

interpretation serial: console "serial_con bus" "serial_up bus u" "serial_sent u" for bus u
  by unfold_locales (simp_all add: serial_con_def sp_write_ch_sends sp_write_str_sends)

subsection \<open>A UART in memory\<close>

text \<open>
  A UART that keeps the contract: every byte keeps the transmitter busy for three polls; with the
  divisor latch open the data register is the divisor; in loopback mode a byte sent is received.
\<close>

record ram_uart =
  ru_lcr :: u8
  ru_mcr :: u8
  ru_busy :: nat
  ru_rbr :: u8
  ru_sent :: "u8 list"

definition ram_uart_bus :: "ram_uart bus" where
  "ram_uart_bus =
     \<lparr>in_8 = (\<lambda>p b.
        if p = 0x3f8 then (ru_rbr b, b)
        else if p = 0x3fd then (if ru_busy b = 0 then 0x20 else 0, b\<lparr>ru_busy := ru_busy b - 1\<rparr>)
        else (0, b)),
      in_16 = (\<lambda>p b. (0, b)), in_32 = (\<lambda>p b. (0, b)),
      out_8 = (\<lambda>p v b.
        if p = 0x3fb then b\<lparr>ru_lcr := v\<rparr>
        else if p = 0x3fc then b\<lparr>ru_mcr := v\<rparr>
        else if p = 0x3f8 \<and> ru_lcr b AND 0x80 = 0 then
          (if ru_mcr b AND 0x10 \<noteq> 0 then b\<lparr>ru_rbr := v\<rparr>
           else b\<lparr>ru_sent := ru_sent b @ [v], ru_busy := 3\<rparr>)
        else b),
      out_16 = (\<lambda>p v b. b), out_32 = (\<lambda>p v b. b)\<rparr>"

definition ram_uart_spec :: "ram_uart uart" where
  "ram_uart_spec = \<lparr>ua_up = (\<lambda>b. ru_lcr b AND 0x80 = 0 \<and> ru_mcr b AND 0x10 = 0), ua_busy = ru_busy, ua_sent = ru_sent\<rparr>"

definition ram_serial :: "ram_uart serial" where
  "ram_serial = \<lparr>se_bus = \<lparr>ru_lcr = 0, ru_mcr = 0, ru_busy = 2, ru_rbr = 0, ru_sent = []\<rparr>, se_mutex = 0\<rparr>"

lemma ram_uart_polls: "uart_polls ram_uart_bus ram_uart_spec"
  by (auto simp: uart_polls_def ram_uart_bus_def ram_uart_spec_def)

lemma ram_uart_sends: "uart_sends ram_uart_bus ram_uart_spec"
  by (auto simp: uart_sends_def ram_uart_bus_def ram_uart_spec_def)

lemma ram_serial_init:
  "sp_init ram_uart_bus ram_serial = (0, ram_serial\<lparr>se_bus := (se_bus ram_serial)\<lparr>ru_lcr := 3, ru_mcr := 0xf, ru_rbr := 0xae\<rparr>\<rparr>)"
  by (simp add: sp_init_def port_wr_8 port_rd_def ram_uart_bus_def ram_serial_def)

text \<open>After its initialisation the port is a console.\<close>

lemma ram_serial_up: "serial_up ram_uart_bus ram_uart_spec (snd (sp_init ram_uart_bus ram_serial))"
  using ram_uart_polls ram_uart_sends
  by (simp add: ram_serial_init serial_up_def) (simp add: ram_uart_spec_def ram_serial_def)

end
