(* ===== verification/Kutil.thy ===== *)
theory Kutil
  imports Serial
begin

section \<open>Kernel utilities (kutil.c): printing and memory\<close>

text \<open>
  \<open>ku_print_v\<close> with its conversions, over a console; and \<open>ku_memset\<close> and \<open>ku_memcpy\<close>, which work on
  quadwords first.  The conversions are shown to print the numerals of arithmetic, the memory
  functions to be the bytewise ones.  A string is the list of the bytes before its terminator, so it has
  no zero byte.  The delay loop of kutil.c is in the theory on the ports.
\<close>

datatype log_type = LT_NONE | LT_INFO | LT_WARN | LT_ERR | LT_DEBUG

abbreviation FM_QWORD :: u32 where "FM_QWORD \<equiv> 0x1"
abbreviation FM_DWORD :: u32 where "FM_DWORD \<equiv> 0x2"
abbreviation FM_WORD :: u32 where "FM_WORD \<equiv> 0x4"
abbreviation FM_BYTE :: u32 where "FM_BYTE \<equiv> 0x8"

subsection \<open>Conversions\<close>

text \<open>\<open>while (nch < lim && n >> sh * nch) ++nch\<close>.\<close>

function nch_from :: "nat \<Rightarrow> nat \<Rightarrow> u64 \<Rightarrow> nat \<Rightarrow> nat" where
  "nch_from lim sh n nch = (if nch < lim \<and> drop_bit (sh * nch) n \<noteq> 0 then nch_from lim sh n (nch + 1) else nch)"
  by pat_completeness auto
termination by (relation "measure (\<lambda>(lim, sh, n, nch). lim - nch)") auto

declare nch_from.simps [simp del]

text \<open>\<open>text[nch - i - 1] = digit(i)\<close> for every \<open>i < nch\<close>, in an array of \<open>sz\<close> zeros.\<close>

definition put_digits :: "nat \<Rightarrow> nat \<Rightarrow> (nat \<Rightarrow> u8) \<Rightarrow> u8 list" where
  "put_digits sz nch digit = fold (\<lambda>i text. text[nch - i - 1 := digit i]) [0..<nch] (replicate sz 0)"

text \<open>The string in an array of characters.\<close>

definition cstr :: "u8 list \<Rightarrow> u8 list" where
  "cstr text = takeWhile (\<lambda>c. c \<noteq> 0) text"

definition hex_lut :: "u8 list" where
  "hex_lut = [0x30, 0x31, 0x32, 0x33, 0x34, 0x35, 0x36, 0x37, 0x38, 0x39, 0x61, 0x62, 0x63, 0x64, 0x65, 0x66]"

definition print_fmt_x :: "'s con \<Rightarrow> u64 \<Rightarrow> u32 \<Rightarrow> 's \<Rightarrow> 's exec" where
  "print_fmt_x con n md s =
     (let print = (\<lambda>nch. put_str con (cstr (put_digits 17 nch
            (\<lambda>i. hex_lut ! unat (drop_bit (4 * i) n AND 0xf)))) s) in
      if md AND FM_QWORD \<noteq> 0 then print 16
      else if md AND FM_DWORD \<noteq> 0 then print 8
      else if md AND FM_WORD \<noteq> 0 then print 4
      else if md AND FM_BYTE \<noteq> 0 then print 2
      else if n = 0 then put_ch con 0x30 s
      else print (nch_from 16 4 n 0))"

definition print_fmt_b :: "'s con \<Rightarrow> u64 \<Rightarrow> u32 \<Rightarrow> 's \<Rightarrow> 's exec" where
  "print_fmt_b con n md s =
     (let print = (\<lambda>nch. put_str con (cstr (put_digits 65 nch
            (\<lambda>i. if drop_bit i n AND 0x1 \<noteq> 0 then 0x31 else 0x30))) s) in
      if md AND FM_QWORD \<noteq> 0 then print 64
      else if md AND FM_DWORD \<noteq> 0 then print 32
      else if md AND FM_WORD \<noteq> 0 then print 16
      else if md AND FM_BYTE \<noteq> 0 then print 8
      else if n = 0 then put_ch con 0x30 s
      else print (nch_from 64 1 n 0))"

text \<open>\<open>while (n > 0)\<close>; a store in front of the array would be a fault.\<close>

function fmt_u_loop :: "u64 \<Rightarrow> nat \<Rightarrow> u8 list \<Rightarrow> (nat \<times> u8 list) exec" where
  "fmt_u_loop n nch text =
     (if n > 0 then
        if nch + 1 > 20 then Fault
        else fmt_u_loop (n div 10) (nch + 1) (text[20 - (nch + 1) := ucast (0x30 + n mod 10)])
      else Ret (nch, text))"
  by pat_completeness auto
termination by (relation "measure (\<lambda>(n, nch, text). unat n)") (auto simp: unat_div word_gt_0 unat_gt_0)

declare fmt_u_loop.simps [simp del]

definition print_fmt_u :: "'s con \<Rightarrow> u64 \<Rightarrow> u32 \<Rightarrow> 's \<Rightarrow> 's exec" where
  "print_fmt_u con n md s =
     (if n = 0 then put_ch con 0x30 s
      else seq (fmt_u_loop n 0 (replicate 21 0)) (\<lambda>(nch, text).
        put_str con (cstr (drop (20 - nch) text)) s))"

definition print_fmt_s :: "'s con \<Rightarrow> u8 list \<Rightarrow> u32 \<Rightarrow> 's \<Rightarrow> 's exec" where
  "print_fmt_s con str md s = put_str con str s"

definition print_fmt_c :: "'s con \<Rightarrow> u32 \<Rightarrow> u32 \<Rightarrow> 's \<Rightarrow> 's exec" where
  "print_fmt_c con ch md s = put_ch con (ucast (ch AND 0xff)) s"

subsection \<open>Printing a message\<close>

text \<open>
  The arguments behind the message: an integer in a register, or a string.  Reading one that is not
  there, or of the wrong kind, is undefined.
\<close>

datatype va = VInt u64 | VStr "u8 list"

fun print_arg :: "'s con \<Rightarrow> u8 \<Rightarrow> u32 \<Rightarrow> va list \<Rightarrow> 's \<Rightarrow> (va list \<times> 's) exec" where
  "print_arg con f md args s =
     (if f = 0x78 then
        (case args of VInt n # args \<Rightarrow> seq (print_fmt_x con n md s) (\<lambda>s. Ret (args, s)) | _ \<Rightarrow> Fault)
      else if f = 0x62 then
        (case args of VInt n # args \<Rightarrow> seq (print_fmt_b con n md s) (\<lambda>s. Ret (args, s)) | _ \<Rightarrow> Fault)
      else if f = 0x75 then
        (case args of VInt n # args \<Rightarrow> seq (print_fmt_u con n md s) (\<lambda>s. Ret (args, s)) | _ \<Rightarrow> Fault)
      else if f = 0x73 then
        (case args of VStr str # args \<Rightarrow> seq (print_fmt_s con str md s) (\<lambda>s. Ret (args, s)) | _ \<Rightarrow> Fault)
      else if f = 0x63 then
        (case args of VInt n # args \<Rightarrow> seq (print_fmt_c con (ucast n) md s) (\<lambda>s. Ret (args, s)) | _ \<Rightarrow> Fault)
      else Ret (args, s))"

definition fmt_mod :: "u8 \<Rightarrow> u32" where
  "fmt_mod c =
     (if c = 0x51 then FM_QWORD else if c = 0x44 then FM_DWORD
      else if c = 0x57 then FM_WORD else if c = 0x42 then FM_BYTE else 0)"

text \<open>
  The loop over the message.  A single \<open>%\<close> at its end, or \<open>%\<close> and a size modifier at its end, make the
  pointer step over the terminator, and the next test reads behind the string.
\<close>

fun print_loop :: "'s con \<Rightarrow> u8 list \<Rightarrow> va list \<Rightarrow> 's \<Rightarrow> 's exec" where
  "print_loop con [] args s = Ret s"
| "print_loop con [c] args s =
     (if c \<noteq> 0x25 then put_ch con c s
      else seq (put_ch con c s) (\<lambda>s. Fault))"
| "print_loop con (c # d # cs) args s =
     (if c \<noteq> 0x25 then seq (put_ch con c s) (print_loop con (d # cs) args)
      else if d = 0x25 then seq (put_ch con c s) (print_loop con cs args)
      else if fmt_mod d \<noteq> 0 then
        (case cs of
           [] \<Rightarrow> Fault
         | f # cs \<Rightarrow> seq (print_arg con f (fmt_mod d) args s) (\<lambda>(args, s). print_loop con cs args s))
      else seq (print_arg con d 0 args s) (\<lambda>(args, s). print_loop con cs args s))"

fun log_prefix :: "log_type \<Rightarrow> u8 list option" where
  "log_prefix LT_NONE = None"
| "log_prefix LT_INFO = Some [0x5b, 0x69, 0x6e, 0x66, 0x6f, 0x5d, 0x20]"
| "log_prefix LT_WARN = Some [0x5b, 0x77, 0x61, 0x72, 0x6e, 0x5d, 0x20]"
| "log_prefix LT_ERR = Some [0x5b, 0x65, 0x72, 0x72, 0x5d, 0x20]"
| "log_prefix LT_DEBUG = Some [0x5b, 0x64, 0x65, 0x62, 0x75, 0x67, 0x5d, 0x20]"

record 's printer =
  pr_mutex :: k_mutex_t
  pr_con :: 's

definition ku_print_v :: "'s con \<Rightarrow> log_type \<Rightarrow> u8 list \<Rightarrow> va list \<Rightarrow> 's printer \<Rightarrow> 's printer exec" where
  "ku_print_v con type msg args p =
     seq (k_mutex_lock (pr_mutex p)) (\<lambda>m.
     seq (case log_prefix type of None \<Rightarrow> Ret (pr_con p) | Some str \<Rightarrow> put_str con str (pr_con p)) (\<lambda>s.
     seq (print_loop con msg args s) (\<lambda>s.
     seq (k_mutex_unlock m) (\<lambda>m.
     Ret \<lparr>pr_mutex = m, pr_con = s\<rparr>))))"

definition ku_print :: "'s con \<Rightarrow> log_type \<Rightarrow> u8 list \<Rightarrow> va list \<Rightarrow> 's printer \<Rightarrow> 's printer exec" where
  "ku_print con type msg args p = ku_print_v con type msg args p"

definition ku_println :: "'s con \<Rightarrow> log_type \<Rightarrow> u8 list \<Rightarrow> va list \<Rightarrow> 's printer \<Rightarrow> 's printer exec" where
  "ku_println con type msg args p =
     seq (ku_print_v con type msg args p) (\<lambda>p.
     seq (put_ch con 0x0a (pr_con p)) (\<lambda>s. Ret (p\<lparr>pr_con := s\<rparr>)))"

text \<open>autil.c: the messages of the architecture's own code.\<close>

definition au_println :: "'s con \<Rightarrow> log_type \<Rightarrow> u8 list \<Rightarrow> va list \<Rightarrow> 's printer \<Rightarrow> 's printer exec" where
  "au_println con type msg args p =
     seq (ku_print con type [0x78, 0x38, 0x36, 0x5f, 0x36, 0x34, 0x3a, 0x20] [] p) (\<lambda>p.
     seq (ku_print_v con LT_NONE msg args p) (\<lambda>p.
     seq (put_ch con 0x0a (pr_con p)) (\<lambda>s. Ret (p\<lparr>pr_con := s\<rparr>))))"


subsection \<open>Numerals\<close>

text \<open>The numeral of a number in a base, without leading zeros and with a fixed number of digits.\<close>

definition digit_ch :: "nat \<Rightarrow> u8" where
  "digit_ch d = of_nat (if d < 10 then 0x30 + d else 0x57 + d)"

function numeral_of :: "nat \<Rightarrow> nat \<Rightarrow> u8 list" where
  "numeral_of b n = (if b \<le> 1 \<or> n < b then [digit_ch n] else numeral_of b (n div b) @ [digit_ch (n mod b)])"
  by pat_completeness auto
termination by (relation "measure snd") auto

declare numeral_of.simps [simp del]

fun digits_of :: "nat \<Rightarrow> nat \<Rightarrow> nat \<Rightarrow> u8 list" where
  "digits_of b 0 n = []"
| "digits_of b (Suc w) n = digits_of b w (n div b) @ [digit_ch (n mod b)]"

definition digit_val :: "u8 \<Rightarrow> nat" where
  "digit_val c = (if unat c < 0x57 then unat c - 0x30 else unat c - 0x57)"

definition value_of :: "nat \<Rightarrow> u8 list \<Rightarrow> nat" where
  "value_of b cs = foldl (\<lambda>v c. v * b + digit_val c) 0 cs"

lemma unat_digit_ch: "d < 16 \<Longrightarrow> unat (digit_ch d) = (if d < 10 then 0x30 + d else 0x57 + d)"
  by (simp add: digit_ch_def unat_of_nat)

lemma digit_ch_nonzero: "d < 16 \<Longrightarrow> digit_ch d \<noteq> 0"
  using unat_digit_ch [of d] by (metis add_gr_0 not_gr_zero unat_0 zero_less_numeral)

lemma digit_val_ch: "d < 16 \<Longrightarrow> digit_val (digit_ch d) = d"
  by (simp add: digit_val_def unat_digit_ch)

lemma value_of_snoc [simp]: "value_of b (cs @ [c]) = value_of b cs * b + digit_val c"
  by (simp add: value_of_def)

lemma value_of_Nil [simp]: "value_of b [] = 0"
  by (simp add: value_of_def)

lemma value_of_numeral: "1 < b \<Longrightarrow> b \<le> 16 \<Longrightarrow> value_of b (numeral_of b n) = n"
proof (induction b n rule: numeral_of.induct)
  case (1 b n)
  show ?case
  proof (cases "n < b")
    case True
    then show ?thesis using 1 value_of_snoc [of b "[]" "digit_ch n"]
      by (simp add: numeral_of.simps [of b n] digit_val_ch)
  next
    case False
    have "n mod b < 16" using 1 mod_less_divisor [of b n] by linarith
    with False 1 show ?thesis by (simp add: numeral_of.simps [of b n] digit_val_ch)
  qed
qed

lemma value_of_digits: "1 < b \<Longrightarrow> b \<le> 16 \<Longrightarrow> value_of b (digits_of b w n) = n mod b ^ w"
proof (induction w arbitrary: n)
  case 0
  then show ?case by simp
next
  case (Suc w)
  have "n mod b < 16" using Suc mod_less_divisor [of b n] by linarith
  moreover have "n mod b ^ Suc w = n div b mod b ^ w * b + n mod b"
    by (simp add: mod_mult2_eq [of n b "b ^ w"])
  ultimately show ?case using Suc by (simp add: digit_val_ch)
qed

lemma digits_numeral:
  "1 < b \<Longrightarrow> n < b ^ Suc w \<Longrightarrow> w = 0 \<or> b ^ w \<le> n \<Longrightarrow> digits_of b (Suc w) n = numeral_of b n"
proof (induction w arbitrary: n)
  case 0
  then show ?case by (simp add: numeral_of.simps [of b n])
next
  case (Suc w)
  have "b * b ^ w \<le> n" using Suc.prems by simp
  moreover have "b * 1 \<le> b * b ^ w" using Suc.prems by (intro mult_left_mono) auto
  ultimately have nb: "\<not> n < b" by linarith
  have "n div b < b ^ Suc w" using Suc.prems by (simp add: less_mult_imp_div_less mult.commute)
  moreover have "b ^ w \<le> n div b" using \<open>b * b ^ w \<le> n\<close> Suc.prems(1)
    by (simp add: less_eq_div_iff_mult_less_eq mult.commute)
  ultimately have "digits_of b (Suc w) (n div b) = numeral_of b (n div b)" using Suc by blast
  then show ?case using nb Suc.prems(1) by (simp add: numeral_of.simps [of b n])
qed

lemma digits_rev: "digits_of b w n = rev (map (\<lambda>i. digit_ch (n div b ^ i mod b)) [0..<w])"
proof (induction w arbitrary: n)
  case 0
  then show ?case by simp
next
  case (Suc w)
  have "[0..<Suc w] = 0 # map Suc [0..<w]" by (simp add: map_Suc_upt upt_conv_Cons del: upt_Suc)
  then show ?case using Suc by (simp add: div_mult2_eq o_def del: upt_Suc)
qed

subsection \<open>The conversions print numerals\<close>

lemma fold_upd_nth:
  "k \<le> m \<Longrightarrow> m \<le> length t \<Longrightarrow>
   length (fold (\<lambda>i t. t[m - i - 1 := d i]) [0..<k] t) = length t \<and>
   (\<forall>j < length t. fold (\<lambda>i t. t[m - i - 1 := d i]) [0..<k] t ! j = (if m - k \<le> j \<and> j < m then d (m - 1 - j) else t ! j))"
proof (induction k)
  case 0
  then show ?case by auto
next
  case (Suc k)
  have "m - Suc k \<le> j \<and> j < m \<longleftrightarrow> j = m - k - 1 \<or> m - k \<le> j \<and> j < m" for j using Suc.prems by auto
  then show ?case using Suc by (auto simp: nth_list_update)
qed

lemma put_digits_eq:
  assumes "m \<le> sz"
  shows "put_digits sz m d = rev (map d [0..<m]) @ replicate (sz - m) 0"
  using fold_upd_nth [of m m "replicate sz 0" d] assms
  by (intro nth_equalityI) (auto simp: put_digits_def nth_append rev_nth)

lemma cstr_digits: "\<forall>c \<in> set cs. c \<noteq> 0 \<Longrightarrow> cstr (cs @ replicate k 0) = cs"
  by (induction cs) (auto simp: cstr_def)

lemma cstr_put_digits:
  assumes "m \<le> sz" and "1 < b" and "b \<le> 16" and "\<And>i. d i = digit_ch (n div b ^ i mod b)"
  shows "cstr (put_digits sz m d) = digits_of b m n"
proof -
  have "n div b ^ i mod b < 16" for i using assms(2,3) mod_less_divisor [of b "n div b ^ i"] by linarith
  then have "d i \<noteq> 0" for i using assms(4) digit_ch_nonzero by simp
  moreover have "d = (\<lambda>i. digit_ch (n div b ^ i mod b))" using assms(4) by blast
  ultimately show ?thesis using assms(1) by (simp add: put_digits_eq cstr_digits digits_rev)
qed

lemma unat_drop_bit_div: "unat (drop_bit k (n :: u64)) = unat n div 2 ^ k"
  by (simp only: unat_drop_bit_eq) (simp only: drop_bit_eq_div)

lemma hex_digit: "hex_lut ! unat (drop_bit (4 * i) (n :: u64) AND 0xf) = digit_ch (unat n div 16 ^ i mod 16)"
proof -
  have "unat (x AND 0xf) = unat x mod 16" for x :: u64
  proof -
    have "x AND 0xf = take_bit 4 x" by (simp add: take_bit_eq_mask mask_eq_exp_minus_1)
    moreover have "unat (take_bit 4 x) = take_bit 4 (unat x)" by (rule unsigned_take_bit_eq)
    ultimately show ?thesis by (simp add: take_bit_eq_mod)
  qed
  then have "unat (drop_bit (4 * i) n AND 0xf) = unat (drop_bit (4 * i) n) mod 16" by blast
  then have u: "unat (drop_bit (4 * i) n AND 0xf) = unat n div 16 ^ i mod 16"
    by (simp only: unat_drop_bit_div power_mult) simp
  have "hex_lut ! d = digit_ch d" if "d < 16" for d
  proof -
    have "\<forall>d \<in> {..<16}. hex_lut ! d = digit_ch d" by (code_simp)
    with that show ?thesis by blast
  qed
  then show ?thesis by (simp add: u)
qed

lemma bin_digit:
  "(if drop_bit i (n :: u64) AND 0x1 \<noteq> 0 then 0x31 else 0x30) = digit_ch (unat n div 2 ^ i mod 2)"
proof -
  have "unat (drop_bit i n AND 1) = unat n div 2 ^ i mod 2"
    by (simp only: and_one_eq unat_mod unat_drop_bit_div) simp
  moreover have "drop_bit i n AND 1 = 0 \<longleftrightarrow> unat (drop_bit i n AND 1) = 0" by (simp only: unat_eq_0)
  moreover have "unat n div 2 ^ i mod 2 = 0 \<or> unat n div 2 ^ i mod 2 = 1" by auto
  ultimately show ?thesis by (auto simp: digit_ch_def)
qed

lemma nch_from_spec:
  "nch \<le> lim \<Longrightarrow> (\<forall>j < nch. drop_bit (sh * j) n \<noteq> 0) \<Longrightarrow> nch_from lim sh n nch = w \<Longrightarrow>
   w \<le> lim \<and> (\<forall>j < w. drop_bit (sh * j) n \<noteq> 0) \<and> (w = lim \<or> drop_bit (sh * w) n = 0)"
proof (induction lim sh n nch rule: nch_from.induct)
  case (1 lim sh n nch)
  show ?case
  proof (cases "nch < lim \<and> drop_bit (sh * nch) n \<noteq> 0")
    case True
    then have "\<forall>j < nch + 1. drop_bit (sh * j) n \<noteq> 0" using 1(3) by (auto simp: less_Suc_eq)
    with True 1 show ?thesis by (simp add: nch_from.simps [of lim sh n nch])
  next
    case False
    with 1 show ?thesis by (auto simp: nch_from.simps [of lim sh n nch])
  qed
qed

lemma nch_numeral:
  assumes "n \<noteq> 0" and "0 < sh" and "sh * lim = 64"
  shows "nch_from lim sh n 0 \<le> lim" "digits_of (2 ^ sh) (nch_from lim sh n 0) (unat n) = numeral_of (2 ^ sh) (unat n)"
proof -
  define w where "w = nch_from lim sh n 0"
  have w: "w \<le> lim" "\<And>j. j < w \<Longrightarrow> drop_bit (sh * j) n \<noteq> 0" "w = lim \<or> drop_bit (sh * w) n = 0"
    using nch_from_spec [of 0 lim sh n w] by (auto simp: w_def)
  show "nch_from lim sh n 0 \<le> lim" using w(1) by (simp add: w_def)
  have d0: "drop_bit k n = 0 \<longleftrightarrow> unat n < 2 ^ k" for k
    by (simp add: unat_drop_bit_div div_eq_0_iff flip: unat_eq_0)
  have "0 < lim" using assms(3) by (cases lim) auto
  then have "w \<noteq> 0" using w(3) assms(1) by (cases "w = 0") auto
  then obtain v where v: "w = Suc v" by (cases w) auto
  have "unat n < 2 ^ (sh * w)"
  proof (cases "w = lim")
    case True
    then have "sh * w = 64" using assms(3) by simp
    then show ?thesis using unat_u64_bound [of n] by (simp only:)
  next
    case False
    then show ?thesis using w(3) d0 [of "sh * w"] by blast
  qed
  then have "unat n < (2 ^ sh) ^ Suc v" by (simp only: power_mult v)
  moreover have "(2 ^ sh) ^ v \<le> unat n" using w(2) [of v] v d0 by (simp add: linorder_not_less flip: power_mult)
  moreover have "1 < (2 ^ sh :: nat)" using assms(2) by (intro one_less_power) auto
  ultimately have "digits_of (2 ^ sh) (Suc v) (unat n) = numeral_of (2 ^ sh) (unat n)"
    by (blast intro: digits_numeral)
  then show "digits_of (2 ^ sh) (nch_from lim sh n 0) (unat n) = numeral_of (2 ^ sh) (unat n)"
    by (simp only: v flip: w_def)
qed

lemma dec_digit: "unat (r :: u64) < 10 \<Longrightarrow> ucast (0x30 + r) = digit_ch (unat r)"
proof -
  assume r: "unat r < 10"
  then have "unat (0x30 + r) = 0x30 + unat r" by (subst unat_add_u64) simp_all
  moreover have "(ucast (0x30 + r) :: u8) = of_nat (unat (0x30 + r))" by (simp only: of_nat_unat)
  ultimately show ?thesis using r by (simp add: digit_ch_def)
qed

lemma unat_mod_10: "unat ((n :: u64) mod 10) = unat n mod 10"
  by (simp only: unat_mod) simp

lemma fmt_u_loop_digits:
  "unat n < 10 ^ k \<Longrightarrow> nch + k \<le> 20 \<Longrightarrow> length buf = 21 \<Longrightarrow>
   \<exists>nch' buf'. fmt_u_loop n nch buf = Ret (nch', buf') \<and>
     drop (20 - nch') buf' = (if n = 0 then [] else numeral_of 10 (unat n)) @ drop (20 - nch) buf"
proof (induction k arbitrary: n nch buf)
  case 0
  then have "n = 0" by (simp add: unat_eq_0)
  then show ?case by (simp add: fmt_u_loop.simps)
next
  case (Suc k)
  show ?case
  proof (cases "n = 0")
    case True
    then show ?thesis by (simp add: fmt_u_loop.simps)
  next
    case False
    define c where "c = (ucast (0x30 + n mod 10) :: u8)"
    define buf1 where "buf1 = buf[20 - (nch + 1) := c]"
    have "unat (n div 10) < 10 ^ k" using Suc.prems(1) by (simp add: unat_div less_mult_imp_div_less mult.commute)
    moreover have "nch + 1 + k \<le> 20" "length buf1 = 21" using Suc.prems by (auto simp: buf1_def)
    ultimately obtain nch' buf' where r: "fmt_u_loop (n div 10) (nch + 1) buf1 = Ret (nch', buf')"
      "drop (20 - nch') buf' = (if n div 10 = 0 then [] else numeral_of 10 (unat (n div 10))) @ drop (20 - (nch + 1)) buf1"
      using Suc.IH by blast
    have "20 - nch = Suc (20 - (nch + 1))" using Suc.prems by simp
    then have "drop (20 - (nch + 1)) buf1 = c # drop (20 - nch) buf"
      using Suc.prems by (simp add: buf1_def drop_update_swap Cons_nth_drop_Suc [symmetric])
    moreover have "c = digit_ch (unat n mod 10)"
      using dec_digit [of "n mod 10"] by (simp only: c_def unat_mod_10)
    moreover have "numeral_of 10 (unat n) = (if n div 10 = 0 then [] else numeral_of 10 (unat (n div 10))) @ [digit_ch (unat n mod 10)]"
      by (simp add: numeral_of.simps [of 10 "unat n"] unat_div div_eq_0_iff flip: unat_eq_0)
    ultimately show ?thesis using r False Suc.prems(2)
      by (simp add: fmt_u_loop.simps [of n] word_gt_0 buf1_def c_def)
  qed
qed

subsection \<open>What a message prints\<close>

text \<open>
  The format language the messages are written in, piece by piece: \<open>unparse\<close> is the message a list of
  pieces stands for, \<open>render\<close> the text it is meant to print with its arguments.
\<close>

datatype fsize = Sz_none | Sz_Q | Sz_D | Sz_W | Sz_B
datatype fconv = Fx | Fb | Fu | Fs | Fc
datatype piece = Lit u8 | Percent | Conv fsize fconv

fun size_text :: "fsize \<Rightarrow> u8 list" where
  "size_text Sz_none = []"
| "size_text Sz_Q = [0x51]"
| "size_text Sz_D = [0x44]"
| "size_text Sz_W = [0x57]"
| "size_text Sz_B = [0x42]"

fun conv_char :: "fconv \<Rightarrow> u8" where
  "conv_char Fx = 0x78"
| "conv_char Fb = 0x62"
| "conv_char Fu = 0x75"
| "conv_char Fs = 0x73"
| "conv_char Fc = 0x63"

fun unparse :: "piece list \<Rightarrow> u8 list" where
  "unparse [] = []"
| "unparse (Lit c # ps) = c # unparse ps"
| "unparse (Percent # ps) = 0x25 # 0x25 # unparse ps"
| "unparse (Conv sz f # ps) = 0x25 # size_text sz @ conv_char f # unparse ps"

fun size_bytes :: "fsize \<Rightarrow> nat" where
  "size_bytes Sz_none = 0"
| "size_bytes Sz_Q = 8"
| "size_bytes Sz_D = 4"
| "size_bytes Sz_W = 2"
| "size_bytes Sz_B = 1"

definition number_text :: "nat \<Rightarrow> nat \<Rightarrow> fsize \<Rightarrow> u64 \<Rightarrow> u8 list" where
  "number_text b per_byte sz n =
     (if sz = Sz_none then numeral_of b (unat n) else digits_of b (per_byte * size_bytes sz) (unat n))"

fun conv_text :: "fsize \<Rightarrow> fconv \<Rightarrow> va \<Rightarrow> u8 list option" where
  "conv_text sz Fx (VInt n) = Some (number_text 16 2 sz n)"
| "conv_text sz Fb (VInt n) = Some (number_text 2 8 sz n)"
| "conv_text sz Fu (VInt n) = Some (numeral_of 10 (unat n))"
| "conv_text sz Fs (VStr str) = Some str"
| "conv_text sz Fc (VInt n) = Some [ucast n]"
| "conv_text sz f a = None"

fun render :: "piece list \<Rightarrow> va list \<Rightarrow> u8 list option" where
  "render [] args = Some []"
| "render (Lit c # ps) args = (if c = 0x25 then None else map_option ((#) c) (render ps args))"
| "render (Percent # ps) args = map_option ((#) 0x25) (render ps args)"
| "render (Conv sz f # ps) [] = None"
| "render (Conv sz f # ps) (a # args) =
     (case conv_text sz f a of None \<Rightarrow> None | Some cs \<Rightarrow> map_option ((@) cs) (render ps args))"

definition log_text :: "log_type \<Rightarrow> u8 list" where
  "log_text type = (case log_prefix type of None \<Rightarrow> [] | Some str \<Rightarrow> str)"

fun size_mod :: "fsize \<Rightarrow> u32" where
  "size_mod Sz_none = 0"
| "size_mod Sz_Q = FM_QWORD"
| "size_mod Sz_D = FM_DWORD"
| "size_mod Sz_W = FM_WORD"
| "size_mod Sz_B = FM_BYTE"

lemma numeral_0: "1 < b \<Longrightarrow> numeral_of b 0 = [0x30]"
  by (simp add: numeral_of.simps digit_ch_def)

lemma hex_text:
  "m \<le> 17 \<Longrightarrow> cstr (put_digits 17 m (\<lambda>i. hex_lut ! unat (drop_bit (4 * i) n AND 0xf))) = digits_of 16 m (unat n)"
  for n :: u64
  by (rule cstr_put_digits, assumption, simp, simp, rule hex_digit)

lemma bin_text:
  "m \<le> 65 \<Longrightarrow> cstr (put_digits 65 m (\<lambda>i. if drop_bit i n AND 0x1 \<noteq> 0 then 0x31 else 0x30)) = digits_of 2 m (unat n)"
  for n :: u64
  by (rule cstr_put_digits, assumption, simp, simp, rule bin_digit)

lemma char_arg: "ucast (ucast (n :: u64) AND (0xff :: u32)) = (ucast n :: u8)"
proof -
  have m: "(0xff :: u32) = mask 8" by (simp add: mask_eq_exp_minus_1)
  show ?thesis unfolding m by (rule bit_word_eqI) (auto simp: bit_simps)
qed

lemma print_fmt_x_text:
  "print_fmt_x con n (size_mod sz) s =
     (if sz = Sz_none \<and> n = 0 then put_ch con 0x30 s else put_str con (number_text 16 2 sz n) s)"
proof (cases sz)
  case Sz_none
  show ?thesis
  proof (cases "n = 0")
    case False
    with nch_numeral [of n 4 16] show ?thesis
      by (simp add: print_fmt_x_def Sz_none hex_text number_text_def)
  qed (simp add: print_fmt_x_def Sz_none)
qed (simp_all add: print_fmt_x_def hex_text number_text_def)

lemma print_fmt_b_text:
  "print_fmt_b con n (size_mod sz) s =
     (if sz = Sz_none \<and> n = 0 then put_ch con 0x30 s else put_str con (number_text 2 8 sz n) s)"
proof (cases sz)
  case Sz_none
  show ?thesis
  proof (cases "n = 0")
    case False
    with nch_numeral [of n 1 64] show ?thesis
      by (simp add: print_fmt_b_def Sz_none bin_text number_text_def)
  qed (simp add: print_fmt_b_def Sz_none)
qed (simp_all add: print_fmt_b_def bin_text number_text_def)

lemma print_fmt_u_text:
  "print_fmt_u con n md s = (if n = 0 then put_ch con 0x30 s else put_str con (numeral_of 10 (unat n)) s)"
proof (cases "n = 0")
  case True
  then show ?thesis by (simp add: print_fmt_u_def)
next
  case False
  have "unat n < 10 ^ 20" using unat_u64_bound [of n] by simp
  from fmt_u_loop_digits [of n 20 0 "replicate 21 0", OF this] False obtain nch buf where
    l: "fmt_u_loop n 0 (replicate 21 0) = Ret (nch, buf)" "drop (20 - nch) buf = numeral_of 10 (unat n) @ replicate 1 0"
    by auto
  have "\<forall>c \<in> set (numeral_of 10 k). c \<noteq> 0" for k
  proof (induction "10 :: nat" k rule: numeral_of.induct)
    case (1 n)
    have "n mod 10 < 16" by (rule less_trans [of _ 10]) simp_all
    then show ?case using 1 by (auto simp: numeral_of.simps [of 10 n] dest: digit_ch_nonzero)
  qed
  then have "cstr (drop (20 - nch) buf) = numeral_of 10 (unat n)" unfolding l(2) by (rule cstr_digits)
  with l(1) False show ?thesis by (simp add: print_fmt_u_def)
qed

context console
begin

lemma print_arg_sends:
  assumes "ready s" and "conv_text sz f a = Some cs"
  shows "\<exists>t. print_arg con (conv_char f) (size_mod sz) (a # args) s = Ret (args, t) \<and> ready t \<and> sent t = sent s @ cs"
proof -
  obtain e where e: "print_arg con (conv_char f) (size_mod sz) (a # args) s = seq e (\<lambda>s. Ret (args, s))"
    "e = put_str con cs s \<or> (\<exists>c. cs = [c] \<and> e = put_ch con c s)"
    using assms(2)
    by (cases "(sz, f, a)" rule: conv_text.cases)
      (auto simp: print_fmt_x_text print_fmt_b_text print_fmt_u_text print_fmt_s_def print_fmt_c_def
        numeral_0 number_text_def char_arg)
  from e(2) have "sends ready sent e cs s"
    using put_ch_sends [OF assms(1)] put_str_sends [OF assms(1)] by auto
  with e(1) show ?thesis by (auto simp: sends_def)
qed


lemma put_seq:
  assumes "ready s" and "\<And>t. ready t \<Longrightarrow> sends ready sent (f t) cs t"
  shows "sends ready sent (seq (put_ch con c s) f) (c # cs) s"
  using sends_seq [OF put_ch_sends [OF assms(1), of c] assms(2)] by simp

lemma print_loop_lit:
  "c \<noteq> 0x25 \<Longrightarrow> print_loop con (c # cs) args s = seq (put_ch con c s) (print_loop con cs args)"
proof (cases cs)
  case Nil
  have "print_loop con [] args = Ret" by (rule ext) simp
  moreover assume "c \<noteq> 0x25"
  ultimately show ?thesis using Nil by simp
qed simp

lemma print_loop_conv:
  "print_loop con (0x25 # size_text sz @ conv_char f # cs) args s =
     seq (print_arg con (conv_char f) (size_mod sz) args s) (\<lambda>(args, s). print_loop con cs args s)"
  by (cases sz; cases f) (simp_all add: fmt_mod_def del: print_arg.simps)

lemma print_loop_sends:
  "render ps args = Some cs \<Longrightarrow> ready s \<Longrightarrow> sends ready sent (print_loop con (unparse ps) args s) cs s"
proof (induction ps args arbitrary: cs s rule: render.induct)
  case (1 args)
  then show ?case by (simp add: sends_def)
next
  case (2 c ps args)
  then show ?case by (auto simp: print_loop_lit intro!: put_seq split: if_splits)
next
  case (3 ps args)
  then show ?case by (auto intro!: put_seq)
next
  case (4 sz f ps)
  then show ?case by simp
next
  case (5 sz f ps a args)
  then obtain c1 c2 where c: "conv_text sz f a = Some c1" "render ps args = Some c2" "cs = c1 @ c2"
    by (auto split: option.splits)
  from print_arg_sends [OF 5(3) c(1)] obtain t where
    t: "print_arg con (conv_char f) (size_mod sz) (a # args) s = Ret (args, t)" "ready t" "sent t = sent s @ c1"
    by blast
  from 5(1) [OF c(1,2) t(2)] show ?case
    by (auto simp: print_loop_conv t sends_def c(3) simp del: print_arg.simps)
qed

lemma print_prefix_sends:
  "ready s \<Longrightarrow> sends ready sent (case log_prefix type of None \<Rightarrow> Ret s | Some str \<Rightarrow> put_str con str s) (log_text type) s"
  by (cases "log_prefix type") (simp_all add: log_text_def sends_Ret put_str_sends)

lemma ku_print_v_sends:
  assumes "render ps args = Some cs" and "pr_mutex p = 0" and "ready (pr_con p)"
  shows "\<exists>q. ku_print_v con type (unparse ps) args p = Ret q \<and> pr_mutex q = 0 \<and> ready (pr_con q) \<and>
     sent (pr_con q) = sent (pr_con p) @ log_text type @ cs"
  using sends_seq [OF print_prefix_sends [OF assms(3), of type] print_loop_sends [OF assms(1)]] assms(2)
  by (auto simp: sends_def ku_print_v_def exec_simps simp flip: seq_assoc)

lemma ku_println_sends:
  assumes "render ps args = Some cs" and "pr_mutex p = 0" and "ready (pr_con p)"
  shows "\<exists>q. ku_println con type (unparse ps) args p = Ret q \<and> pr_mutex q = 0 \<and> ready (pr_con q) \<and>
     sent (pr_con q) = sent (pr_con p) @ log_text type @ cs @ [0x0a]"
proof -
  obtain q where q: "ku_print_v con type (unparse ps) args p = Ret q" "pr_mutex q = 0" "ready (pr_con q)"
     "sent (pr_con q) = sent (pr_con p) @ log_text type @ cs"
    using ku_print_v_sends [OF assms] by blast
  from put_ch_sends [OF q(3), of "0x0a"] show ?thesis
    by (auto simp: ku_println_def q sends_def)
qed

end

subsection \<open>Memory\<close>

text \<open>
  Byte-addressed memory.  \<open>rep stosq\<close> and \<open>rep movsq\<close> go upwards; a \<open>movsq\<close> reads its eight
  bytes before it writes them.
\<close>

type_synonym memory = "u64 \<Rightarrow> u8"

definition stosq :: "u64 \<Rightarrow> u64 \<Rightarrow> memory \<Rightarrow> memory" where
  "stosq dst q mem = (\<lambda>x. if unat (x - dst) < 8 then ucast (drop_bit (8 * unat (x - dst)) q) else mem x)"

definition movsq :: "u64 \<Rightarrow> u64 \<Rightarrow> memory \<Rightarrow> memory" where
  "movsq dst src mem = (\<lambda>x. if unat (x - dst) < 8 then mem (src + (x - dst)) else mem x)"

fun fms_64 :: "u64 \<Rightarrow> u64 \<Rightarrow> nat \<Rightarrow> memory \<Rightarrow> memory" where
  "fms_64 dst q 0 mem = mem"
| "fms_64 dst q (Suc n) mem = fms_64 (dst + 8) q n (stosq dst q mem)"

fun au_fmc_64 :: "u64 \<Rightarrow> u64 \<Rightarrow> nat \<Rightarrow> memory \<Rightarrow> memory" where
  "au_fmc_64 dst src 0 mem = mem"
| "au_fmc_64 dst src (Suc n) mem = au_fmc_64 (dst + 8) (src + 8) n (movsq dst src mem)"

definition splat :: "u8 \<Rightarrow> u64" where
  "splat b =
     (let q = ucast b;
          q = q OR push_bit 8 (ucast b);
          q = q OR push_bit 16 (ucast b);
          q = q OR push_bit 24 (ucast b);
          q = q OR push_bit 32 (ucast b);
          q = q OR push_bit 40 (ucast b);
          q = q OR push_bit 48 (ucast b)
      in q OR push_bit 56 (ucast b))"

definition ku_memset :: "u64 \<Rightarrow> u8 \<Rightarrow> u64 \<Rightarrow> memory \<Rightarrow> memory" where
  "ku_memset dst b n mem =
     fold (\<lambda>i mem. mem(dst + of_nat i := b)) [unat n div 8 * 8..<unat n]
       (fms_64 dst (splat b) (unat n div 8) mem)"

definition ku_memcpy :: "u64 \<Rightarrow> u64 \<Rightarrow> u64 \<Rightarrow> memory \<Rightarrow> memory" where
  "ku_memcpy dst src n mem =
     fold (\<lambda>i mem. mem(dst + of_nat i := mem (src + of_nat i))) [unat n div 8 * 8..<unat n]
       (au_fmc_64 dst src (unat n div 8) mem)"

text \<open>The bytewise functions, and the state after their first \<open>k\<close> bytes.\<close>

definition set_bytes :: "u64 \<Rightarrow> u8 \<Rightarrow> nat \<Rightarrow> memory \<Rightarrow> memory" where
  "set_bytes dst b k mem = (\<lambda>x. if unat (x - dst) < k then b else mem x)"

definition copy_bytes :: "u64 \<Rightarrow> u64 \<Rightarrow> nat \<Rightarrow> memory \<Rightarrow> memory" where
  "copy_bytes dst src k mem = (\<lambda>x. if unat (x - dst) < k then mem (src + (x - dst)) else mem x)"

lemma splat_byte: "k < 8 \<Longrightarrow> ucast (drop_bit (8 * k) (splat b)) = b"
proof -
  assume "k < 8"
  then consider "k = 0" | "k = 1" | "k = 2" | "k = 3" | "k = 4" | "k = 5" | "k = 6" | "k = 7" by linarith
  then show ?thesis
    by cases (rule bit_word_eqI, auto simp: splat_def Let_def bit_simps dest: bit_imp_le_length)+
qed

lemma unat_minus_add: "unat (x - (dst + of_nat k :: u64)) = (if k \<le> unat (x - dst) then unat (x - dst) - k else unat (x - dst) + 2 ^ 64 - k)"
  if "k < 2 ^ 64" for x dst :: u64
proof -
  have e: "x - (dst + of_nat k) = (x - dst) - of_nat k" by simp
  show ?thesis
  proof (cases "k \<le> unat (x - dst)")
    case True
    then show ?thesis unfolding e using that by (subst unat_sub) (simp_all add: word_le_nat_alt unat_of_nat)
  next
    case False
    then show ?thesis unfolding e using that by (simp add: unat_sub_if_size word_le_nat_alt unat_of_nat word_size)
  qed
qed

lemma stosq_step: "k + 8 \<le> 2 ^ 64 \<Longrightarrow> stosq (dst + of_nat k) (splat b) (set_bytes dst b k mem) = set_bytes dst b (k + 8) mem"
  by (rule ext) (auto simp: stosq_def set_bytes_def unat_minus_add splat_byte)

lemma fms_64_bytes:
  "k + 8 * n \<le> 2 ^ 64 \<Longrightarrow> fms_64 (dst + of_nat k) (splat b) n (set_bytes dst b k mem) = set_bytes dst b (k + 8 * n) mem"
proof (induction n arbitrary: k)
  case 0
  then show ?case by simp
next
  case (Suc n)
  then show ?case using Suc.IH [of "k + 8"] stosq_step [of k dst b mem] by (simp add: algebra_simps)
qed

lemma set_byte_step: "k < 2 ^ 64 \<Longrightarrow> (set_bytes dst b k mem)(dst + of_nat k := b) = set_bytes dst b (Suc k) mem"
proof (rule ext)
  fix x
  assume k: "k < 2 ^ 64"
  have "x = dst + of_nat k \<longleftrightarrow> x - dst = of_nat k" by (auto simp: algebra_simps)
  also have "\<dots> \<longleftrightarrow> unat (x - dst) = k" using k by (auto simp: unat_of_nat word_unat_eq_iff)
  finally show "((set_bytes dst b k mem)(dst + of_nat k := b)) x = set_bytes dst b (Suc k) mem x"
    by (auto simp: set_bytes_def less_Suc_eq)
qed

text \<open>The state after \<open>k\<close> of \<open>m\<close> bytes: the source of what is still to be copied is unchanged.\<close>

definition copyable :: "u64 \<Rightarrow> u64 \<Rightarrow> nat \<Rightarrow> bool" where
  "copyable dst src m \<longleftrightarrow> dst = src \<or> m \<le> unat (dst - src)"

lemma unat_of_nat_minus: "j < unat e \<Longrightarrow> unat (of_nat j - e) = j + 2 ^ 64 - unat e" for e :: u64
  using unat_u64_bound [of e] by (simp add: unat_sub_if_size word_size word_le_nat_alt unat_of_nat)

lemma copy_source:
  assumes "copyable dst src m" and "m \<le> 2 ^ 64" and "j < m" and "k \<le> j"
  shows "copy_bytes dst src k mem (src + of_nat j) = mem (src + of_nat j)"
proof -
  have j: "unat (of_nat j :: u64) = j" using assms by (simp add: unat_of_nat)
  have "\<not> unat (src + of_nat j - dst) < k"
  proof (cases "dst = src")
    case True
    then show ?thesis using assms j by simp
  next
    case False
    then have d: "m \<le> unat (dst - src)" using assms(1) by (simp add: copyable_def)
    have "src + of_nat j - dst = of_nat j - (dst - src)" by simp
    then have "unat (src + of_nat j - dst) = j + 2 ^ 64 - unat (dst - src)"
      using unat_of_nat_minus [of j "dst - src"] d assms(3) by (simp only:)
    moreover have "unat (dst - src) < 2 ^ 64" by (rule unat_u64_bound)
    ultimately show ?thesis using assms(4) by simp
  qed
  then show ?thesis by (simp add: copy_bytes_def)
qed

lemma of_nat_unat_diff: "src + of_nat (unat (x - dst)) = src + (x - dst)" for x dst src :: u64
  by simp

lemma movsq_step:
  assumes "copyable dst src m" and "m \<le> 2 ^ 64" and "k + 8 \<le> m"
  shows "movsq (dst + of_nat k) (src + of_nat k) (copy_bytes dst src k mem) = copy_bytes dst src (k + 8) mem"
proof (rule ext)
  fix x
  define p where "p = unat (x - dst)"
  have x: "x - dst = of_nat p" by (simp add: p_def)
  have k: "k < 2 ^ 64" using assms by simp
  show "movsq (dst + of_nat k) (src + of_nat k) (copy_bytes dst src k mem) x = copy_bytes dst src (k + 8) mem x"
  proof (cases "k \<le> p \<and> p < k + 8")
    case True
    have "src + of_nat k + (x - (dst + of_nat k)) = src + of_nat p" by (simp flip: x)
    moreover have "copy_bytes dst src k mem (src + of_nat p) = mem (src + of_nat p)"
      using copy_source [OF assms(1,2), of p k] True assms(3) by simp
    moreover have "unat (x - (dst + of_nat k)) < 8" using True k by (auto simp: unat_minus_add simp flip: p_def)
    ultimately have "movsq (dst + of_nat k) (src + of_nat k) (copy_bytes dst src k mem) x = mem (src + of_nat p)"
      by (simp add: movsq_def)
    also have "\<dots> = copy_bytes dst src (k + 8) mem x"
      using True by (simp only: copy_bytes_def flip: p_def) (simp add: x)
    finally show ?thesis .
  next
    case False
    then have "\<not> unat (x - (dst + of_nat k)) < 8" using k assms(2,3) by (auto simp: unat_minus_add simp flip: p_def)
    then show ?thesis using False by (auto simp: movsq_def copy_bytes_def simp flip: p_def)
  qed
qed

lemma copy_byte_step:
  assumes "copyable dst src m" and "m \<le> 2 ^ 64" and "k < m"
  shows "(copy_bytes dst src k mem)(dst + of_nat k := copy_bytes dst src k mem (src + of_nat k)) = copy_bytes dst src (Suc k) mem"
proof (rule ext)
  fix x
  have k: "k < 2 ^ 64" using assms by simp
  have "x = dst + of_nat k \<longleftrightarrow> x - dst = of_nat k" by (auto simp: algebra_simps)
  also have "\<dots> \<longleftrightarrow> unat (x - dst) = k" using k by (auto simp: unat_of_nat word_unat_eq_iff)
  finally have x: "x = dst + of_nat k \<longleftrightarrow> unat (x - dst) = k" .
  moreover have "unat (x - dst) = k \<Longrightarrow> x - dst = of_nat k" by auto
  ultimately show "((copy_bytes dst src k mem)(dst + of_nat k := copy_bytes dst src k mem (src + of_nat k))) x =
      copy_bytes dst src (Suc k) mem x"
    using copy_source [OF assms order.refl] by (auto simp: less_Suc_eq) (auto simp: copy_bytes_def)
qed

lemma au_fmc_64_bytes:
  assumes "copyable dst src m" and "m \<le> 2 ^ 64"
  shows "k + 8 * n \<le> m \<Longrightarrow>
    au_fmc_64 (dst + of_nat k) (src + of_nat k) n (copy_bytes dst src k mem) = copy_bytes dst src (k + 8 * n) mem"
proof (induction n arbitrary: k)
  case 0
  then show ?case by simp
next
  case (Suc n)
  then show ?case using Suc.IH [of "k + 8"] movsq_step [OF assms, of k mem] by (simp add: algebra_simps)
qed

lemma fold_steps:
  "k \<le> m \<Longrightarrow> (\<And>i. k \<le> i \<Longrightarrow> i < m \<Longrightarrow> f i (g i) = g (Suc i)) \<Longrightarrow> fold f [k..<m] (g k) = g m"
proof (induction "m - k" arbitrary: k)
  case 0
  then show ?case by simp
next
  case (Suc d)
  then have "[k..<m] = k # [Suc k..<m]" by (simp add: upt_rec)
  with Suc show ?case by simp
qed

lemma ku_memset_bytes: "ku_memset dst b n mem = set_bytes dst b (unat n) mem"
proof -
  define k where "k = unat n div 8 * 8"
  have k: "k \<le> unat n" "unat n < 2 ^ 64" using unat_u64_bound [of n] by (simp_all add: k_def)
  have "fms_64 dst (splat b) (unat n div 8) (set_bytes dst b 0 mem) = set_bytes dst b k mem"
    using fms_64_bytes [of 0 "unat n div 8" dst b mem] k by (simp add: k_def mult.commute)
  moreover have "set_bytes dst b 0 mem = mem" by (simp add: set_bytes_def)
  moreover have "fold (\<lambda>i mem. mem(dst + of_nat i := b)) [k..<unat n] (set_bytes dst b k mem) = set_bytes dst b (unat n) mem"
    using k by (intro fold_steps [where g = "\<lambda>k. set_bytes dst b k mem"] set_byte_step) auto
  ultimately show ?thesis by (simp add: ku_memset_def flip: k_def)
qed

lemma ku_memcpy_bytes:
  assumes "copyable dst src (unat n)"
  shows "ku_memcpy dst src n mem = copy_bytes dst src (unat n) mem"
proof -
  define k where "k = unat n div 8 * 8"
  have k: "k \<le> unat n" "unat n \<le> 2 ^ 64" using unat_u64_bound [of n] by (simp_all add: k_def)
  have "au_fmc_64 dst src (unat n div 8) (copy_bytes dst src 0 mem) = copy_bytes dst src k mem"
    using au_fmc_64_bytes [OF assms k(2), of 0 "unat n div 8" mem] k by (simp add: k_def mult.commute)
  moreover have "copy_bytes dst src 0 mem = mem" by (simp add: copy_bytes_def)
  moreover have "fold (\<lambda>i mem. mem(dst + of_nat i := mem (src + of_nat i))) [k..<unat n] (copy_bytes dst src k mem) =
      copy_bytes dst src (unat n) mem"
    using k by (intro fold_steps [where g = "\<lambda>k. copy_bytes dst src k mem"] copy_byte_step [OF assms]) auto
  ultimately show ?thesis by (simp add: ku_memcpy_def flip: k_def)
qed

subsection \<open>Properties\<close>

text \<open>
  C10: On a serial port whose UART keeps its contract, \<open>ku_println\<close> with a message made of literal
  characters, \<open>%%\<close> and conversions, and with matching arguments, returns with its mutex free, and has sent exactly the
  prefix of the log type, the text the pieces stand for (hexadecimal, binary and decimal numerals without
  leading zeros or of the width of the size modifier, strings, characters), and a newline.
\<close>
theorem ku_println_text:
  assumes "serial_up bus u (pr_con p)" and "pr_mutex p = 0" and "render ps args = Some cs"
  shows "\<exists>q. ku_println (serial_con bus) type (unparse ps) args p = Ret q \<and> pr_mutex q = 0 \<and>
     serial_up bus u (pr_con q) \<and>
     serial_sent u (pr_con q) = serial_sent u (pr_con p) @ log_text type @ cs @ [0x0a]"
  by (rule serial.ku_println_sends [OF assms(3,2,1)])

definition ram_printer :: "ram_uart serial printer" where
  "ram_printer = \<lparr>pr_mutex = 0, pr_con = snd (sp_init ram_uart_bus ram_serial)\<rparr>"

text \<open>The message \<open>"n=%u 0x%Wx %s%%"\<close> with 205, 0xbeef and a string.\<close>

theorem ku_println_text_witness:
  "\<exists>q. ku_println (serial_con ram_uart_bus) LT_ERR
       [0x6e, 0x3d, 0x25, 0x75, 0x20, 0x30, 0x78, 0x25, 0x57, 0x78, 0x20, 0x25, 0x73, 0x25, 0x25]
       [VInt 205, VInt 0xbeef, VStr [0x6f, 0x6b]] ram_printer = Ret q \<and>
     serial_sent ram_uart_spec (pr_con q) =
       [0x5b, 0x65, 0x72, 0x72, 0x5d, 0x20] @ [0x6e, 0x3d, 0x32, 0x30, 0x35, 0x20, 0x30, 0x78, 0x62, 0x65, 0x65, 0x66, 0x20,
        0x6f, 0x6b, 0x25, 0x0a]"
proof -
  define ps where "ps = [Lit 0x6e, Lit 0x3d, Conv Sz_none Fu, Lit 0x20, Lit 0x30, Lit 0x78, Conv Sz_W Fx, Lit 0x20,
    Conv Sz_none Fs, Percent]"
  have up: "serial_up ram_uart_bus ram_uart_spec (pr_con ram_printer)" by (simp add: ram_printer_def ram_serial_up)
  have m: "pr_mutex ram_printer = 0" by (simp add: ram_printer_def)
  have r: "render ps [VInt 205, VInt 0xbeef, VStr [0x6f, 0x6b]] =
      Some [0x6e, 0x3d, 0x32, 0x30, 0x35, 0x20, 0x30, 0x78, 0x62, 0x65, 0x65, 0x66, 0x20, 0x6f, 0x6b, 0x25]"
  proof -
    have "numeral_of 10 205 = [0x32, 0x30, 0x35]"
      by (simp add: numeral_of.simps [of 10 205] numeral_of.simps [of 10 20] numeral_of.simps [of 10 2] digit_ch_def)
    moreover have "digits_of 16 (Suc (Suc (Suc (Suc 0)))) 0xbeef = [0x62, 0x65, 0x65, 0x66]"
      by (simp add: digit_ch_def)
    moreover have "2 * size_bytes Sz_W = Suc (Suc (Suc (Suc 0)))" by simp
    ultimately have "number_text 16 2 Sz_W 0xbeef = [0x62, 0x65, 0x65, 0x66]" by (simp only: number_text_def) simp
    with \<open>numeral_of 10 205 = _\<close> show ?thesis by (simp add: ps_def)
  qed
  have s: "serial_sent ram_uart_spec (pr_con ram_printer) = []"
    by (simp add: ram_printer_def ram_serial_init) (simp add: serial_sent_def ram_uart_spec_def ram_serial_def)
  show ?thesis
    using ku_println_text [OF up m r, of LT_ERR] s by (auto simp: ps_def log_text_def)
qed

text \<open>
  C35: What \<open>%x\<close> prints reads back as the number: with no size modifier as the argument itself, with one as the
  argument modulo the values of that size.
\<close>
theorem print_fmt_x_roundtrip:
  assumes "serial_up bus u s"
  shows "\<exists>t cs. print_fmt_x (serial_con bus) n (size_mod sz) s = Ret t \<and> serial_up bus u t \<and>
     serial_sent u t = serial_sent u s @ cs \<and>
     value_of 16 cs = (if sz = Sz_none then unat n else unat n mod 256 ^ size_bytes sz)"
proof -
  have "value_of 16 (number_text 16 2 sz n) = (if sz = Sz_none then unat n else unat n mod 256 ^ size_bytes sz)"
    by (simp add: number_text_def value_of_numeral value_of_digits power_mult)
  moreover have "value_of 16 [0x30] = 0" by (simp add: value_of_def digit_val_def)
  ultimately show ?thesis
    using serial.put_ch_sends [OF assms, of "0x30"] serial.put_str_sends [OF assms, of "number_text 16 2 sz n"]
    by (auto simp: print_fmt_x_text sends_def)
qed

theorem print_fmt_x_roundtrip_witness:
  "\<exists>t cs. print_fmt_x (serial_con ram_uart_bus) 0x12bee (size_mod Sz_W) (pr_con ram_printer) = Ret t \<and>
     serial_sent ram_uart_spec t = serial_sent ram_uart_spec (pr_con ram_printer) @ cs \<and> value_of 16 cs = 0x2bee"
  using print_fmt_x_roundtrip [of ram_uart_bus ram_uart_spec "pr_con ram_printer" "0x12bee" Sz_W]
  by (auto simp: ram_printer_def ram_serial_up)

text \<open>
  \<open>ku_memset\<close>, which stores quadwords and then the remaining bytes, sets exactly the \<open>n\<close> bytes from
  \<open>dst\<close> on, for every \<open>n\<close> and every alignment.
\<close>
theorem ku_memset_correct: "ku_memset dst b n mem = (\<lambda>x. if unat (x - dst) < unat n then b else mem x)"
  by (simp add: ku_memset_bytes set_bytes_def)

text \<open>
  C34: \<open>ku_memcpy\<close> copies exactly \<open>n\<close> bytes, also between overlapping ranges, unless the destination
  starts strictly inside the source range.
\<close>
theorem ku_memcpy_correct:
  assumes "dst = src \<or> unat n \<le> unat (dst - src)"
  shows "ku_memcpy dst src n mem = (\<lambda>x. if unat (x - dst) < unat n then mem (src + (x - dst)) else mem x)"
  using ku_memcpy_bytes [of dst src n mem] assms by (simp add: copyable_def copy_bytes_def)

theorem ku_memcpy_correct_witness:
  "ku_memcpy 0x1000 0x1003 21 (\<lambda>x. ucast x) 0x1014 = 0x17"
  using ku_memcpy_correct [of "0x1000" "0x1003" 21 "\<lambda>x. ucast x"] by simp

end
