(* ===== verification/Rtc.thy ===== *)
theory Rtc
  imports Ports
begin

section \<open>The real-time clock (rtc.c)\<close>

text \<open>
  Reading the CMOS clock through its index and data ports, and converting what it holds (BCD or
  binary, 12 or 24 hours) to a calendar time.  The clock is the parameter \<open>bus\<close>; what a settled
  clock answers is the contract \<open>cmos_ok\<close>.
\<close>

abbreviation PORT_CMOS_REG :: u16 where "PORT_CMOS_REG \<equiv> 0x70"
abbreviation PORT_CMOS_DATA :: u16 where "PORT_CMOS_DATA \<equiv> 0x71"
abbreviation R_SEC :: u8 where "R_SEC \<equiv> 0x0"
abbreviation R_MIN :: u8 where "R_MIN \<equiv> 0x2"
abbreviation R_HOUR :: u8 where "R_HOUR \<equiv> 0x4"
abbreviation R_DAY :: u8 where "R_DAY \<equiv> 0x7"
abbreviation R_MONTH :: u8 where "R_MONTH \<equiv> 0x8"
abbreviation R_YEAR :: u8 where "R_YEAR \<equiv> 0x9"
abbreviation R_STATUS_A :: u8 where "R_STATUS_A \<equiv> 0xa"
abbreviation R_STATUS_B :: u8 where "R_STATUS_B \<equiv> 0xb"
abbreviation MF_BIN :: u8 where "MF_BIN \<equiv> 0x1"
abbreviation MF_24_HOUR :: u8 where "MF_24_HOUR \<equiv> 0x2"

record rtc_time =
  rt_sec :: u8
  rt_min :: u8
  rt_hour :: u8
  rt_day :: u8
  rt_month :: u8
  rt_year :: u16

record 'b rtc =
  rc_bus :: 'b
  rc_boot_time :: rtc_time
  rc_mode_flags :: u8
  rc_mutex :: k_mutex_t

subsection \<open>Operations\<close>

definition rd_cmos_reg :: "'b bus \<Rightarrow> u8 \<Rightarrow> 'b \<Rightarrow> u8 \<times> 'b" where
  "rd_cmos_reg bus reg b =
     (let b = port_wr bus PORT_CMOS_REG (0x80 OR ucast reg) PS_8 b;
          (v, b) = port_rd bus PORT_CMOS_DATA PS_8 b
      in (ucast v, b))"

text \<open>\<open>while (rd_cmos_reg(R_STATUS_A) & 0x80)\<close>.\<close>

definition rtc_settle :: "'b bus \<Rightarrow> 'b \<Rightarrow> 'b exec" where
  "rtc_settle bus =
     forever (\<lambda>b. case rd_cmos_reg bus R_STATUS_A b of (v, b') \<Rightarrow>
       Ret (if v AND 0x80 \<noteq> 0 then Inl b' else Inr b'))"

definition bcd :: "u8 \<Rightarrow> u8" where
  "bcd v = (v AND 0x0f) + v div 16 * 10"

text \<open>
  The conversion of the raw registers.  The century register is not read; the arithmetic of the hour
  is that of \<open>int\<close>, cut to a byte, and its precedence is \<open>(a + b) | c\<close>.
\<close>

definition rtc_convert :: "u8 \<Rightarrow> u8 \<Rightarrow> u8 \<Rightarrow> u8 \<Rightarrow> u8 \<Rightarrow> u8 \<Rightarrow> u8 \<Rightarrow> rtc_time" where
  "rtc_convert mode_flags sec minute hour day month year =
     (let year = ucast year :: u16;
          century = (if mode_flags AND MF_BIN \<noteq> 0 then 20 else 0x20) :: u8;
          binary = (mode_flags AND MF_BIN \<noteq> 0);
          sec = (if binary then sec else bcd sec);
          minute = (if binary then minute else bcd minute);
          hour = (if binary then hour else ((hour AND 0x0f) + (hour AND 0x70) div 16 * 10) OR (hour AND 0x80));
          day = (if binary then day else bcd day);
          month = (if binary then month else bcd month);
          year = (if binary then year else (year AND 0x0f) + year div 16 * 10);
          century = (if binary then century else bcd century);
          hour = (if mode_flags AND MF_24_HOUR = 0 \<and> hour AND 0x80 \<noteq> 0 then ((hour AND 0x7f) + 12) mod 24 else hour);
          year = year + 100 * ucast century
      in \<lparr>rt_sec = sec, rt_min = minute, rt_hour = hour, rt_day = day, rt_month = month, rt_year = year\<rparr>)"

definition rtc_get_time :: "'b bus \<Rightarrow> 'b rtc \<Rightarrow> (rtc_time \<times> 'b rtc) exec" where
  "rtc_get_time bus s =
     seq (k_mutex_lock (rc_mutex s)) (\<lambda>m.
     seq (rtc_settle bus (rc_bus s)) (\<lambda>b.
     let (sec, b) = rd_cmos_reg bus R_SEC b;
         (minute, b) = rd_cmos_reg bus R_MIN b;
         (hour, b) = rd_cmos_reg bus R_HOUR b;
         (day, b) = rd_cmos_reg bus R_DAY b;
         (month, b) = rd_cmos_reg bus R_MONTH b;
         (year, b) = rd_cmos_reg bus R_YEAR b;
         time = rtc_convert (rc_mode_flags s) sec minute hour day month year
     in seq (k_mutex_unlock m) (\<lambda>m. Ret (time, s\<lparr>rc_bus := b, rc_mutex := m\<rparr>))))"

definition rtc_init :: "'b bus \<Rightarrow> 'b rtc \<Rightarrow> 'b rtc exec" where
  "rtc_init bus s =
     (let (status_b, b) = rd_cmos_reg bus R_STATUS_B (rc_bus s);
          flags = 0;
          flags = flags OR (if status_b AND 0x4 \<noteq> 0 then MF_BIN else 0);
          flags = flags OR (if status_b AND 0x2 \<noteq> 0 then MF_24_HOUR else 0)
      in seq (rtc_get_time bus (s\<lparr>rc_bus := b, rc_mode_flags := flags\<rparr>)) (\<lambda>(time, s).
         Ret (s\<lparr>rc_boot_time := time\<rparr>)))"

definition rtc_get_boot_time :: "'b rtc \<Rightarrow> rtc_time" where
  "rtc_get_boot_time s = rc_boot_time s"

subsection \<open>The time a clock shows\<close>

text \<open>
  A calendar time of this century, and the registers of a clock that holds it: in binary or BCD, with
  the hour from 0 to 23, or from 1 to 12 with bit 7 for the afternoon.
\<close>

record calendar =
  ca_sec :: nat
  ca_min :: nat
  ca_hour :: nat
  ca_day :: nat
  ca_month :: nat
  ca_year :: nat

definition calendar_ok :: "calendar \<Rightarrow> bool" where
  "calendar_ok t \<longleftrightarrow> ca_sec t < 60 \<and> ca_min t < 60 \<and> ca_hour t < 24 \<and> ca_day t \<le> 31 \<and> ca_month t \<le> 12 \<and>
     2000 \<le> ca_year t \<and> ca_year t < 2100"

definition to_bcd :: "nat \<Rightarrow> u8" where
  "to_bcd n = of_nat (n div 10 * 16 + n mod 10)"

definition enc_num :: "bool \<Rightarrow> nat \<Rightarrow> u8" where
  "enc_num binary n = (if binary then of_nat n else to_bcd n)"

definition enc_hour :: "bool \<Rightarrow> bool \<Rightarrow> nat \<Rightarrow> u8" where
  "enc_hour binary full h =
     (if full then enc_num binary h
      else enc_num binary (if h mod 12 = 0 then 12 else h mod 12) OR (if h \<ge> 12 then 0x80 else 0))"

definition mode_binary :: "u8 \<Rightarrow> bool" where
  "mode_binary status_b \<longleftrightarrow> status_b AND 0x4 \<noteq> 0"

definition mode_full :: "u8 \<Rightarrow> bool" where
  "mode_full status_b \<longleftrightarrow> status_b AND 0x2 \<noteq> 0"

definition cal_reg :: "u8 \<Rightarrow> calendar \<Rightarrow> u8 \<Rightarrow> u8" where
  "cal_reg status_b t reg =
     (let enc = enc_num (mode_binary status_b) in
      if reg = R_SEC then enc (ca_sec t)
      else if reg = R_MIN then enc (ca_min t)
      else if reg = R_HOUR then enc_hour (mode_binary status_b) (mode_full status_b) (ca_hour t)
      else if reg = R_DAY then enc (ca_day t)
      else if reg = R_MONTH then enc (ca_month t)
      else enc (ca_year t mod 100))"

text \<open>What \<open>rtc_convert\<close> makes of the hour: noon and midnight of a 12 hour clock come out swapped.\<close>

definition hour_read :: "u8 \<Rightarrow> nat \<Rightarrow> nat" where
  "hour_read status_b h = (if \<not> mode_full status_b \<and> h mod 12 = 0 then 12 - h else h)"

definition time_read :: "u8 \<Rightarrow> calendar \<Rightarrow> rtc_time" where
  "time_read status_b t =
     \<lparr>rt_sec = of_nat (ca_sec t), rt_min = of_nat (ca_min t), rt_hour = of_nat (hour_read status_b (ca_hour t)),
      rt_day = of_nat (ca_day t), rt_month = of_nat (ca_month t), rt_year = of_nat (ca_year t)\<rparr>"

definition mode_of :: "u8 \<Rightarrow> u8" where
  "mode_of status_b = (if mode_binary status_b then MF_BIN else 0) OR (if mode_full status_b then MF_24_HOUR else 0)"

lemma bcd_roundtrip: "n < 100 \<Longrightarrow> bcd (to_bcd n) = of_nat n"
proof -
  have "list_all (\<lambda>n. bcd (to_bcd n) = of_nat n) [0..<100]" by code_simp
  then show "n < 100 \<Longrightarrow> bcd (to_bcd n) = of_nat n" by (simp add: list_all_iff)
qed

definition conv_hour :: "bool \<Rightarrow> bool \<Rightarrow> u8 \<Rightarrow> u8" where
  "conv_hour binary full hour =
     (let hour = (if binary then hour else ((hour AND 0x0f) + (hour AND 0x70) div 16 * 10) OR (hour AND 0x80))
      in if \<not> full \<and> hour AND 0x80 \<noteq> 0 then ((hour AND 0x7f) + 12) mod 24 else hour)"

lemma hour_roundtrip:
  "h < 24 \<Longrightarrow> conv_hour binary full (enc_hour binary full h) = of_nat (if \<not> full \<and> h mod 12 = 0 then 12 - h else h)"
proof -
  have "list_all (\<lambda>binary. list_all (\<lambda>full. list_all (\<lambda>h.
      conv_hour binary full (enc_hour binary full h) = of_nat (if \<not> full \<and> h mod 12 = 0 then 12 - h else h))
      [0..<24]) [False, True]) [False, True]"
    by code_simp
  then show "h < 24 \<Longrightarrow> ?thesis" by (cases binary; cases full) (simp_all add: list_all_iff)
qed

definition conv_year :: "bool \<Rightarrow> u8 \<Rightarrow> u16" where
  "conv_year binary year =
     (let year = ucast year :: u16; year = (if binary then year else (year AND 0x0f) + year div 16 * 10) in year + 2000)"

lemma year_roundtrip: "n < 100 \<Longrightarrow> conv_year binary (enc_num binary n) = of_nat (2000 + n)"
proof -
  have "list_all (\<lambda>binary. list_all (\<lambda>n. conv_year binary (enc_num binary n) = of_nat (2000 + n)) [0..<100]) [False, True]"
    by code_simp
  then show "n < 100 \<Longrightarrow> ?thesis" by (cases binary) (simp_all add: list_all_iff)
qed

lemma rtc_convert_parts:
  "rtc_convert flags sec minute hour day month year =
     (let binary = (flags AND MF_BIN \<noteq> 0); num = (\<lambda>v. if binary then v else bcd v) in
      \<lparr>rt_sec = num sec, rt_min = num minute, rt_hour = conv_hour binary (flags AND MF_24_HOUR \<noteq> 0) hour,
       rt_day = num day, rt_month = num month, rt_year = conv_year binary year\<rparr>)"
proof -
  have c: "bcd 0x20 = 20" by code_simp
  show ?thesis by (cases "flags AND MF_BIN = 0") (simp_all add: rtc_convert_def conv_hour_def conv_year_def Let_def c)
qed

lemma enc_num_read: "enc_num True n = of_nat n" "n < 100 \<Longrightarrow> bcd (enc_num False n) = of_nat n"
  by (simp_all add: enc_num_def bcd_roundtrip)

lemma mode_of_bits:
  "mode_of sb AND MF_BIN \<noteq> 0 \<longleftrightarrow> mode_binary sb" "mode_of sb AND MF_24_HOUR \<noteq> 0 \<longleftrightarrow> mode_full sb"
  by (simp_all add: mode_of_def)

lemma rtc_convert_time:
  assumes "calendar_ok t"
  shows "rtc_convert (mode_of sb) (cal_reg sb t R_SEC) (cal_reg sb t R_MIN) (cal_reg sb t R_HOUR) (cal_reg sb t R_DAY)
     (cal_reg sb t R_MONTH) (cal_reg sb t R_YEAR) = time_read sb t"
proof -
  note ok = assms [unfolded calendar_ok_def]
  obtain n where n: "ca_year t = n + 20 * 100" "n < 100" by (rule that [of "ca_year t - 2000"]) (use ok in auto)
  have "2000 + ca_year t mod 100 = ca_year t" unfolding n(1) mod_mult_self1 using n(2) by simp
  with year_roundtrip [of "ca_year t mod 100" "mode_binary sb"]
  have y: "conv_year (mode_binary sb) (enc_num (mode_binary sb) (ca_year t mod 100)) = of_nat (ca_year t)" by simp
  have h: "conv_hour (mode_binary sb) (mode_full sb) (enc_hour (mode_binary sb) (mode_full sb) (ca_hour t)) =
      of_nat (hour_read sb (ca_hour t))"
    using hour_roundtrip [of "ca_hour t"] ok by (simp add: hour_read_def)
  show ?thesis
    using ok by (simp only: rtc_convert_parts mode_of_bits Let_def)
      (simp add: cal_reg_def time_read_def enc_num_read y h Let_def)
qed

subsection \<open>A clock behind the ports\<close>

text \<open>
  The contract of the clock: after the index of a register is written with the NMI bit, the data port
  yields it.  While an update is in progress (\<open>ck_busy\<close>), register A says so, and the update ends; from
  then on the registers hold the time in the format that register B gives, and the time stands still
  (the device guarantees 244 microseconds without an update).
\<close>

record 'b clock =
  ck_up :: "'b \<Rightarrow> bool"
  ck_busy :: "'b \<Rightarrow> nat"
  ck_now :: "'b \<Rightarrow> calendar"
  ck_status_b :: u8

definition cmos_ok :: "'b bus \<Rightarrow> 'b clock \<Rightarrow> bool" where
  "cmos_ok bus c \<longleftrightarrow> (\<forall>b reg v b'. ck_up c b \<longrightarrow> in_8 bus 0x71 (out_8 bus 0x70 (0x80 OR reg) b) = (v, b') \<longrightarrow>
     ck_up c b' \<and> (reg = R_STATUS_B \<longrightarrow> v = ck_status_b c) \<and> (reg = R_STATUS_A \<longrightarrow> (v AND 0x80 \<noteq> 0 \<longleftrightarrow> ck_busy c b > 0)) \<and>
     (ck_busy c b > 0 \<longrightarrow> ck_busy c b' < ck_busy c b) \<and>
     (ck_busy c b = 0 \<longrightarrow> ck_busy c b' = 0 \<and> ck_now c b' = ck_now c b \<and> calendar_ok (ck_now c b) \<and>
        (reg \<in> {R_SEC, R_MIN, R_HOUR, R_DAY, R_MONTH, R_YEAR} \<longrightarrow> v = cal_reg (ck_status_b c) (ck_now c b) reg)))"

definition settled :: "'b clock \<Rightarrow> calendar \<Rightarrow> 'b \<Rightarrow> bool" where
  "settled c t b \<longleftrightarrow> ck_up c b \<and> ck_busy c b = 0 \<and> ck_now c b = t"

lemma rd_cmos_reg_bus: "rd_cmos_reg bus reg b = in_8 bus 0x71 (out_8 bus 0x70 (0x80 OR reg) b)"
proof -
  have "ucast (0x80 OR ucast reg :: u64) = 0x80 OR reg" by (simp add: unsigned_or_eq ucast_ucast_u8)
  then show ?thesis
    by (simp add: rd_cmos_reg_def port_wr_8 port_rd_def ucast_ucast_u8 split: prod.splits)
qed

lemma rd_cmos_settled:
  assumes "cmos_ok bus c" and "settled c t b" and "reg \<in> {R_SEC, R_MIN, R_HOUR, R_DAY, R_MONTH, R_YEAR}"
  obtains b' where "rd_cmos_reg bus reg b = (cal_reg (ck_status_b c) t reg, b')" "settled c t b'"
proof -
  obtain v b' where i: "in_8 bus 0x71 (out_8 bus 0x70 (0x80 OR reg) b) = (v, b')" by fastforce
  note s = assms(2) [unfolded settled_def]
  note k = assms(1) [unfolded cmos_ok_def, rule_format, OF conjunct1 [OF s] i]
  show ?thesis by (rule that [of b']) (use k s assms(3) i in \<open>auto simp: settled_def rd_cmos_reg_bus\<close>)
qed

lemma rtc_settle_unfold:
  "rtc_settle bus b = (case rd_cmos_reg bus R_STATUS_A b of (v, b') \<Rightarrow>
     if v AND 0x80 \<noteq> 0 then rtc_settle bus b' else Ret b')"
  unfolding rtc_settle_def by (subst forever_unfold) (simp split: prod.splits)

lemma rtc_settles:
  assumes "cmos_ok bus c" and "ck_up c b"
  shows "\<exists>t b'. rtc_settle bus b = Ret b' \<and> settled c t b' \<and> calendar_ok t"
  using assms(2)
proof (induction "ck_busy c b" arbitrary: b rule: less_induct)
  case less
  obtain v b' where i: "in_8 bus 0x71 (out_8 bus 0x70 (0x80 OR R_STATUS_A) b) = (v, b')" by fastforce
  note k = assms(1) [unfolded cmos_ok_def, rule_format, OF less.prems i]
  have u: "rtc_settle bus b = (if v AND 0x80 \<noteq> 0 then rtc_settle bus b' else Ret b')"
    using i by (simp add: rtc_settle_unfold [of bus b] rd_cmos_reg_bus)
  show ?case
  proof (cases "ck_busy c b = 0")
    case True
    then show ?thesis using k u by (auto simp: settled_def)
  next
    case False
    with k have "ck_busy c b' < ck_busy c b" "ck_up c b'" by auto
    from less.hyps [OF this] show ?thesis using False k u by auto
  qed
qed

lemma rtc_get_time_settled:
  assumes "cmos_ok bus c" and "ck_up c (rc_bus s)" and "rc_mutex s = 0" and "rc_mode_flags s = mode_of (ck_status_b c)"
  shows "\<exists>t b. rtc_get_time bus s = Ret (time_read (ck_status_b c) t, s\<lparr>rc_bus := b\<rparr>) \<and> settled c t b \<and> calendar_ok t"
proof -
  obtain t b where b: "rtc_settle bus (rc_bus s) = Ret b" "settled c t b" "calendar_ok t"
    using rtc_settles [OF assms(1,2)] by blast
  obtain b1 where 1: "rd_cmos_reg bus R_SEC b = (cal_reg (ck_status_b c) t R_SEC, b1)" "settled c t b1"
    by (rule rd_cmos_settled [OF assms(1) b(2), of R_SEC]) auto
  obtain b2 where 2: "rd_cmos_reg bus R_MIN b1 = (cal_reg (ck_status_b c) t R_MIN, b2)" "settled c t b2"
    by (rule rd_cmos_settled [OF assms(1) 1(2), of R_MIN]) auto
  obtain b3 where 3: "rd_cmos_reg bus R_HOUR b2 = (cal_reg (ck_status_b c) t R_HOUR, b3)" "settled c t b3"
    by (rule rd_cmos_settled [OF assms(1) 2(2), of R_HOUR]) auto
  obtain b4 where 4: "rd_cmos_reg bus R_DAY b3 = (cal_reg (ck_status_b c) t R_DAY, b4)" "settled c t b4"
    by (rule rd_cmos_settled [OF assms(1) 3(2), of R_DAY]) auto
  obtain b5 where 5: "rd_cmos_reg bus R_MONTH b4 = (cal_reg (ck_status_b c) t R_MONTH, b5)" "settled c t b5"
    by (rule rd_cmos_settled [OF assms(1) 4(2), of R_MONTH]) auto
  obtain b6 where 6: "rd_cmos_reg bus R_YEAR b5 = (cal_reg (ck_status_b c) t R_YEAR, b6)" "settled c t b6"
    by (rule rd_cmos_settled [OF assms(1) 5(2), of R_YEAR]) auto
  have "rtc_get_time bus s = Ret (time_read (ck_status_b c) t, s\<lparr>rc_bus := b6\<rparr>)"
    using assms(3,4) by (simp add: rtc_get_time_def b 1 2 3 4 5 6 rtc_convert_time [OF b(3)])
  with 6(2) b(3) show ?thesis by blast
qed

subsection \<open>Properties\<close>

text \<open>
  C30: With a clock that keeps its contract, \<open>rtc_init\<close> returns, however long an update is in
  progress; the mode flags are those of the clock, and the boot time is the time the clock shows, for all four formats of
  its registers, except that a 12 hour clock's noon is read as hour 0 and its midnight as hour 12.
\<close>
theorem rtc_init_boot_time:
  assumes "cmos_ok bus c" and "ck_up c (rc_bus s)" and "rc_mutex s = 0"
  shows "\<exists>t r. rtc_init bus s = Ret r \<and> rc_mutex r = 0 \<and> rc_mode_flags r = mode_of (ck_status_b c) \<and>
     ck_now c (rc_bus r) = t \<and> calendar_ok t \<and> rtc_get_boot_time r = time_read (ck_status_b c) t"
proof -
  obtain v b where i: "in_8 bus 0x71 (out_8 bus 0x70 (0x80 OR R_STATUS_B) (rc_bus s)) = (v, b)" by fastforce
  note k = assms(1) [unfolded cmos_ok_def, rule_format, OF assms(2) i]
  define s1 where "s1 = s\<lparr>rc_bus := b, rc_mode_flags := mode_of (ck_status_b c)\<rparr>"
  have "rtc_init bus s = seq (rtc_get_time bus s1) (\<lambda>(time, s). Ret (s\<lparr>rc_boot_time := time\<rparr>))"
    using i k by (simp add: rtc_init_def rd_cmos_reg_bus s1_def mode_of_def mode_binary_def mode_full_def)
  moreover obtain t b' where "rtc_get_time bus s1 = Ret (time_read (ck_status_b c) t, s1\<lparr>rc_bus := b'\<rparr>)"
    "settled c t b'" "calendar_ok t"
    using rtc_get_time_settled [OF assms(1), of s1] assms(3) k by (auto simp: s1_def)
  ultimately show ?thesis using assms(3) by (auto simp: s1_def settled_def rtc_get_boot_time_def)
qed

text \<open>A clock in memory, busy for some reads, in 12 hour BCD format.\<close>

record ram_cmos =
  rm_reg :: u8
  rm_busy :: nat

definition noon :: calendar where
  "noon = \<lparr>ca_sec = 59, ca_min = 7, ca_hour = 12, ca_day = 31, ca_month = 12, ca_year = 2024\<rparr>"

definition ram_cmos_bus :: "ram_cmos bus" where
  "ram_cmos_bus =
     \<lparr>in_8 = (\<lambda>p b. if p = 0x71 then
          (let reg = rm_reg b AND 0x7f in
           if reg = R_STATUS_A then if rm_busy b > 0 then 0x80 else 0
           else if reg = R_STATUS_B then 0 else cal_reg 0 noon reg, b\<lparr>rm_busy := rm_busy b - 1\<rparr>) else (0, b)),
      in_16 = (\<lambda>p b. (0, b)), in_32 = (\<lambda>p b. (0, b)),
      out_8 = (\<lambda>p v b. if p = 0x70 then b\<lparr>rm_reg := v\<rparr> else b),
      out_16 = (\<lambda>p v b. b), out_32 = (\<lambda>p v b. b)\<rparr>"

definition ram_clock :: "ram_cmos clock" where
  "ram_clock = \<lparr>ck_up = (\<lambda>b. True), ck_busy = rm_busy, ck_now = (\<lambda>b. noon), ck_status_b = 0\<rparr>"

definition ram_rtc :: "ram_cmos rtc" where
  "ram_rtc = \<lparr>rc_bus = \<lparr>rm_reg = 0, rm_busy = 4\<rparr>, rc_boot_time = \<lparr>rt_sec = 0, rt_min = 0, rt_hour = 0, rt_day = 0,
     rt_month = 0, rt_year = 0\<rparr>, rc_mode_flags = 0, rc_mutex = 0\<rparr>"

lemma ram_cmos_ok: "cmos_ok ram_cmos_bus ram_clock"
  by (auto simp: cmos_ok_def ram_cmos_bus_def ram_clock_def Let_def calendar_ok_def noon_def bit.conj_disj_distrib2)

theorem rtc_init_boot_time_witness:
  "\<exists>r. rtc_init ram_cmos_bus ram_rtc = Ret r \<and> rtc_get_boot_time r =
     \<lparr>rt_sec = 59, rt_min = 7, rt_hour = 0, rt_day = 31, rt_month = 12, rt_year = 2024\<rparr>"
proof -
  have "time_read 0 noon = \<lparr>rt_sec = 59, rt_min = 7, rt_hour = 0, rt_day = 31, rt_month = 12, rt_year = 2024\<rparr>"
    by (simp add: time_read_def hour_read_def mode_full_def noon_def)
  then show ?thesis
    using rtc_init_boot_time [OF ram_cmos_ok, of ram_rtc] by (auto simp: ram_rtc_def ram_clock_def)
qed

end
