(* ===== verification/Mbr.thy ===== *)
theory Mbr
  imports Ata_Pio
begin

section \<open>Partition tables (mbr.c)\<close>

text \<open>
  Reading the first block of every disk and making a partition of every entry of its table.  The
  lemmas are proved over the interface \<open>blk_driver\<close> and hold of the disk through the interpretation of Ata\_Pio.
\<close>

record mbr_ent =
  me_drive_attr :: u8
  me_first :: "u8 list"
  me_type :: u8
  me_last :: "u8 list"
  me_start_lba :: u32
  me_nsector :: u32

record mbr =
  mb_disk_id :: u32
  mb_ents :: "mbr_ent list"
  mb_sig :: u16

subsection \<open>Operations\<close>

definition mbr_ent_of :: "u8 list \<Rightarrow> nat \<Rightarrow> mbr_ent" where
  "mbr_ent_of buf off =
     \<lparr>me_drive_attr = rd8 buf off, me_first = take 3 (drop (off + 1) buf), me_type = rd8 buf (off + 4),
      me_last = take 3 (drop (off + 5) buf), me_start_lba = rd32 buf (off + 8), me_nsector = rd32 buf (off + 12)\<rparr>"

definition mbr_of :: "u8 list \<Rightarrow> mbr" where
  "mbr_of buf =
     \<lparr>mb_disk_id = rd32 buf 440, mb_ents = map (\<lambda>j. mbr_ent_of buf (446 + 16 * j)) [0..<4], mb_sig = rd16 buf 510\<rparr>"

text \<open>\<open>disk_ids\<close> is \<open>None\<close> for a NULL pointer.\<close>

definition mbr_verify :: "mbr \<Rightarrow> u32 list option \<Rightarrow> int" where
  "mbr_verify mbr disk_ids =
     (if mb_sig mbr \<noteq> 0xaa55 then 1
      else (case disk_ids of
         None \<Rightarrow> 0
       | Some ids \<Rightarrow> if \<exists>x \<in> set ids. mb_disk_id mbr = x then 1 else 0))"

definition mbr_mk_part :: "bd_ref \<Rightarrow> mbr_ent \<Rightarrow> ('d, 'h, 'k) disks \<Rightarrow> ('d, 'h, 'k) disks exec" where
  "mbr_mk_part r e s =
     (if me_type e = 0 then Ret s
      else seq (blkdev_mk_part r (ucast (me_start_lba e)) (ucast (me_nsector e)) s) (\<lambda>(part, s). Ret s))"

definition mbr_dev :: "u8 list \<Rightarrow> bd_ref \<Rightarrow> ('d, 'h, 'k) disks \<Rightarrow> ('d, 'h, 'k) disks exec" where
  "mbr_dev stk r s =
     seq (bd_get r s) (\<lambda>bd.
     if bd_dev_type bd \<noteq> BDT_DISK_DRIVE then Ret s
     else if bd_blk_size bd \<noteq> 512 then Ret s
     else seq (blkdev_rd r stk 0 1 s) (\<lambda>(rc, buf, s).
       if rc \<noteq> 0 then Ret s
       else if mbr_verify (mbr_of buf) None \<noteq> 0 then Ret s
       else for_each (mb_ents (mbr_of buf)) (mbr_mk_part r) s))"

text \<open>\<open>stk\<close> is what the buffer of 512 bytes on the stack holds before it is read into.\<close>

definition mbr_find :: "u8 list \<Rightarrow> ('d, 'h, 'k) disks \<Rightarrow> ('d, 'h, 'k) disks exec" where
  "mbr_find stk s = for_each (fst (blkdevs_get s)) (mbr_dev stk) s"

subsection \<open>The partitions of a disk\<close>

text \<open>The ranges of a partition table, and the children a device with it ends up with.\<close>

definition mbr_ranges :: "u8 list \<Rightarrow> (u64 \<times> u64) list" where
  "mbr_ranges buf = map (\<lambda>e. (ucast (me_start_lba e), ucast (me_nsector e))) (filter (\<lambda>e. me_type e \<noteq> 0) (mb_ents (mbr_of buf)))"

definition add_part :: "nat \<Rightarrow> ('d, 'h) blkdev \<Rightarrow> ('d, 'h) blkdev list \<Rightarrow> u64 \<times> u64 \<Rightarrow> ('d, 'h) blkdev list" where
  "add_part i bd cs rg = (case rg of (base, limit) \<Rightarrow>
     if length cs < BLKDEV_MAX_PARTS \<and> unat base + unat limit \<le> unat (bd_nblk bd)
     then cs @ [mk_part_of i bd base limit] else cs)"

definition mbr_disk :: "('d, 'h) blkdev \<Rightarrow> u8 list \<Rightarrow> bool" where
  "mbr_disk bd buf \<longleftrightarrow> bd_dev_type bd = BDT_DISK_DRIVE \<and> bd_blk_size bd = 512 \<and> 0 < bd_nblk bd \<and> rd16 buf 510 = 0xaa55"

definition mbr_slot :: "nat \<Rightarrow> ('d, 'h) bd_slot \<Rightarrow> u8 list \<Rightarrow> ('d, 'h) bd_slot" where
  "mbr_slot i sl buf = (fst sl, if mbr_disk (fst sl) buf then foldl (add_part i (fst sl)) (snd sl) (mbr_ranges buf) else snd sl)"

lemma u32_sum: "unat (ucast (a :: u32) :: u64) + unat (ucast (b :: u32) :: u64) < 2 ^ 64"
proof -
  have "unat a < 2 ^ 32" "unat b < 2 ^ 32" using unsigned_less [of a] unsigned_less [of b] by simp_all
  then show ?thesis by (simp add: unat_ucast_u32)
qed

lemma mk_part_add:
  assumes ok: "bd_ok s" and i: "i < length (dk_slots s)" and w: "unat base + unat limit < 2 ^ 64"
  shows "\<exists>r. blkdev_mk_part (Dev i) base limit s =
      Ret (r, s\<lparr>dk_slots := (dk_slots s)[i := (fst (dk_slots s ! i), add_part i (fst (dk_slots s ! i)) (snd (dk_slots s ! i)) (base, limit))]\<rparr>)"
proof -
  obtain bd cs where sl: "dk_slots s ! i = (bd, cs)" by fastforce
  have le: "base + limit > bd_nblk bd \<longleftrightarrow> unat (bd_nblk bd) < unat base + unat limit"
    using w by (simp add: word_less_nat_alt unat_add_u64)
  have "(dk_slots s)[i := (bd, cs)] = dk_slots s" using i sl by (metis list_update_id)
  then show ?thesis
    by (auto simp: blkdev_mk_part_dev [OF ok i] sl add_part_def Let_def le)
qed

context blk_driver
begin

lemma served_add_part:
  assumes s: "served s" and i: "i < length (dk_slots s)" and w: "unat base + unat limit < 2 ^ 64"
  shows "\<exists>r s'. blkdev_mk_part (Dev i) base limit s = Ret (r, s') \<and> served s' \<and> dk_hw s' = dk_hw s \<and> dk_heap s' = dk_heap s \<and>
     dk_slots s' = (dk_slots s)[i := (fst (dk_slots s ! i), add_part i (fst (dk_slots s ! i)) (snd (dk_slots s ! i)) (base, limit))]"
proof -
  let ?bd = "fst (dk_slots s ! i)" and ?cs = "snd (dk_slots s ! i)"
  let ?s = "s\<lparr>dk_slots := (dk_slots s)[i := (?bd, add_part i ?bd ?cs (base, limit))]\<rparr>"
  have ok: "bd_ok s" using s by (simp add: served_def)
  obtain r where r: "blkdev_mk_part (Dev i) base limit s = Ret (r, ?s)" using mk_part_add [OF ok i w] by blast
  have ok': "bd_ok ?s" by (rule blkdev_mk_part_ok [OF ok i w r])
  have d: "dev_ok ?bd" "bd_part_base ?bd = 0" "\<forall>c \<in> set ?cs. dev_ok c" using s i by (auto simp: served_def)
  have "dev_ok (mk_part_of i ?bd base limit)" if "unat base + unat limit \<le> unat (bd_nblk ?bd)"
    using d(1,2) that by (auto simp: dev_ok_def mk_part_of_def)
  then have "\<forall>c \<in> set (add_part i ?bd ?cs (base, limit)). dev_ok c" using d(3) by (auto simp: add_part_def)
  then have "served ?s" using s ok' d i by (auto simp: served_def nth_list_update)
  then show ?thesis using r by auto
qed

lemma mbr_entries:
  assumes "i < length (dk_slots s)"
  shows "served s \<Longrightarrow>
    \<exists>s'. for_each es (mbr_mk_part (Dev i)) s = Ret s' \<and> served s' \<and> dk_hw s' = dk_hw s \<and> dk_heap s' = dk_heap s \<and>
     dk_slots s' = (dk_slots s)[i := (fst (dk_slots s ! i), foldl (add_part i (fst (dk_slots s ! i))) (snd (dk_slots s ! i))
       (map (\<lambda>e. (ucast (me_start_lba e), ucast (me_nsector e))) (filter (\<lambda>e. me_type e \<noteq> 0) es)))]"
  using assms
proof (induction es arbitrary: s)
  case Nil
  then show ?case by simp
next
  case (Cons e es)
  show ?case
  proof (cases "me_type e = 0")
    case True
    then show ?thesis using Cons by (simp add: mbr_mk_part_def)
  next
    case False
    obtain r s1 where s1: "blkdev_mk_part (Dev i) (ucast (me_start_lba e)) (ucast (me_nsector e)) s = Ret (r, s1)"
      "served s1" "dk_hw s1 = dk_hw s" "dk_heap s1 = dk_heap s"
      "dk_slots s1 = (dk_slots s)[i := (fst (dk_slots s ! i), add_part i (fst (dk_slots s ! i)) (snd (dk_slots s ! i))
        (ucast (me_start_lba e), ucast (me_nsector e)))]"
      using served_add_part [OF Cons.prems u32_sum] by blast
    have i1: "i < length (dk_slots s1)" using s1(5) Cons.prems by simp
    have h: "dk_slots s1 ! i = (fst (dk_slots s ! i), add_part i (fst (dk_slots s ! i)) (snd (dk_slots s ! i))
        (ucast (me_start_lba e), ucast (me_nsector e)))" using s1(5) Cons.prems by simp
    show ?thesis using Cons.IH [OF s1(2) i1] False by (simp add: mbr_mk_part_def s1(1,3,4) h) (simp add: s1(5))
  qed
qed

lemma mbr_dev_run:
  assumes s: "served s" and i: "i < length (dk_slots s)" and stk: "length stk = 512"
  shows "\<exists>s'. mbr_dev stk (Dev i) s = Ret s' \<and> served s' \<and> sector (dk_hw s') = sector (dk_hw s) \<and> dk_heap s' = dk_heap s \<and>
     dk_slots s' = (dk_slots s)[i := mbr_slot i (dk_slots s ! i) (block (fst (dk_slots s ! i)) (dk_hw s) 0)]"
proof -
  let ?bd = "fst (dk_slots s ! i)"
  have g: "bd_get (Dev i) s = Ret ?bd" "bd_at (Dev i) (dk_slots s) = Some ?bd" using i by (simp_all add: bd_get_def)
  have same: "(dk_slots s)[i := (?bd, snd (dk_slots s ! i))] = dk_slots s" by simp
  show ?thesis
  proof (cases "bd_dev_type ?bd = BDT_DISK_DRIVE \<and> bd_blk_size ?bd = 512")
    case False
    then show ?thesis using s same by (auto simp: mbr_dev_def g mbr_slot_def mbr_disk_def)
  next
    case True
    show ?thesis
    proof (cases "0 < bd_nblk ?bd")
      case False
      then have z: "bd_nblk ?bd = 0" by (simp add: word_gt_0)
      have "blkdev_rd (Dev i) stk 0 1 s = Ret (1, stk, s)"
        using blkdev_rd_dev [OF _ i, of stk 0 1] s by (simp add: z served_def)
      then show ?thesis using True z s same by (simp add: mbr_dev_def g mbr_slot_def mbr_disk_def)
    next
      case nz: True
      let ?b = "block ?bd (dk_hw s) 0"
      obtain h where h: "blkdev_rd (Dev i) stk 0 1 s = Ret (0, ?b @ drop (unat (bd_blk_size ?bd)) stk, s\<lparr>dk_hw := h\<rparr>)"
        "served (s\<lparr>dk_hw := h\<rparr>)" "sector h = sector (dk_hw s)"
        using blkdev_rd_one [OF s g(2) nz, of stk] True stk by auto
      have r: "blkdev_rd (Dev i) stk 0 1 s = Ret (0, ?b, s\<lparr>dk_hw := h\<rparr>)" using h(1) True stk by simp
      have sig: "mbr_verify (mbr_of ?b) None \<noteq> 0 \<longleftrightarrow> rd16 ?b 510 \<noteq> 0xaa55" by (simp add: mbr_verify_def mbr_of_def)
      show ?thesis
      proof (cases "rd16 ?b 510 = 0xaa55")
        case False
        then show ?thesis using True r sig h(2,3) same by (simp add: mbr_dev_def g mbr_slot_def mbr_disk_def)
      next
        case True': True
        have "mbr_dev stk (Dev i) s = for_each (mb_ents (mbr_of ?b)) (mbr_mk_part (Dev i)) (s\<lparr>dk_hw := h\<rparr>)"
          using True True' r sig by (simp add: mbr_dev_def g)
        moreover have "mbr_disk ?bd ?b" using True True' nz by (simp add: mbr_disk_def)
        ultimately show ?thesis
          using mbr_entries [OF _ h(2), of i "mb_ents (mbr_of ?b)"] i h(3)
          by (auto simp: mbr_slot_def mbr_ranges_def)
      qed
    qed
  qed
qed

lemma mbr_find_upto:
  assumes s: "served s" and stk: "length stk = 512"
  shows "k \<le> length (dk_slots s) \<Longrightarrow>
    \<exists>s'. for_each (map Dev [0..<k]) (mbr_dev stk) s = Ret s' \<and> served s' \<and> sector (dk_hw s') = sector (dk_hw s) \<and> dk_heap s' = dk_heap s \<and>
      length (dk_slots s') = length (dk_slots s) \<and>
      (\<forall>i < length (dk_slots s). dk_slots s' ! i =
         (if i < k then mbr_slot i (dk_slots s ! i) (block (fst (dk_slots s ! i)) (dk_hw s) 0) else dk_slots s ! i))"
proof (induction k)
  case 0
  then show ?case using s by simp
next
  case (Suc k)
  then obtain t where t: "for_each (map Dev [0..<k]) (mbr_dev stk) s = Ret t" "served t" "sector (dk_hw t) = sector (dk_hw s)"
    "dk_heap t = dk_heap s" "length (dk_slots t) = length (dk_slots s)"
    "\<And>i. i < length (dk_slots s) \<Longrightarrow> dk_slots t ! i =
         (if i < k then mbr_slot i (dk_slots s ! i) (block (fst (dk_slots s ! i)) (dk_hw s) 0) else dk_slots s ! i)"
    by auto
  have k: "k < length (dk_slots t)" using Suc.prems t(5) by simp
  obtain u where u: "mbr_dev stk (Dev k) t = Ret u" "served u" "sector (dk_hw u) = sector (dk_hw t)" "dk_heap u = dk_heap t"
    "dk_slots u = (dk_slots t)[k := mbr_slot k (dk_slots t ! k) (block (fst (dk_slots t ! k)) (dk_hw t) 0)]"
    using mbr_dev_run [OF t(2) k stk] by blast
  have "dk_slots t ! k = dk_slots s ! k" using t(6) [of k] Suc.prems by simp
  moreover have "block bd (dk_hw t) 0 = block bd (dk_hw s) 0" for bd by (simp add: block_def t(3))
  ultimately have "dk_slots u = (dk_slots t)[k := mbr_slot k (dk_slots s ! k) (block (fst (dk_slots s ! k)) (dk_hw s) 0)]"
    using u(5) by simp
  then show ?case
    using t u k by (auto simp: for_each_append nth_list_update less_Suc_eq)
qed

lemma mbr_find_run:
  assumes "served s" and "length stk = 512"
  shows "\<exists>s'. mbr_find stk s = Ret s' \<and> served s' \<and> sector (dk_hw s') = sector (dk_hw s) \<and> dk_heap s' = dk_heap s \<and>
      length (dk_slots s') = length (dk_slots s) \<and>
      (\<forall>i < length (dk_slots s). dk_slots s' ! i = mbr_slot i (dk_slots s ! i) (block (fst (dk_slots s ! i)) (dk_hw s) 0))"
  using mbr_find_upto [OF assms order.refl] by (simp add: mbr_find_def blkdevs_get_def)

end

subsection \<open>A disk with one partition\<close>

definition mbr_img :: "nat \<Rightarrow> u16 list" where
  "mbr_img n =
     (if n = 0 then replicate 223 0 @ [0x0080, 0, 0x0006, 0, 2, 0, 3, 0] @ replicate 24 0 @ [0xaa55]
      else replicate 256 0)"

definition mbr_dev0 :: ata_pio_dev where
  "mbr_dev0 = \<lparr>ad_sector_size = 512, ad_nsector = 16, ad_bus_io_port = 0x1f0, ad_bus_ctl_port = 0x3f6,
     ad_dev_num = 0, ad_support = 1\<rparr>"

definition mbr_disks :: "(ata_pio_dev, ram_ata ata, unit) disks" where
  "mbr_disks = \<lparr>dk_slots = [(\<lparr>bd_driver_data = mbr_dev0, bd_rd = Some (ata_pio_blkdev_rd ram_bus),
       bd_wr = Some (ata_pio_blkdev_wr ram_bus), bd_children = 0x1000, bd_part_base = 0, bd_flags = 0,
       bd_dev_type = BDT_DISK_DRIVE, bd_driver = BD_ATA_PIO, bd_blk_size = 512, bd_nblk = 16, bd_mutex = 0,
       bd_parent_mutex = None\<rparr>, [])],
     dk_hw = ram_ata_of mbr_img, dk_heap = ()\<rparr>"

lemma mbr_disks_served: "ata.served ram_bus ra_idle ra_tf ra_words {mbr_dev0} mbr_disks"
proof -
  have "ata_ready ram_bus ra_idle ra_tf ra_words {mbr_dev0} (ram_ata_of mbr_img)"
    by (rule ram_ready_of) (simp_all add: mbr_dev0_def mbr_img_def)
  then show ?thesis
    by (simp add: ata.served_def ata.dev_ok_def mbr_disks_def bd_ok_def slot_ok_def ata_valid_def dev_addressable_def
        mbr_dev0_def ata_buses_def)
qed

lemma zero_pairs: "concat (replicate n [0, 0]) = replicate (2 * n) 0"
  by (induction n) simp_all

definition mbr_bytes :: "u8 list" where
  "mbr_bytes = replicate 446 0 @ [0x80, 0, 0, 0, 6, 0, 0, 0, 2, 0, 0, 0, 3, 0, 0, 0] @ replicate 48 0 @ [0x55, 0xaa]"

lemma mbr_block: "ata.block ra_words (fst (dk_slots mbr_disks ! 0)) (dk_hw mbr_disks) 0 = mbr_bytes"
  by (simp add: ata.block_def mbr_disks_def ata_sector_def ram_ata_of_def ra_words_def mbr_dev0_def mbr_img_def
      word_bytes_def zero_pairs mbr_bytes_def)

lemma mbr_bytes_fields: "mbr_ranges mbr_bytes = [(2, 3)]" "rd16 mbr_bytes 510 = 0xaa55"
proof -
  have d: "drop 446 mbr_bytes = [0x80, 0, 0, 0, 6, 0, 0, 0, 2, 0, 0, 0, 3, 0, 0, 0] @ replicate 48 0 @ [0x55, 0xaa]"
    by (simp add: mbr_bytes_def)
  have d2: "drop (446 + k) mbr_bytes = drop k (drop 446 mbr_bytes)" for k by (simp add: add.commute)
  have n: "mbr_bytes ! (446 + k) = drop 446 mbr_bytes ! k" for k
  proof -
    have "length mbr_bytes = 512" by (simp add: mbr_bytes_def)
    then show ?thesis by simp
  qed
  have z: "rd8 mbr_bytes 466 = 0" "rd8 mbr_bytes 482 = 0" "rd8 mbr_bytes 498 = 0"
    using n [of 20] n [of 36] n [of 52] by (simp_all add: rd8_def d nth_append)
  have e: "rd8 mbr_bytes 450 = 6" using n [of 4] by (simp add: rd8_def d)
  have f: "rd32 mbr_bytes 454 = 2" "rd32 mbr_bytes 458 = 3"
    using d2 [of 8] d2 [of 12] by (simp_all add: rd32_def d)
  have u: "[0..<4] = [0, 1, 2, 3 :: nat]" by (simp add: upt_rec)
  show "mbr_ranges mbr_bytes = [(2, 3)]"
    by (simp add: mbr_ranges_def mbr_of_def mbr_ent_of_def u z e f)
  show "rd16 mbr_bytes 510 = 0xaa55" using d2 [of 64] by (simp add: rd16_def d)
qed

subsection \<open>Properties\<close>

text \<open>
  C18: on disks that work, \<open>mbr_find\<close> returns, and every disk drive with blocks of 512 bytes whose
  first block has the signature gets, behind the children it has, one partition for every used entry of
  its table, in their order, as long as there are fewer than 32 and the range is inside the disk;
  all other devices, and what is on the disks, stay as they are.
\<close>
theorem mbr_find_partitions:
  assumes "ata.served bus idle tf disk D s" and "length stk = 512"
  shows "\<exists>s'. mbr_find stk s = Ret s' \<and> ata.served bus idle tf disk D s' \<and>
      ata_sector disk (dk_hw s') = ata_sector disk (dk_hw s) \<and> length (dk_slots s') = length (dk_slots s) \<and>
      (\<forall>i < length (dk_slots s). dk_slots s' ! i =
         mbr_slot i (dk_slots s ! i) (ata.block disk (fst (dk_slots s ! i)) (dk_hw s) 0))"
  using ata.mbr_find_run [OF assms] by blast

theorem mbr_find_partitions_witness:
  "\<exists>s'. mbr_find (replicate 512 0) mbr_disks = Ret s' \<and>
     dk_slots s' = [(fst (dk_slots mbr_disks ! 0), [mk_part_of 0 (fst (dk_slots mbr_disks ! 0)) 2 3])]"
proof -
  obtain s' where s': "mbr_find (replicate 512 0) mbr_disks = Ret s'" "length (dk_slots s') = 1"
    "dk_slots s' ! 0 = mbr_slot 0 (dk_slots mbr_disks ! 0) mbr_bytes"
    using mbr_find_partitions [OF mbr_disks_served, of "replicate 512 0"] mbr_block by (auto simp: mbr_disks_def)
  have "mbr_slot 0 (dk_slots mbr_disks ! 0) mbr_bytes =
      (fst (dk_slots mbr_disks ! 0), [mk_part_of 0 (fst (dk_slots mbr_disks ! 0)) 2 3])"
    by (simp add: mbr_slot_def mbr_disk_def mbr_bytes_fields add_part_def) (simp add: mbr_disks_def)
  then show ?thesis using s' by (cases "dk_slots s'") auto
qed

end
