(* ===== verification/Descriptors.thy ===== *)
theory Descriptors
  imports Ports
begin

section \<open>Descriptor tables and the interrupt controller (gdt.c, idt.c, isr\_except.c, pic.c, arch\_master.c)\<close>

text \<open>
  The two descriptor tables as data, with the decoding the processor applies to them; the table of exception
  handlers; the programming of the two 8259 interrupt controllers.  The addresses of the tables and of the
  handlers, which the linker fixes, are arguments.
\<close>

abbreviation GA_RW :: u8 where "GA_RW \<equiv> 0x2"
abbreviation GA_E :: u8 where "GA_E \<equiv> 0x8"
abbreviation GA_S :: u8 where "GA_S \<equiv> 0x10"
abbreviation GA_P :: u8 where "GA_P \<equiv> 0x80"
abbreviation GF_L :: u8 where "GF_L \<equiv> 0x20"
abbreviation GF_G :: u8 where "GF_G \<equiv> 0x80"
abbreviation GS_KERNEL_CODE :: u16 where "GS_KERNEL_CODE \<equiv> 0x8"
abbreviation GS_KERNEL_DATA :: u16 where "GS_KERNEL_DATA \<equiv> 0x10"
abbreviation IGT_INT :: u8 where "IGT_INT \<equiv> 0x8e"
abbreviation IGT_TRAP :: u8 where "IGT_TRAP \<equiv> 0x8f"

subsection \<open>Segments\<close>

record gdt_ent =
  ge_lim_0 :: u16
  ge_base_0 :: u16
  ge_base_1 :: u8
  ge_access :: u8
  ge_lim_1_flags :: u8
  ge_base_2 :: u8

definition GA_DPL :: "u8 \<Rightarrow> u8" where
  "GA_DPL dpl = push_bit 5 dpl"

definition gdt :: "gdt_ent list" where
  "gdt =
     [\<lparr>ge_lim_0 = 0, ge_base_0 = 0, ge_base_1 = 0, ge_access = 0, ge_lim_1_flags = 0, ge_base_2 = 0\<rparr>,
      \<lparr>ge_lim_0 = 0xffff, ge_base_0 = 0, ge_base_1 = 0, ge_access = GA_E OR GA_S OR GA_P OR GA_DPL 0,
       ge_lim_1_flags = 0xf OR GF_L OR GF_G, ge_base_2 = 0\<rparr>,
      \<lparr>ge_lim_0 = 0xffff, ge_base_0 = 0, ge_base_1 = 0, ge_access = GA_RW OR GA_S OR GA_P OR GA_DPL 0,
       ge_lim_1_flags = 0xf OR GF_G, ge_base_2 = 0\<rparr>]"

text \<open>\<open>struct gdtr\<close> and \<open>struct idtr\<close>, and what of the processor the loading of the tables changes.\<close>

record desc_reg =
  dr_size :: u16
  dr_base :: u64

record seg_regs =
  sg_gdtr :: desc_reg
  sg_idtr :: desc_reg
  sg_cs :: u16
  sg_data :: "u16 list"
  sg_if :: bool

text \<open>\<open>lgdt\<close>, the data selectors (ds, es, fs, gs, ss), and the far return that loads cs.\<close>

definition gdt_load :: "desc_reg \<Rightarrow> seg_regs \<Rightarrow> seg_regs" where
  "gdt_load gdtr c = c\<lparr>sg_gdtr := gdtr, sg_data := [0x10, 0x10, 0x10, 0x10, 0x10], sg_cs := 0x8\<rparr>"

definition gdt_init :: "u64 \<Rightarrow> seg_regs \<Rightarrow> seg_regs" where
  "gdt_init gdt_addr c = gdt_load \<lparr>dr_size = of_nat (8 * length gdt) - 1, dr_base = gdt_addr\<rparr> c"

text \<open>How the processor reads a segment descriptor.\<close>

definition seg_base :: "gdt_ent \<Rightarrow> u32" where
  "seg_base e = ucast (ge_base_0 e) OR push_bit 16 (ucast (ge_base_1 e)) OR push_bit 24 (ucast (ge_base_2 e))"

definition seg_code64 :: "gdt_ent \<Rightarrow> bool" where
  "seg_code64 e \<longleftrightarrow> bit (ge_access e) 7 \<and> bit (ge_access e) 4 \<and> bit (ge_access e) 3 \<and> bit (ge_lim_1_flags e) 5 \<and>
     \<not> bit (ge_lim_1_flags e) 6"

definition seg_data_rw :: "gdt_ent \<Rightarrow> bool" where
  "seg_data_rw e \<longleftrightarrow> bit (ge_access e) 7 \<and> bit (ge_access e) 4 \<and> \<not> bit (ge_access e) 3 \<and> bit (ge_access e) 1"

definition seg_dpl :: "gdt_ent \<Rightarrow> u8" where
  "seg_dpl e = drop_bit 5 (ge_access e) AND 3"

text \<open>The descriptor a selector names: its index is the selector without the low three bits.\<close>

definition sel_desc :: "u16 \<Rightarrow> gdt_ent option" where
  "sel_desc sel = (let i = unat sel div 8 in if 0 < i \<and> i < length gdt then Some (gdt ! i) else None)"

lemma gdt_selectors:
  "\<exists>e. sel_desc GS_KERNEL_CODE = Some e \<and> seg_code64 e \<and> seg_dpl e = 0 \<and> seg_base e = 0"
  "\<exists>e. sel_desc GS_KERNEL_DATA = Some e \<and> seg_data_rw e \<and> seg_dpl e = 0 \<and> seg_base e = 0"
  by (simp_all add: sel_desc_def gdt_def seg_code64_def seg_data_rw_def seg_dpl_def seg_base_def GA_DPL_def bit_simps)

subsection \<open>Interrupt gates\<close>

record idt_ent =
  ie_base_0 :: u16
  ie_sel :: u16
  ie_ist :: u8
  ie_type_attr :: u8
  ie_base_1 :: u16
  ie_base_2 :: u32
  ie_zero :: u32

definition mk_idt_ent :: "u64 \<Rightarrow> u8 \<Rightarrow> idt_ent" where
  "mk_idt_ent addr type_attr =
     \<lparr>ie_base_0 = ucast (addr AND 0xffff), ie_sel = GS_KERNEL_CODE, ie_ist = 0, ie_type_attr = type_attr,
      ie_base_1 = ucast (drop_bit 16 (addr AND 0xffff0000)),
      ie_base_2 = ucast (drop_bit 32 (addr AND 0xffffffff00000000)), ie_zero = 0\<rparr>"

definition idt_set_isr :: "nat \<Rightarrow> u64 \<Rightarrow> u8 \<Rightarrow> idt_ent list \<Rightarrow> idt_ent list exec" where
  "idt_set_isr vec addr type_attr idt =
     (if vec < length idt then Ret (idt[vec := mk_idt_ent addr type_attr]) else Fault)"

text \<open>
  The table of the exceptions, with \<open>head v\<close> the address of \<open>isr_except_v_head\<close>.
\<close>

definition isr_except_spec_tab :: "(nat \<Rightarrow> u64) \<Rightarrow> (u64 \<times> u8) list" where
  "isr_except_spec_tab head =
     [(head 0x0, IGT_INT), (head 0x1, IGT_TRAP), (head 0x2, IGT_INT), (head 0x3, IGT_TRAP), (head 0x4, IGT_TRAP),
      (head 0x5, IGT_INT), (head 0x6, IGT_INT), (head 0x7, IGT_INT), (head 0x8, IGT_INT), (head 0x9, IGT_INT),
      (head 0xa, IGT_INT), (head 0xb, IGT_INT), (head 0xc, IGT_INT), (head 0xd, IGT_INT), (head 0xe, IGT_INT),
      (0, 0), (head 0x10, IGT_INT), (head 0x11, IGT_INT), (head 0x12, IGT_INT), (head 0x13, IGT_INT),
      (head 0x14, IGT_INT), (head 0x15, IGT_INT), (0, 0), (0, 0), (0, 0), (0, 0), (0, 0), (0, 0),
      (head 0x1c, IGT_INT), (head 0x1d, IGT_INT), (head 0x1e, IGT_INT), (0, 0)]"

definition idt_load :: "desc_reg \<Rightarrow> seg_regs \<Rightarrow> seg_regs" where
  "idt_load idtr c = c\<lparr>sg_idtr := idtr, sg_if := True\<rparr>"

definition idt_init :: "u64 \<Rightarrow> (nat \<Rightarrow> u64) \<Rightarrow> u64 \<Rightarrow> idt_ent list \<Rightarrow> seg_regs \<Rightarrow> (idt_ent list \<times> seg_regs) exec" where
  "idt_init idt_addr head isr_default_head idt c =
     seq (for_each [0..<32] (\<lambda>i. case isr_except_spec_tab head ! i of (addr, gate) \<Rightarrow> idt_set_isr i addr gate) idt) (\<lambda>idt.
     seq (for_each [32..<256] (\<lambda>i. idt_set_isr i isr_default_head IGT_INT) idt) (\<lambda>idt.
     Ret (idt, idt_load \<lparr>dr_size = of_nat (16 * length idt) - 1, dr_base = idt_addr\<rparr> c)))"

text \<open>How the processor reads a gate: the address of the handler, and whether it is present.\<close>

definition gate_addr :: "idt_ent \<Rightarrow> u64" where
  "gate_addr e = ucast (ie_base_0 e) OR push_bit 16 (ucast (ie_base_1 e)) OR push_bit 32 (ucast (ie_base_2 e))"

definition gate_present :: "idt_ent \<Rightarrow> bool" where
  "gate_present e \<longleftrightarrow> bit (ie_type_attr e) 7"

lemma split_addr:
  fixes addr :: u64
  shows "ucast (ucast (addr AND mask 16) :: u16) OR push_bit 16 (ucast (ucast (drop_bit 16 (addr AND push_bit 16 (mask 16))) :: u16)) OR
    push_bit 32 (ucast (ucast (drop_bit 32 (addr AND push_bit 32 (mask 32))) :: u32)) = addr"
    (is "?l = addr")
proof (rule bit_word_eqI)
  fix n assume "n < LENGTH(64)"
  then consider "n < 16" | "16 \<le> n" "n < 32" | "32 \<le> n" "n < 64" by fastforce
  then show "bit ?l n = bit addr n" by cases (auto simp: bit_simps)
qed

lemma gate_addr_mk: "gate_addr (mk_idt_ent addr ty) = addr"
proof -
  have m: "(0xffff :: u64) = mask 16" "(0xffff0000 :: u64) = push_bit 16 (mask 16)" "(0xffffffff00000000 :: u64) = push_bit 32 (mask 32)"
    by (simp_all add: mask_eq_exp_minus_1)
  show ?thesis
    using split_addr [of addr] by (simp only: gate_addr_def mk_idt_ent_def m idt_ent.select_convs)
qed

lemma set_isr_range:
  "h \<le> length idt \<Longrightarrow> l \<le> h \<Longrightarrow>
   \<exists>t. for_each [l..<h] (\<lambda>i. idt_set_isr i (a i) (g i)) idt = Ret t \<and> length t = length idt \<and>
     (\<forall>j < length idt. t ! j = (if l \<le> j \<and> j < h then mk_idt_ent (a j) (g j) else idt ! j))"
proof (induction h)
  case 0
  then show ?case by simp
next
  case (Suc h)
  show ?case
  proof (cases "l = Suc h")
    case True
    then show ?thesis by auto
  next
    case False
    then obtain t where t: "for_each [l..<h] (\<lambda>i. idt_set_isr i (a i) (g i)) idt = Ret t" "length t = length idt"
      "\<And>j. j < length idt \<Longrightarrow> t ! j = (if l \<le> j \<and> j < h then mk_idt_ent (a j) (g j) else idt ! j)"
      using Suc by auto
    have "for_each [l..<Suc h] (\<lambda>i. idt_set_isr i (a i) (g i)) idt = Ret (t[h := mk_idt_ent (a h) (g h)])"
      using False Suc.prems t(1,2) by (simp add: for_each_append) (simp add: idt_set_isr_def)
    moreover have "t[h := mk_idt_ent (a h) (g h)] ! j = (if l \<le> j \<and> j < Suc h then mk_idt_ent (a j) (g j) else idt ! j)"
      if "j < length idt" for j
      using that t False Suc.prems by (auto simp: nth_list_update)
    ultimately show ?thesis using t(2) by auto
  qed
qed

lemma idt_init_table:
  assumes "length idt = 256"
  shows "\<exists>t c'. idt_init idt_addr head dflt idt c = Ret (t, c') \<and> length t = 256 \<and> sg_if c' \<and> dr_base (sg_idtr c') = idt_addr \<and>
     unat (dr_size (sg_idtr c')) + 1 = 16 * 256 \<and>
     (\<forall>v < 256. t ! v = (if v < 32 then mk_idt_ent (fst (isr_except_spec_tab head ! v)) (snd (isr_except_spec_tab head ! v))
        else mk_idt_ent dflt IGT_INT))"
proof -
  let ?a = "\<lambda>i. fst (isr_except_spec_tab head ! i)" and ?g = "\<lambda>i. snd (isr_except_spec_tab head ! i)"
  obtain t1 where t1: "for_each [0..<32] (\<lambda>i. idt_set_isr i (?a i) (?g i)) idt = Ret t1" "length t1 = length idt"
    "\<And>j. j < length idt \<Longrightarrow> t1 ! j = (if 0 \<le> j \<and> j < 32 then mk_idt_ent (?a j) (?g j) else idt ! j)"
    using set_isr_range [of 32 idt 0 ?a ?g] assms by (auto simp del: upt_rec_numeral)
  obtain t2 where t2: "for_each [32..<256] (\<lambda>i. idt_set_isr i dflt IGT_INT) t1 = Ret t2" "length t2 = length t1"
    "\<And>j. j < length t1 \<Longrightarrow> t2 ! j = (if 32 \<le> j \<and> j < 256 then mk_idt_ent dflt IGT_INT else t1 ! j)"
    using set_isr_range [of 256 t1 32 "\<lambda>i. dflt" "\<lambda>i. IGT_INT"] t1(2) assms by (auto simp del: upt_rec_numeral)
  show ?thesis
    using t1 t2 assms by (auto simp: idt_init_def case_prod_beta idt_load_def simp del: upt_rec_numeral)
qed

subsection \<open>The interrupt controllers\<close>

abbreviation PORT_PIC1_CMD :: u16 where "PORT_PIC1_CMD \<equiv> 0x20"
abbreviation PORT_PIC1_DATA :: u16 where "PORT_PIC1_DATA \<equiv> 0x21"
abbreviation PORT_PIC2_CMD :: u16 where "PORT_PIC2_CMD \<equiv> 0xa0"
abbreviation PORT_PIC2_DATA :: u16 where "PORT_PIC2_DATA \<equiv> 0xa1"
abbreviation PORT_IGNORE :: u16 where "PORT_IGNORE \<equiv> 0x80"
abbreviation ICW1_ICW4 :: u8 where "ICW1_ICW4 \<equiv> 0x1"
abbreviation ICW1_INIT :: u8 where "ICW1_INIT \<equiv> 0x10"
abbreviation ICW4_8086 :: u8 where "ICW4_8086 \<equiv> 0x1"

definition pic_init :: "'b bus \<Rightarrow> 'b \<Rightarrow> 'b" where
  "pic_init bus b =
     (let b = out_8 bus PORT_PIC1_CMD (ICW1_ICW4 OR ICW1_INIT) b;
          b = out_8 bus PORT_IGNORE 0 b;
          b = out_8 bus PORT_PIC2_CMD (ICW1_ICW4 OR ICW1_INIT) b;
          b = out_8 bus PORT_IGNORE 0 b;
          b = out_8 bus PORT_PIC1_DATA 0x20 b;
          b = out_8 bus PORT_IGNORE 0 b;
          b = out_8 bus PORT_PIC2_DATA 0x28 b;
          b = out_8 bus PORT_IGNORE 0 b;
          b = out_8 bus PORT_PIC1_DATA 4 b;
          b = out_8 bus PORT_IGNORE 0 b;
          b = out_8 bus PORT_PIC2_DATA 2 b;
          b = out_8 bus PORT_IGNORE 0 b;
          b = out_8 bus PORT_PIC1_DATA ICW4_8086 b;
          b = out_8 bus PORT_IGNORE 0 b;
          b = out_8 bus PORT_PIC2_DATA ICW4_8086 b;
          b = out_8 bus PORT_IGNORE 0 b;
          b = out_8 bus PORT_PIC1_DATA 0xff b
      in out_8 bus PORT_PIC2_DATA 0xff b)"

text \<open>
  An 8259: a command byte with bit 4 starts the initialisation, after which the data port takes the vector
  base, the cascade, and, if it was announced, the mode; otherwise the data port is the interrupt mask.
\<close>

record i8259 =
  pi_base :: u8
  pi_cascade :: u8
  pi_mode :: u8
  pi_mask :: u8
  pi_icw4 :: bool
  pi_step :: nat

definition i8259_cmd :: "u8 \<Rightarrow> i8259 \<Rightarrow> i8259" where
  "i8259_cmd v p = (if v AND 0x10 \<noteq> 0 then p\<lparr>pi_icw4 := (v AND 0x1 \<noteq> 0), pi_mask := 0, pi_step := 1\<rparr> else p)"

definition i8259_data :: "u8 \<Rightarrow> i8259 \<Rightarrow> i8259" where
  "i8259_data v p =
     (if pi_step p = 1 then p\<lparr>pi_base := v AND 0xf8, pi_step := 2\<rparr>
      else if pi_step p = 2 then p\<lparr>pi_cascade := v, pi_step := (if pi_icw4 p then 3 else 0)\<rparr>
      else if pi_step p = 3 then p\<lparr>pi_mode := v, pi_step := 0\<rparr>
      else p\<lparr>pi_mask := v\<rparr>)"

definition pics_ok :: "'b bus \<Rightarrow> ('b \<Rightarrow> i8259) \<Rightarrow> ('b \<Rightarrow> i8259) \<Rightarrow> bool" where
  "pics_ok bus pic1 pic2 \<longleftrightarrow> (\<forall>b v.
     pic1 (out_8 bus 0x20 v b) = i8259_cmd v (pic1 b) \<and> pic2 (out_8 bus 0x20 v b) = pic2 b \<and>
     pic1 (out_8 bus 0x21 v b) = i8259_data v (pic1 b) \<and> pic2 (out_8 bus 0x21 v b) = pic2 b \<and>
     pic1 (out_8 bus 0xa0 v b) = pic1 b \<and> pic2 (out_8 bus 0xa0 v b) = i8259_cmd v (pic2 b) \<and>
     pic1 (out_8 bus 0xa1 v b) = pic1 b \<and> pic2 (out_8 bus 0xa1 v b) = i8259_data v (pic2 b) \<and>
     pic1 (out_8 bus 0x80 v b) = pic1 b \<and> pic2 (out_8 bus 0x80 v b) = pic2 b)"

lemma pic_init_state:
  assumes "pics_ok bus pic1 pic2"
  shows "pic1 (pic_init bus b) = \<lparr>pi_base = 0x20, pi_cascade = 4, pi_mode = 1, pi_mask = 0xff, pi_icw4 = True, pi_step = 0\<rparr>"
    and "pic2 (pic_init bus b) = \<lparr>pi_base = 0x28, pi_cascade = 2, pi_mode = 1, pi_mask = 0xff, pi_icw4 = True, pi_step = 0\<rparr>"
proof -
  note ok = assms [unfolded pics_ok_def, rule_format]
  show "pic1 (pic_init bus b) = \<lparr>pi_base = 0x20, pi_cascade = 4, pi_mode = 1, pi_mask = 0xff, pi_icw4 = True, pi_step = 0\<rparr>"
    by (simp add: pic_init_def ok i8259_cmd_def i8259_data_def)
  show "pic2 (pic_init bus b) = \<lparr>pi_base = 0x28, pi_cascade = 2, pi_mode = 1, pi_mask = 0xff, pi_icw4 = True, pi_step = 0\<rparr>"
    by (simp add: pic_init_def ok i8259_cmd_def i8259_data_def)
qed

subsection \<open>The architecture's initialisation\<close>

record 'b arch =
  ar_seg :: seg_regs
  ar_idt :: "idt_ent list"
  ar_bus :: 'b

text \<open>The addresses the linker gives the tables and the handlers.\<close>

record symbols =
  sy_gdt :: u64
  sy_idt :: u64
  sy_except_head :: "nat \<Rightarrow> u64"
  sy_default_head :: u64
  sy_syscall_head :: u64

definition arch_master_init :: "'b bus \<Rightarrow> symbols \<Rightarrow> 'b arch \<Rightarrow> 'b arch exec" where
  "arch_master_init bus sy a =
     (let a = a\<lparr>ar_seg := gdt_init (sy_gdt sy) (ar_seg a)\<rparr>;
          a = a\<lparr>ar_bus := pic_init bus (ar_bus a)\<rparr>
      in seq (idt_init (sy_idt sy) (sy_except_head sy) (sy_default_head sy) (ar_idt a) (ar_seg a)) (\<lambda>(idt, seg).
         Ret (a\<lparr>ar_idt := idt, ar_seg := seg\<rparr>)))"

text \<open>The exceptions with a handler: not 15, 22 to 27 and 31, which the processor reserves.\<close>

definition handled :: "nat \<Rightarrow> bool" where
  "handled v \<longleftrightarrow> v \<noteq> 15 \<and> \<not> (22 \<le> v \<and> v \<le> 27) \<and> v \<noteq> 31"

definition vector_handler :: "symbols \<Rightarrow> nat \<Rightarrow> u64" where
  "vector_handler sy v = (if v < 32 then sy_except_head sy v else sy_default_head sy)"

lemma spec_tab_entry:
  assumes "v < 32"
  shows "bit (snd (isr_except_spec_tab head ! v)) 7 \<longleftrightarrow> handled v" "handled v \<Longrightarrow> fst (isr_except_spec_tab head ! v) = head v"
proof -
  have u: "[0..<32] = 0 # 1 # [2..<32]"
    by (simp only: upt_conv_Cons [of 0 32] upt_conv_Cons [of "Suc 0" 32] zero_less_numeral) (simp add: numeral_2_eq_2 upt_conv_Cons)
  have a: "list_all (\<lambda>v. (bit (snd (isr_except_spec_tab head ! v)) 7 \<longleftrightarrow> handled v) \<and>
      (handled v \<longrightarrow> fst (isr_except_spec_tab head ! v) = head v)) [0..<32]"
    unfolding u by (simp add: isr_except_spec_tab_def handled_def bit_simps)
  then show "bit (snd (isr_except_spec_tab head ! v)) 7 \<longleftrightarrow> handled v" "handled v \<Longrightarrow> fst (isr_except_spec_tab head ! v) = head v"
    using assms by (auto simp: list_all_iff)
qed

lemma arch_master_init_gates:
  assumes "length (ar_idt a) = 256"
  shows "\<exists>t. arch_master_init bus sy a = Ret t \<and> length (ar_idt t) = 256 \<and> ar_bus t = pic_init bus (ar_bus a) \<and>
     sg_cs (ar_seg t) = GS_KERNEL_CODE \<and> dr_base (sg_idtr (ar_seg t)) = sy_idt sy \<and> sg_if (ar_seg t) \<and>
     dr_base (sg_gdtr (ar_seg t)) = sy_gdt sy \<and>
     (\<forall>v < 256. (gate_present (ar_idt t ! v) \<longleftrightarrow> handled v) \<and> ie_sel (ar_idt t ! v) = GS_KERNEL_CODE \<and>
        (handled v \<longrightarrow> gate_addr (ar_idt t ! v) = vector_handler sy v))"
proof -
  let ?a = "a\<lparr>ar_seg := gdt_init (sy_gdt sy) (ar_seg a), ar_bus := pic_init bus (ar_bus a)\<rparr>"
  obtain idt c where i: "idt_init (sy_idt sy) (sy_except_head sy) (sy_default_head sy) (ar_idt a) (gdt_init (sy_gdt sy) (ar_seg a)) = Ret (idt, c)"
    "length idt = 256"
    "\<And>v. v < 256 \<Longrightarrow> idt ! v = (if v < 32 then mk_idt_ent (fst (isr_except_spec_tab (sy_except_head sy) ! v)) (snd (isr_except_spec_tab (sy_except_head sy) ! v))
        else mk_idt_ent (sy_default_head sy) IGT_INT)"
    using idt_init_table [OF assms] by metis
  have c: "c = idt_load \<lparr>dr_size = of_nat (16 * length idt) - 1, dr_base = sy_idt sy\<rparr> (gdt_init (sy_gdt sy) (ar_seg a))"
    using i(1) by (auto simp: idt_init_def seq_Ret_iff)
  have t: "arch_master_init bus sy a = Ret (?a\<lparr>ar_idt := idt, ar_seg := c\<rparr>)"
    by (simp add: arch_master_init_def i(1))
  have "gate_present (idt ! v) \<longleftrightarrow> handled v" "ie_sel (idt ! v) = GS_KERNEL_CODE"
    "handled v \<Longrightarrow> gate_addr (idt ! v) = vector_handler sy v" if "v < 256" for v
  proof -
    show "gate_present (idt ! v) \<longleftrightarrow> handled v"
    proof (cases "v < 32")
      case True
      then show ?thesis using that spec_tab_entry(1) [of v] by (simp add: i(3) gate_present_def mk_idt_ent_def)
    next
      case False
      then show ?thesis using that by (simp add: i(3) gate_present_def mk_idt_ent_def handled_def bit_simps)
    qed
    show "ie_sel (idt ! v) = GS_KERNEL_CODE" using that by (simp add: i(3) mk_idt_ent_def)
    show "handled v \<Longrightarrow> gate_addr (idt ! v) = vector_handler sy v"
      using that spec_tab_entry(2) [of v] by (auto simp: i(3) gate_addr_mk vector_handler_def)
  qed
  then show ?thesis
    unfolding t using i(2) by (simp add: c idt_load_def gdt_init_def gdt_load_def)
qed

subsection \<open>Properties\<close>

text \<open>
  C31: after \<open>arch_master_init\<close> the processor finds through each gate of the table exactly the
  handler meant for the vector: the split address of a gate joins to the handler's, in the kernel code segment; the
  gates of the vectors without a handler are not present; the tables are loaded and interrupts enabled.
\<close>
theorem arch_master_init_vectors:
  assumes "length (ar_idt a) = 256"
  shows "\<exists>t. arch_master_init bus sy a = Ret t \<and> sg_if (ar_seg t) \<and> sg_cs (ar_seg t) = GS_KERNEL_CODE \<and>
     dr_base (sg_gdtr (ar_seg t)) = sy_gdt sy \<and> dr_base (sg_idtr (ar_seg t)) = sy_idt sy \<and>
     (\<forall>v < 256. (gate_present (ar_idt t ! v) \<longleftrightarrow> handled v) \<and> ie_sel (ar_idt t ! v) = GS_KERNEL_CODE \<and>
        (handled v \<longrightarrow> gate_addr (ar_idt t ! v) = vector_handler sy v))"
  using arch_master_init_gates [OF assms, of bus sy] by blast

definition pic_demo :: "(i8259 \<times> i8259) bus" where
  "pic_demo =
     \<lparr>in_8 = (\<lambda>p b. (0, b)), in_16 = (\<lambda>p b. (0, b)), in_32 = (\<lambda>p b. (0, b)),
      out_8 = (\<lambda>p v (p1, p2). if p = 0x20 then (i8259_cmd v p1, p2) else if p = 0x21 then (i8259_data v p1, p2)
        else if p = 0xa0 then (p1, i8259_cmd v p2) else if p = 0xa1 then (p1, i8259_data v p2) else (p1, p2)),
      out_16 = (\<lambda>p v b. b), out_32 = (\<lambda>p v b. b)\<rparr>"

definition pic_cold :: i8259 where
  "pic_cold = \<lparr>pi_base = 8, pi_cascade = 0, pi_mode = 0, pi_mask = 0, pi_icw4 = False, pi_step = 2\<rparr>"

definition arch_demo :: "(i8259 \<times> i8259) arch" where
  "arch_demo = \<lparr>ar_seg = \<lparr>sg_gdtr = \<lparr>dr_size = 0, dr_base = 0\<rparr>, sg_idtr = \<lparr>dr_size = 0, dr_base = 0\<rparr>, sg_cs = 0, sg_data = [], sg_if = False\<rparr>,
     ar_idt = replicate 256 (mk_idt_ent 0 0), ar_bus = (pic_cold, pic_cold)\<rparr>"

definition sym_demo :: symbols where
  "sym_demo = \<lparr>sy_gdt = 0xffff800000001000, sy_idt = 0xffff800000002000, sy_except_head = (\<lambda>v. 0xffff800000100000 + 16 * of_nat v),
     sy_default_head = 0xffff800000200000, sy_syscall_head = 0xffff800000300000\<rparr>"

theorem arch_master_init_vectors_witness:
  "\<exists>t. arch_master_init pic_demo sym_demo arch_demo = Ret t \<and> gate_addr (ar_idt t ! 14) = 0xffff8000001000e0 \<and>
     \<not> gate_present (ar_idt t ! 22)"
  using arch_master_init_vectors [of arch_demo pic_demo sym_demo]
  by (auto simp: arch_demo_def handled_def vector_handler_def sym_demo_def)

text \<open>
  \<open>pic_init\<close> brings both controllers, from whatever state they are in, through their
  initialisation: their interrupts start at vectors \<open>0x20\<close> and \<open>0x28\<close>, behind the exceptions, they are cascaded on line 2,
  in 8086 mode, and every interrupt is masked.
\<close>
theorem pic_init_remaps:
  assumes "pics_ok bus pic1 pic2"
  shows "pi_base (pic1 (pic_init bus b)) = 0x20 \<and> pi_base (pic2 (pic_init bus b)) = 0x28 \<and>
     pi_cascade (pic1 (pic_init bus b)) = push_bit 2 1 \<and> pi_cascade (pic2 (pic_init bus b)) = 2 \<and>
     (\<forall>p \<in> {pic1 (pic_init bus b), pic2 (pic_init bus b)}. pi_mode p = 1 \<and> pi_mask p = 0xff \<and> pi_step p = 0)"
  by (simp add: pic_init_state [OF assms])

theorem pic_init_remaps_witness:
  "pi_base (snd (pic_init pic_demo (pic_cold, pic_cold))) = 0x28"
proof -
  have "pics_ok pic_demo fst snd" by (auto simp: pics_ok_def pic_demo_def)
  from pic_init_remaps [OF this] show ?thesis by simp
qed

end
