(* ===== verification/Interrupts.thy ===== *)
theory Interrupts
  imports Descriptors Kutil
begin

section \<open>Interrupt heads and system calls (isr\_common.S, adef.S, isr\_except.c, isr\_other.c, syscall.c)\<close>

text \<open>
  The assembly around the handlers as a machine with registers and a stack: pushing and popping the
  registers, calling the C body, and \<open>iretq\<close> with the checks the processor makes of what it returns to.  What a C body leaves in the registers the calling
  convention lets it clobber is an argument.  The dispatch of the system calls prints through the
  console of Serial.
\<close>

datatype reg = RAX | RBX | RCX | RDX | RSI | RDI | RBP | R8 | R9 | R10 | R11 | R12 | R13 | R14 | R15

type_synonym regs = "reg \<Rightarrow> u64"

text \<open>The stack of the handler, top first.\<close>

type_synonym stack = "u64 list"

subsection \<open>Instructions\<close>

definition push :: "reg \<Rightarrow> regs \<times> stack \<Rightarrow> regs \<times> stack" where
  "push r m = (case m of (rg, st) \<Rightarrow> (rg, rg r # st))"

fun pop :: "reg \<Rightarrow> regs \<times> stack \<Rightarrow> (regs \<times> stack) exec" where
  "pop r (rg, []) = Fault"
| "pop r (rg, v # st) = Ret (rg(r := v), st)"

text \<open>What \<open>iretq\<close> takes from the stack, and what the processor puts there for an interrupt.\<close>

record frame =
  fr_rip :: u64
  fr_cs :: u64
  fr_flags :: u64
  fr_rsp :: u64
  fr_ss :: u64

definition frame_words :: "frame \<Rightarrow> u64 list" where
  "frame_words f = [fr_rip f, fr_cs f, fr_flags f, fr_rsp f, fr_ss f]"

text \<open>
  What the processor checks of the frame before it returns to it, running at privilege level 0 with the table of Descriptors:
  the low 16 bits of the code selector name a present 64 bit code descriptor of the \<open>gdt\<close> (there is no local table), of the
  privilege level the selector asks for; the stack selector is null or names a present writable data descriptor of the
  same level; the address is canonical.  Otherwise it raises an exception in place of the return, which is \<open>Fault\<close> here.
\<close>

definition code_sel_ok :: "u16 \<Rightarrow> bool" where
  "code_sel_ok sel \<longleftrightarrow> \<not> bit sel 2 \<and>
     (case sel_desc sel of None \<Rightarrow> False | Some e \<Rightarrow> seg_code64 e \<and> ucast (seg_dpl e) = sel AND 3)"

definition stack_sel_ok :: "u16 \<Rightarrow> u16 \<Rightarrow> bool" where
  "stack_sel_ok code sel \<longleftrightarrow> sel = 0 \<or> \<not> bit sel 2 \<and> sel AND 3 = code AND 3 \<and>
     (case sel_desc sel of None \<Rightarrow> False | Some e \<Rightarrow> seg_data_rw e \<and> ucast (seg_dpl e) = sel AND 3)"

definition iret_ok :: "frame \<Rightarrow> bool" where
  "iret_ok f \<longleftrightarrow> canonical (fr_rip f) \<and> code_sel_ok (ucast (fr_cs f)) \<and> stack_sel_ok (ucast (fr_cs f)) (ucast (fr_ss f))"

fun iretq :: "regs \<times> stack \<Rightarrow> (regs \<times> frame) exec" where
  "iretq (rg, rip # cs # flags # rsp # ss # st) =
     (let f = \<lparr>fr_rip = rip, fr_cs = cs, fr_flags = flags, fr_rsp = rsp, fr_ss = ss\<rparr>
      in if iret_ok f then Ret (rg, f) else Fault)"
| "iretq (rg, st) = Fault"

definition pushed_regs :: "reg list" where
  "pushed_regs = [R15, R14, R13, R12, R11, R10, R9, R8, RBP, RDI, RSI, RDX, RCX, RBX, RAX]"

definition push_gen_regs :: "regs \<times> stack \<Rightarrow> regs \<times> stack" where
  "push_gen_regs = fold push pushed_regs"

definition popped_regs :: "reg list" where
  "popped_regs = [RAX, RBX, RCX, RDX, RSI, RDI, RBP, R8, R9, R10, R11, R12, R13, R14, R15]"

definition pop_gen_regs :: "regs \<times> stack \<Rightarrow> (regs \<times> stack) exec" where
  "pop_gen_regs = for_each popped_regs pop"

subsection \<open>Exceptions\<close>

text \<open>
  The vectors whose body takes \<open>struct isr_except_frame_code\<close>: the processor pushes an error code for them.
\<close>

definition frame_has_code :: "nat \<Rightarrow> bool" where
  "frame_has_code v \<longleftrightarrow> v \<in> {0x8, 0xa, 0xb, 0xc, 0xd, 0xe, 0x11, 0x15, 0x1d, 0x1e}"

text \<open>The bodies of all exceptions, and of the default handler, are empty.\<close>

definition isr_except_body :: "nat \<Rightarrow> stack \<Rightarrow> stack" where
  "isr_except_body v st = st"

definition isr_default_body :: "stack \<Rightarrow> stack" where
  "isr_default_body st = st"

text \<open>
  \<open>ISR_EXCEPT_DEF_HEAD\<close> and \<open>ISR_DEF_HEAD\<close>: \<open>clobber\<close> is what the call leaves in the registers; \<open>rsp\<close> is the stack pointer
  that \<open>rdi\<close> (and, with an offset, \<open>rsi\<close>) is set to.
\<close>

definition isr_except_head :: "nat \<Rightarrow> (regs \<Rightarrow> regs) \<Rightarrow> u64 \<Rightarrow> regs \<times> stack \<Rightarrow> (regs \<times> frame) exec" where
  "isr_except_head v clobber rsp m =
     (let (rg, st) = push_gen_regs m;
          rg = rg(RDI := rsp);
          rg = rg(RSI := rsp + 0x78);
          st = isr_except_body v st;
          rg = clobber rg
      in seq (pop_gen_regs (rg, st)) iretq)"

definition isr_default_head :: "(regs \<Rightarrow> regs) \<Rightarrow> u64 \<Rightarrow> regs \<times> stack \<Rightarrow> (regs \<times> frame) exec" where
  "isr_default_head clobber rsp m =
     (let (rg, st) = push_gen_regs m;
          rg = rg(RDI := rsp);
          st = isr_default_body st;
          rg = clobber rg
      in seq (pop_gen_regs (rg, st)) iretq)"

text \<open>The stack the processor enters the head of a vector with.\<close>

definition deliver :: "nat \<Rightarrow> u64 \<Rightarrow> frame \<Rightarrow> stack \<Rightarrow> stack" where
  "deliver v err f st = (if frame_has_code v then err # frame_words f @ st else frame_words f @ st)"

lemma push_gen_regs_words: "push_gen_regs (rg, st) = (rg, map rg popped_regs @ st)"
  by (simp add: push_gen_regs_def pushed_regs_def popped_regs_def push_def)

lemma pop_regs_words: "distinct rs \<Longrightarrow> for_each rs pop (rg, map rg' rs @ st) = Ret (\<lambda>r. if r \<in> set rs then rg' r else rg r, st)"
  by (induction rs arbitrary: rg) (auto simp: fun_eq_iff)

lemma popped_all: "set popped_regs = UNIV" "distinct popped_regs"
proof -
  have "r \<in> set popped_regs" for r by (cases r) (simp_all add: popped_regs_def)
  then show "set popped_regs = UNIV" by blast
  show "distinct popped_regs" by (simp add: popped_regs_def)
qed

text \<open>Saving and restoring is the identity on the registers, whatever happens to them in between.\<close>

lemma pop_gen_regs_words: "pop_gen_regs (rg', map rg popped_regs @ st) = Ret (rg, st)"
  using pop_regs_words [OF popped_all(2), of rg' rg st] by (simp add: pop_gen_regs_def popped_all(1))

lemma isr_except_head_iret: "isr_except_head v clobber rsp (rg, st) = iretq (rg, st)"
  by (simp add: isr_except_head_def push_gen_regs_words isr_except_body_def pop_gen_regs_words Let_def)

lemma isr_default_head_iret: "isr_default_head clobber rsp (rg, st) = iretq (rg, st)"
  by (simp add: isr_default_head_def push_gen_regs_words isr_default_body_def pop_gen_regs_words Let_def)

lemma iretq_frame: "iretq (rg, frame_words f @ st) = (if iret_ok f then Ret (rg, f) else Fault)"
  by (cases f) (simp add: frame_words_def Let_def)

text \<open>The only code selector of the table.\<close>

lemma code_sel_kernel: "code_sel_ok sel \<longleftrightarrow> sel = GS_KERNEL_CODE"
proof
  assume ok: "code_sel_ok sel"
  then obtain e where e: "sel_desc sel = Some e" "seg_code64 e" "ucast (seg_dpl e) = sel AND 3" "\<not> bit sel 2"
    by (auto simp: code_sel_ok_def split: option.splits)
  let ?i = "unat sel div 8"
  have i: "0 < ?i" "?i < 3" and ge: "e = gdt ! ?i"
    using e(1) by (auto simp: sel_desc_def Let_def gdt_def split: if_splits)
  have "\<not> seg_code64 (gdt ! 2)" by (simp add: gdt_def seg_code64_def GA_DPL_def bit_simps)
  then have one: "?i = 1" using e(2) ge i by (cases "?i = 2") auto
  have "seg_dpl e = 0" unfolding ge one by (simp add: gdt_def seg_dpl_def GA_DPL_def)
  then have "sel AND 3 = 0" using e(3) by simp
  then have "take_bit 2 sel = 0" by (simp add: take_bit_eq_mask mask_eq_exp_minus_1)
  then have "take_bit 2 (unat sel) = 0" by (simp only: flip: unsigned_take_bit_eq) simp
  then have "unat sel mod 4 = 0" by (simp add: take_bit_eq_mod)
  moreover have "\<not> bit (unat sel) 2" using e(4) by (simp add: bit_unsigned_iff)
  then have "even (unat sel div 4)" by (simp add: bit_iff_odd)
  ultimately have "unat sel = 8" using one by presburger
  then show "sel = GS_KERNEL_CODE" by (simp add: word_unat_eq_iff)
qed (use gdt_selectors in \<open>auto simp: code_sel_ok_def bit_simps\<close>)

subsection \<open>System calls\<close>

record sc_args =
  sc_arsel :: u64
  sc_ar :: "u64 list"
  sc_or :: "u64 list"

text \<open>The order in which \<open>ISR_SYSCALL_DEF_HEAD\<close> pushes and pops.\<close>

definition sc_pushed :: "reg list" where
  "sc_pushed = [RDX, RSI, RDI, RAX, R11, R10, R9, R8, RCX, RDX, RSI, RDI, RAX]"

definition sc_popped :: "reg list" where
  "sc_popped = [RAX, RDI, RSI, RDX, RCX, R8, R9, R10, R11, RAX, RDI, RSI, RDX]"

text \<open>The struct at the top of the stack.\<close>

definition sc_args_of :: "stack \<Rightarrow> sc_args" where
  "sc_args_of st = \<lparr>sc_arsel = st ! 0, sc_ar = take 8 (drop 1 st), sc_or = take 4 (drop 9 st)\<rparr>"

text \<open>The enumeration is not checked: a type without a case prints no prefix.\<close>

definition log_type_of :: "u32 \<Rightarrow> log_type" where
  "log_type_of n = (if n = 1 then LT_INFO else if n = 2 then LT_WARN else if n = 3 then LT_ERR else if n = 4 then LT_DEBUG else LT_NONE)"

text \<open>\<open>str\<close> is the string at an address (\<open>None\<close> where none can be read).\<close>

definition sc_dbg_println :: "'s con \<Rightarrow> (u64 \<Rightarrow> u8 list option) \<Rightarrow> sc_args \<Rightarrow> 's printer \<Rightarrow> 's printer exec" where
  "sc_dbg_println con str args p =
     (case str (sc_ar args ! 1) of
        None \<Rightarrow> Fault
      | Some s \<Rightarrow> ku_println con (log_type_of (ucast (sc_ar args ! 0))) [0x25, 0x73] [VStr s] p)"

definition isr_syscall_body :: "'s con \<Rightarrow> (u64 \<Rightarrow> u8 list option) \<Rightarrow> sc_args \<Rightarrow> 's printer \<Rightarrow> 's printer exec" where
  "isr_syscall_body con str args p =
     (if sc_arsel args = 0x0 then sc_dbg_println con str args p
      else if sc_arsel args = 0x20 then Ret p
      else Ret p)"

definition isr_syscall_head :: "'s con \<Rightarrow> (u64 \<Rightarrow> u8 list option) \<Rightarrow> (regs \<Rightarrow> regs) \<Rightarrow> u64 \<Rightarrow> regs \<times> stack \<Rightarrow>
    's printer \<Rightarrow> (regs \<times> frame \<times> 's printer) exec" where
  "isr_syscall_head con str clobber rsp m p =
     (let (rg, st) = fold push sc_pushed m;
          rg = rg(RDI := rsp)
      in seq (isr_syscall_body con str (sc_args_of st) p) (\<lambda>p.
         seq (for_each sc_popped pop (clobber rg, st)) (\<lambda>m.
         seq (iretq m) (\<lambda>(rg, f). Ret (rg, f, p)))))"

definition syscall_init :: "u64 \<Rightarrow> idt_ent list \<Rightarrow> idt_ent list exec" where
  "syscall_init isr_syscall_head_addr idt = idt_set_isr 0x80 isr_syscall_head_addr IGT_INT idt"

text \<open>The registers a C function has to preserve.\<close>

definition callee_saved :: "reg set" where
  "callee_saved = {RBX, RBP, R12, R13, R14, R15}"

lemma sc_saved: "fold push sc_pushed (rg, st) = (rg, map rg sc_popped @ st)"
  by (simp add: sc_pushed_def sc_popped_def push_def)

lemma sc_restored:
  assumes "\<forall>r \<in> callee_saved. rg' r = rg r"
  shows "for_each sc_popped pop (rg', map rg sc_popped @ st) = Ret (rg, st)"
proof -
  have "rg'(RAX := rg RAX, RDI := rg RDI, RSI := rg RSI, RDX := rg RDX, RCX := rg RCX, R8 := rg R8, R9 := rg R9,
      R10 := rg R10, R11 := rg R11) = rg"
  proof
    fix r show "(rg'(RAX := rg RAX, RDI := rg RDI, RSI := rg RSI, RDX := rg RDX, RCX := rg RCX, R8 := rg R8, R9 := rg R9,
      R10 := rg R10, R11 := rg R11)) r = rg r"
      using assms by (cases r) (simp_all add: callee_saved_def)
  qed
  then show ?thesis by (simp add: sc_popped_def fun_upd_twist)
qed

lemma sc_args_saved:
  "sc_args_of (map rg sc_popped @ st) = \<lparr>sc_arsel = rg RAX, sc_ar = [rg RDI, rg RSI, rg RDX, rg RCX, rg R8, rg R9, rg R10, rg R11],
     sc_or = [rg RAX, rg RDI, rg RSI, rg RDX]\<rparr>"
  by (simp add: sc_args_of_def sc_popped_def)

subsection \<open>Properties\<close>

text \<open>What \<open>iretq\<close> takes for the frame when the error code is still on the stack.\<close>

definition shifted_frame :: "u64 \<Rightarrow> frame \<Rightarrow> frame" where
  "shifted_frame err f = \<lparr>fr_rip = err, fr_cs = fr_rip f, fr_flags = fr_cs f, fr_rsp = fr_flags f, fr_ss = fr_rsp f\<rparr>"

text \<open>
  C33: an exception without an error code that interrupts code of the kernel (at a canonical address, with the kernel's
  selectors) is transparent: its head returns to the interrupted instruction with every register as it was, whatever
  the C body leaves in the registers.  For the vectors with an error code the head does not take the code from the
  stack, so \<open>iretq\<close> reads everything one word off: the interrupted address is taken for the code selector, and the
  processor refuses the return, unless the low 16 bits of that address are by chance the selector of the kernel's code (and
  those of the old stack pointer a stack selector); then it goes on at the error code as the address.
\<close>
theorem isr_except_head_returns:
  assumes "iret_ok f"
  shows "isr_except_head v clobber rsp (rg, deliver v err f st) =
      (if \<not> frame_has_code v then Ret (rg, f)
       else if iret_ok (shifted_frame err f) then Ret (rg, shifted_frame err f) else Fault) \<and>
    (iret_ok (shifted_frame err f) \<longrightarrow> ucast (fr_rip f) = GS_KERNEL_CODE)"
proof -
  have "iretq (rg, deliver v err f st) = (if frame_has_code v
      then if iret_ok (shifted_frame err f) then Ret (rg, shifted_frame err f) else Fault else Ret (rg, f))"
    using assms by (simp add: deliver_def iretq_frame) (simp add: frame_words_def shifted_frame_def Let_def)
  moreover have "iret_ok (shifted_frame err f) \<longrightarrow> ucast (fr_rip f) = GS_KERNEL_CODE"
    by (simp add: iret_ok_def shifted_frame_def code_sel_kernel)
  ultimately show ?thesis by (simp add: isr_except_head_iret)
qed

definition frame_demo :: frame where
  "frame_demo = \<lparr>fr_rip = 0x400000, fr_cs = 8, fr_flags = 0x202, fr_rsp = 0x7000, fr_ss = 0x10\<rparr>"

lemma frame_demo_ok: "iret_ok frame_demo"
  using gdt_selectors by (auto simp: iret_ok_def frame_demo_def canonical_def code_sel_kernel stack_sel_ok_def bit_simps)

theorem isr_except_head_returns_witness:
  "isr_except_head 0x3 (\<lambda>rg. rg(RAX := 99)) 0x7000 (\<lambda>_. 7, deliver 0x3 0 frame_demo []) = Ret (\<lambda>_. 7, frame_demo) \<and>
   isr_except_head 0xe (\<lambda>rg. rg(RAX := 99)) 0x7000 (\<lambda>_. 7, deliver 0xe 2 frame_demo []) = Fault"
proof -
  have "\<not> iret_ok (shifted_frame 2 frame_demo)"
    by (simp add: iret_ok_def shifted_frame_def frame_demo_def code_sel_kernel)
  then show ?thesis
    using isr_except_head_returns [OF frame_demo_ok, of "0x3" "\<lambda>rg. rg(RAX := 99)" "0x7000" "\<lambda>_. 7" 0 "[]"]
      isr_except_head_returns [OF frame_demo_ok, of "0xe" "\<lambda>rg. rg(RAX := 99)" "0x7000" "\<lambda>_. 7" 2 "[]"]
    by (simp add: frame_has_code_def)
qed

text \<open>The default handler, installed from vector 32 on, where no error codes exist, is transparent.\<close>

lemma isr_default_head_returns: "iret_ok f \<Longrightarrow> isr_default_head clobber rsp (rg, frame_words f @ st) = Ret (rg, f)"
  by (simp add: isr_default_head_iret iretq_frame)

text \<open>
  C32: the system call \<open>DBG_PRINTLN\<close> on a working serial port, made by code that runs with the kernel's selectors: it returns to the caller with all its registers as
  they were (the convention would let it change them) and has sent the prefix of the type in \<open>rdi\<close>, the string at
  \<open>rsi\<close>, and a newline.
\<close>
theorem syscall_prints:
  assumes "serial_up bus u (pr_con p)" and "pr_mutex p = 0" and "rg RAX = 0" and "str (rg RSI) = Some s"
    and "\<forall>rg. \<forall>r \<in> callee_saved. clobber rg r = rg r" and "iret_ok f"
  shows "\<exists>q. isr_syscall_head (serial_con bus) str clobber rsp (rg, frame_words f @ st) p = Ret (rg, f, q) \<and>
     pr_mutex q = 0 \<and> serial_up bus u (pr_con q) \<and>
     serial_sent u (pr_con q) = serial_sent u (pr_con p) @ log_text (log_type_of (ucast (rg RDI))) @ s @ [0x0a]"
proof -
  have "render [Conv Sz_none Fs] [VStr s] = Some s" by simp
  from serial.ku_println_sends [OF this assms(2,1), of "log_type_of (ucast (rg RDI))"]
  obtain q where q: "ku_println (serial_con bus) (log_type_of (ucast (rg RDI))) [0x25, 0x73] [VStr s] p = Ret q"
    "pr_mutex q = 0" "serial_up bus u (pr_con q)"
    "serial_sent u (pr_con q) = serial_sent u (pr_con p) @ log_text (log_type_of (ucast (rg RDI))) @ s @ [0x0a]"
    by auto
  have body: "isr_syscall_body (serial_con bus) str (sc_args_of (map rg sc_popped @ frame_words f @ st)) p = Ret q"
    using assms(3,4) q(1) by (simp add: isr_syscall_body_def sc_dbg_println_def sc_args_saved)
  have "\<forall>r \<in> callee_saved. clobber (rg(RDI := rsp)) r = rg r" using assms(5) by (auto simp: callee_saved_def)
  from sc_restored [OF this, of "frame_words f @ st"]
  have "isr_syscall_head (serial_con bus) str clobber rsp (rg, frame_words f @ st) p = Ret (rg, f, q)"
    by (simp add: isr_syscall_head_def sc_saved body iretq_frame assms(6))
  with q show ?thesis by blast
qed

definition regs_demo :: regs where
  "regs_demo = (\<lambda>r. if r = RAX then 0 else if r = RDI then 2 else if r = RSI then 0x5000 else 7)"

theorem syscall_prints_witness:
  "\<exists>q. isr_syscall_head (serial_con ram_uart_bus) (\<lambda>a. if a = 0x5000 then Some [0x68, 0x69] else None)
       (\<lambda>rg. rg(RAX := 99, RCX := 98)) 0x7000 (regs_demo, frame_words frame_demo) ram_printer = Ret (regs_demo, frame_demo, q) \<and>
     serial_sent ram_uart_spec (pr_con q) = [0x5b, 0x77, 0x61, 0x72, 0x6e, 0x5d, 0x20, 0x68, 0x69, 0x0a]"
proof -
  have up: "serial_up ram_uart_bus ram_uart_spec (pr_con ram_printer)" by (simp add: ram_printer_def ram_serial_up)
  have m: "pr_mutex ram_printer = 0" by (simp add: ram_printer_def)
  have s: "serial_sent ram_uart_spec (pr_con ram_printer) = []"
    by (simp add: ram_printer_def ram_serial_init) (simp add: serial_sent_def ram_uart_spec_def ram_serial_def)
  have t: "log_text (log_type_of (ucast (regs_demo RDI))) = [0x5b, 0x77, 0x61, 0x72, 0x6e, 0x5d, 0x20]"
    by (simp add: regs_demo_def log_type_of_def log_text_def)
  show ?thesis
    using syscall_prints [OF up m, of regs_demo "\<lambda>a. if a = 0x5000 then Some [0x68, 0x69] else None" "[0x68, 0x69]"
        "\<lambda>rg. rg(RAX := 99, RCX := 98)" frame_demo "0x7000" "[]"] frame_demo_ok s t
    by (auto simp: callee_saved_def regs_demo_def)
qed

lemma syscall_gate:
  assumes "length idt = 256"
  shows "\<exists>t. syscall_init h idt = Ret t \<and> gate_present (t ! 0x80) \<and> gate_addr (t ! 0x80) = h \<and> length t = 256 \<and>
     (\<forall>v. v \<noteq> 0x80 \<longrightarrow> t ! v = idt ! v)"
proof -
  have "gate_present (mk_idt_ent h IGT_INT)" by (simp add: gate_present_def mk_idt_ent_def bit_simps)
  then show ?thesis using assms by (simp add: syscall_init_def idt_set_isr_def gate_addr_mk)
qed

end
