(* ===== verification/Block_Heap.thy ===== *)
theory Block_Heap
  imports Kheap
begin

section \<open>The heap as its clients see it\<close>

text \<open>
  Drivers and caches call \<open>kheap_alloc\<close> and rely on getting a block.  The interface counts what the heap
  can still serve: \<open>serves j k\<close> promises \<open>j\<close> further blocks of up to \<open>blk_max\<close> bytes.  The kernel heap provides it
  as long as its window and the physical memory have room.
\<close>

abbreviation blk_max :: nat where "blk_max \<equiv> 4184"

locale block_heap =
  fixes kalloc :: "u64 \<Rightarrow> 'k \<Rightarrow> (u64 \<times> 'k) exec" and serves :: "nat \<Rightarrow> 'k \<Rightarrow> bool"
  assumes kalloc_serves: "serves (Suc j) k \<Longrightarrow> unat n \<le> blk_max \<Longrightarrow> \<exists>p k'. kalloc n k = Ret (p, k') \<and> p \<noteq> 0 \<and> serves j k'"

text \<open>Every block takes at most 4216 bytes of the window, two pages and with their tables eight frames.\<close>

definition kheap_serves :: "nat \<Rightarrow> pmm kheap \<Rightarrow> bool" where
  "kheap_serves j s \<longleftrightarrow> (\<exists>bs. kh_ok s bs \<and> kh_mutex s = 0 \<and>
     pg_wf pmm_ok pmm_avail (cpu_cr3 (kh_cpu s)) (cpu_mem (kh_cpu s)) \<and> kh_backed (kh_cpu s) (unat (kh_npages s)) \<and>
     unat (next_slot (last bs)) + 4216 * j \<le> unat KH_START + 4096 * 0x40000 \<and>
     8 * j \<le> card (pmm_avail (km_pmm (cpu_mem (kh_cpu s)))))"

lemma kheap_alloc_block:
  assumes "kheap_serves (Suc j) s" and n: "unat n \<le> blk_max"
  shows "\<exists>p s'. kheap_alloc pmm_alloc n s = Ret (p, s') \<and> p \<noteq> 0 \<and> kheap_serves j s'"
proof -
  obtain bs where bs: "kh_ok s bs" "kh_mutex s = 0" "pg_wf pmm_ok pmm_avail (cpu_cr3 (kh_cpu s)) (cpu_mem (kh_cpu s))"
    "kh_backed (kh_cpu s) (unat (kh_npages s))"
    "unat (next_slot (last bs)) + 4216 * Suc j \<le> unat KH_START + 4096 * 0x40000"
    "8 * Suc j \<le> card (pmm_avail (km_pmm (cpu_mem (kh_cpu s))))"
    using assms(1) by (auto simp: kheap_serves_def)
  let ?top = "unat (next_slot (last bs))"
  have lst: "kh_in kh_lim (last bs)" using kh_ok_last [OF bs(1)] by blast
  have "last bs \<in> set bs" using kh_ok_last [OF bs(1)] by simp
  then have "kh_in (4096 * unat (kh_npages s)) (last bs)" using bs(1) by (simp add: kh_ok_def)
  then have top: "unat KH_START \<le> ?top" "?top \<le> unat KH_START + 4096 * unat (kh_npages s) + 16"
    using next_slot_bounds(2,3) [OF lst] by (simp_all add: kh_in_def)
  have sum: "?top + 16 + unat n - unat KH_START + 4095 \<le> 4096 * unat (kh_npages s) + 8311"
    "?top + 16 + unat n - unat KH_START + 4095 \<le> 4096 * 0x40000 + 4095"
    using top bs(5) n by simp_all
  have "(4096 * unat (kh_npages s) + 8311) div 4096 = unat (kh_npages s) + 2" by simp
  then have need: "kh_need n bs \<le> unat (kh_npages s) + 2"
    unfolding kh_need_def using div_le_mono [OF sum(1), of 4096] by simp
  have "(4096 * 0x40000 + 4095) div 4096 = (0x40000 :: nat)" by simp
  then have lim: "kh_need n bs \<le> 0x40000"
    unfolding kh_need_def using div_le_mono [OF sum(2), of 4096] by simp
  have fr: "4 * (kh_need n bs - unat (kh_npages s)) \<le> 8" using need by simp
  have sane: "kh_sane n" using n by simp
  have "4 * (kh_need n bs - unat (kh_npages s)) \<le> card (pmm_avail (km_pmm (cpu_mem (kh_cpu s))))"
    using fr bs(6) by simp
  from pmm.kheap_alloc_backed [OF bs(1) sane bs(2-4) lim this] obtain s' where
    s': "kheap_alloc pmm_alloc n s = Ret (next_slot (last bs) + 16, s')" "kh_ok s' (bs @ [(next_slot (last bs), n)])"
      "kh_mutex s' = 0" "pg_wf pmm_ok pmm_avail (cpu_cr3 (kh_cpu s')) (cpu_mem (kh_cpu s'))"
      "kh_backed (kh_cpu s') (unat (kh_npages s'))"
      "card (pmm_avail (km_pmm (cpu_mem (kh_cpu s)))) \<le>
       card (pmm_avail (km_pmm (cpu_mem (kh_cpu s')))) + 4 * (kh_need n bs - unat (kh_npages s))"
    by blast
  have "kh_in kh_lim (next_slot (last bs), n)" using kh_ok_last [OF s'(2)] by simp
  from next_slot_bounds(3) [OF this] have "unat (next_slot (next_slot (last bs), n)) \<le> ?top + 32 + unat n" by simp
  then have "unat (next_slot (last (bs @ [(next_slot (last bs), n)]))) + 4216 * j \<le> unat KH_START + 4096 * 0x40000"
    using bs(5) n by simp
  moreover have "8 * j \<le> card (pmm_avail (km_pmm (cpu_mem (kh_cpu s'))))" using s'(6) fr bs(6) by simp
  ultimately have "kheap_serves j s'" using s'(2-5) unfolding kheap_serves_def by blast
  moreover have "unat (next_slot (last bs) + 16) = ?top + 16"
    using bs(5) by (intro unat_add_u64 [where y = 16, simplified]) simp
  then have "next_slot (last bs) + 16 \<noteq> 0" by auto
  ultimately show ?thesis using s'(1) by blast
qed

interpretation kheap: block_heap "kheap_alloc pmm_alloc" kheap_serves
  by unfold_locales (rule kheap_alloc_block)

text \<open>The heap as \<open>kheap_init\<close> leaves it.\<close>

lemma kheap_init_serves:
  assumes "pg_wf pmm_ok pmm_avail (cpu_cr3 (kh_cpu s)) (cpu_mem (kh_cpu s))" and "kh_mutex s = 0"
    and "4 + 8 * j \<le> card (pmm_avail (km_pmm (cpu_mem (kh_cpu s))))" and "j \<le> 200000"
    and "pg_rw (km_mem (cpu_mem (kh_cpu s))) (cpu_cr3 (kh_cpu s))"
  shows "\<exists>s'. kheap_init pmm_alloc s = Ret (0, s') \<and> kheap_serves j s'"
proof -
  have "4 \<le> card (pmm_avail (km_pmm (cpu_mem (kh_cpu s))))" using assms(3) by simp
  from pmm.kheap_init_spec [OF assms(1,5) this] obtain s' where
    s': "kheap_init pmm_alloc s = Ret (0, s')" "kh_ok s' [(KH_START, 0)]" "kh_mutex s' = kh_mutex s"
      "pg_wf pmm_ok pmm_avail (cpu_cr3 (kh_cpu s')) (cpu_mem (kh_cpu s'))" "kh_backed (kh_cpu s') 1" "kh_npages s' = 1"
      "card (pmm_avail (km_pmm (cpu_mem (kh_cpu s)))) \<le> card (pmm_avail (km_pmm (cpu_mem (kh_cpu s')))) + 4"
    by blast
  have "next_slot (KH_START, 0) = KH_START + 32" by (simp add: next_slot_def)
  then have "kheap_serves j s'"
    unfolding kheap_serves_def using s'(2-7) assms(2-4) by (intro exI [of _ "[(KH_START, 0)]"]) simp
  then show ?thesis using s'(1) by blast
qed

lemma demo_heap_serves: "j \<le> 7 \<Longrightarrow> \<exists>k. kheap_init pmm_alloc demo_heap = Ret (0, k) \<and> kheap_serves j k"
  using demo_cpu_wf(1) demo_cpu_rw kheap_init_serves [of demo_heap j] by (simp add: demo_heap_def demo_cpu_def demo_kmem_avail)

end
