(* ===== verification/Ata_Probe.thy ===== *)
theory Ata_Probe
  imports Ata_Pio Block_Heap
begin

section \<open>Finding the disks\<close>

text \<open>
  What a bus answers to IDENTIFY DEVICE, as a contract of the ATA disk beside \<open>ata_disk\<close>; the result of
  \<open>ata_pio_dev_get\<close> and of \<open>blkdevs_find\<close> on buses that keep it, and on a bus without drives that floats.
\<close>

subsection \<open>The answer to IDENTIFY\<close>

text \<open>After the drive is no longer busy the status is read until it reports data.\<close>

inductive drq_polls :: "'b bus \<Rightarrow> u16 \<Rightarrow> u8 \<Rightarrow> 'b \<Rightarrow> 'b \<Rightarrow> bool" for bus :: "'b bus" and io :: u16 where
  drq_now: "v AND S_DRQ \<noteq> 0 \<Longrightarrow> v AND S_ERR = 0 \<Longrightarrow> drq_polls bus io v b b"
| drq_later: "v AND S_DRQ = 0 \<Longrightarrow> v AND S_ERR = 0 \<Longrightarrow> port_rd_u8 bus (io + IR_STATUS) b = (v1, b1) \<Longrightarrow>
    drq_polls bus io v1 b1 b' \<Longrightarrow> drq_polls bus io v b b'"

text \<open>The disk is idle again, with its contents and, up to a clearing, its selections.\<close>

definition disk_kept :: "('b \<Rightarrow> bool) \<Rightarrow> ('b \<Rightarrow> u16 \<Rightarrow> tfile) \<Rightarrow> ('b \<Rightarrow> u16 \<Rightarrow> bool \<Rightarrow> nat \<Rightarrow> u16 list) \<Rightarrow> u16 \<Rightarrow> 'b \<Rightarrow> 'b \<Rightarrow> bool" where
  "disk_kept idle tf disk io b b' \<longleftrightarrow> idle b' \<and> disk b' = disk b \<and> (\<forall>i. i \<noteq> io \<longrightarrow> tf_sel (tf b' i) = tf_sel (tf b i)) \<and>
     (tf_sel (tf b' io) = tf_sel (tf b io) \<or> tf_sel (tf b' io) = 0)"

text \<open>\<open>ident\<close> gives the 256 words of a drive; without a drive the status is 0.\<close>

definition identifies :: "'b bus \<Rightarrow> ('b \<Rightarrow> bool) \<Rightarrow> ('b \<Rightarrow> u16 \<Rightarrow> tfile) \<Rightarrow> ('b \<Rightarrow> u16 \<Rightarrow> bool \<Rightarrow> nat \<Rightarrow> u16 list) \<Rightarrow>
    u16 \<Rightarrow> u16 list option \<Rightarrow> 'b \<Rightarrow> 'b \<Rightarrow> bool" where
  "identifies bus idle tf disk io ws b b0 \<longleftrightarrow>
     (case ws of
        None \<Rightarrow> \<exists>b1. port_rd_u8 bus (io + IR_STATUS) b0 = (0, b1) \<and> disk_kept idle tf disk io b b1
      | Some ws \<Rightarrow> fst (port_rd_u8 bus (io + IR_STATUS) b0) \<noteq> 0 \<and> length ws = 256 \<and>
          (\<exists>v b1 b2 b3. polls bus io b0 v b1 \<and> v AND S_BSY = 0 \<and> drq_polls bus io v b1 b2 \<and>
             rd_words bus io 256 b2 = (ws, b3) \<and> disk_kept idle tf disk io b b3))"

definition ata_identify :: "'b bus \<Rightarrow> ('b \<Rightarrow> bool) \<Rightarrow> ('b \<Rightarrow> u16 \<Rightarrow> tfile) \<Rightarrow> ('b \<Rightarrow> u16 \<Rightarrow> bool \<Rightarrow> nat \<Rightarrow> u16 list) \<Rightarrow>
    (u16 \<Rightarrow> bool \<Rightarrow> u16 list option) \<Rightarrow> bool" where
  "ata_identify bus idle tf disk ident \<longleftrightarrow>
     (\<forall>b r. \<forall>io \<in> ata_buses. idle b \<longrightarrow> r \<in> {2, 3, 4, 5} \<longrightarrow> disk_kept idle tf disk io b (out_16 bus (io + r) 0 b)) \<and>
     (\<forall>b. \<forall>io \<in> ata_buses. idle b \<longrightarrow>
        identifies bus idle tf disk io (ident io (bit (tf_sel (tf b io)) 4)) b (out_8 bus (io + IR_CMD) 0xec b))"

lemma disk_kept_refl: "idle b \<Longrightarrow> disk_kept idle tf disk io b b"
  by (simp add: disk_kept_def)

lemma disk_kept_trans: "disk_kept idle tf disk io b b1 \<Longrightarrow> disk_kept idle tf disk io b1 b2 \<Longrightarrow> disk_kept idle tf disk io b b2"
  by (auto simp: disk_kept_def)

lemma polls_not_busy:
  "polls bus io b v b' \<Longrightarrow> v AND S_BSY = 0 \<Longrightarrow>
   \<exists>st b1. port_rd_u8 bus (io + IR_STATUS) b = (st, b1) \<and> wait_bsy bus io st b1 = Some (v, b')"
proof (induction rule: polls.induct)
  case (poll_done b v b')
  then show ?case by (simp add: wait_bsy.simps [of bus io v])
next
  case (poll_more b v b1 v' b')
  then show ?case by (auto simp: wait_bsy.simps [of bus io v])
qed

lemma drq_polls_wait: "drq_polls bus io v b b' \<Longrightarrow> \<exists>v'. wait_drq bus io v b = Some (v', b') \<and> v' AND S_ERR = 0"
proof (induction rule: drq_polls.induct)
  case (drq_now v b)
  then show ?case by (simp add: wait_drq.simps [of bus io v])
next
  case (drq_later v b v1 b1 b')
  then show ?case by (simp add: wait_drq.simps [of bus io v])
qed

text \<open>The registers before the command, in 16 and in 8 bits.\<close>

lemma ident_regs_16:
  assumes i: "ata_identify bus idle tf disk ident" and io: "io \<in> ata_buses"
  shows "idle b \<Longrightarrow> \<forall>x \<in> set rs. fst x \<in> {2, 3, 4, 5} \<and> snd x = 0 \<Longrightarrow> disk_kept idle tf disk io b (out_regs bus io PS_16 rs b)"
proof (induction rs arbitrary: b)
  case Nil
  then show ?case by (simp add: out_regs_def disk_kept_refl)
next
  case (Cons x rs)
  obtain r where x: "x = (r, 0)" "r \<in> {2, 3, 4, 5}" using Cons.prems(2) by (cases x) auto
  have "disk_kept idle tf disk io b (out_16 bus (io + r) 0 b)"
    using i io Cons.prems(1) x(2) unfolding ata_identify_def by blast
  moreover from this have "idle (out_16 bus (io + r) 0 b)" by (simp add: disk_kept_def)
  then have "disk_kept idle tf disk io (out_16 bus (io + r) 0 b) (out_regs bus io PS_16 rs (out_16 bus (io + r) 0 b))"
    using Cons.IH Cons.prems(2) by simp
  moreover have "out_regs bus io PS_16 (x # rs) b = out_regs bus io PS_16 rs (out_16 bus (io + r) 0 b)"
    by (simp add: out_regs_def x(1) port_wr_def)
  ultimately show ?case using disk_kept_trans by metis
qed

lemma ident_regs_8:
  assumes "ata_disk bus idle tf disk" and "io \<in> ata_buses" and "idle b"
  shows "disk_kept idle tf disk io b (out_regs bus io PS_8 ata_identify_regs b)"
proof -
  have "\<forall>x \<in> set ata_identify_regs. fst x \<in> {2, 3, 4, 5}" by (simp add: ata_identify_regs_def)
  from out_regs_put [OF assms this] show ?thesis
    by (simp add: disk_kept_def ata_identify_regs_def tf_put_def)
qed

subsection \<open>One device\<close>

text \<open>The device \<open>ata_pio_dev_get\<close> describes, and whether it has LBA.\<close>

definition id_dev :: "u16 \<Rightarrow> u16 \<Rightarrow> u8 \<Rightarrow> u16 list \<Rightarrow> ata_pio_dev" where
  "id_dev io ctl j ws = (let nsector = ucast (ws ! 60) OR push_bit 16 (ucast (ws ! 61)) in
     \<lparr>ad_sector_size = ucast (ws ! 51), ad_nsector = nsector, ad_bus_io_port = io, ad_bus_ctl_port = ctl,
      ad_dev_num = j, ad_support = ata_support ws nsector\<rparr>)"

definition id_lba :: "u16 list \<Rightarrow> bool" where
  "id_lba ws \<longleftrightarrow> ws ! 83 AND 0x400 \<noteq> 0 \<or> ws ! 60 \<noteq> 0 \<or> ws ! 61 \<noteq> 0"

lemma id_lba_support: "ad_support (id_dev io ctl j ws) AND APDS_LBA \<noteq> 0 \<longleftrightarrow> id_lba ws"
proof -
  let ?n = "ucast (ws ! 60) OR push_bit 16 (ucast (ws ! 61)) :: u64"
  have "?n = 0 \<longleftrightarrow> ws ! 60 = 0 \<and> ws ! 61 = 0"
  proof
    assume z: "?n = 0"
    have "bit (ws ! 60) k = False" for k
    proof -
      have "\<not> bit ?n k" using z by simp
      then show ?thesis by (cases "k < 16") (auto simp: bit_simps dest: bit_imp_le_length)
    qed
    moreover have "bit (ws ! 61) k = False" for k
    proof -
      have "\<not> bit ?n (16 + k)" using z by simp
      then show ?thesis by (cases "k < 16") (auto simp: bit_simps dest: bit_imp_le_length)
    qed
    ultimately show "ws ! 60 = 0 \<and> ws ! 61 = 0" by (simp add: bit_eq_iff)
  qed simp
  then show ?thesis by (simp add: id_dev_def Let_def ata_support_def id_lba_def)
qed

lemma cache_ok_kept: "cache_ok tf h \<Longrightarrow> disk_kept idle tf disk io (at_bus h) b \<Longrightarrow> tf_sel (tf (at_bus h) io) \<in> {0xa, 0xb, 0} \<Longrightarrow>
    cache_ok tf (h\<lparr>at_bus := b, at_mutex := m\<rparr>)"
  unfolding cache_ok_def disk_kept_def sel_is_def by simp metis

lemma kept_ready:
  assumes "ata_ready bus idle tf disk D h" and "cache_ok tf h'" and "disk (at_bus h') = disk (at_bus h)" and "idle (at_bus h')"
    and "at_mutex h' = 0"
  shows "ata_ready bus idle tf disk D h'"
  using assms by (simp add: ata_ready_def)

definition probe_rc :: "u16 list option \<Rightarrow> int" where
  "probe_rc ws = (case ws of None \<Rightarrow> 1 | Some ws \<Rightarrow> if id_lba ws then 0 else 1)"

text \<open>Up to the command the probe selects the drive and clears the registers; then the drive answers.\<close>

abbreviation id_regs :: "'b bus \<Rightarrow> u16 \<Rightarrow> 'b \<Rightarrow> 'b" where
  "id_regs bus io b \<equiv> out_regs bus io PS_8 ata_identify_regs (out_regs bus io PS_16 ata_identify_regs b)"

lemma probe_identifies:
  assumes ident: "ata_identify bus idle tf disk ident" and disk: "ata_disk bus idle tf disk" and io: "io \<in> ata_buses"
    and idle: "idle b" and sel: "tf_sel (tf b io) \<in> {0xa, 0xb, 0}"
  shows "disk_kept idle tf disk io b (id_regs bus io b)"
    "identifies bus idle tf disk io (ident io False) (id_regs bus io b) (out_8 bus (io + IR_CMD) 0xec (id_regs bus io b))"
proof -
  have k1: "disk_kept idle tf disk io b (out_regs bus io PS_16 ata_identify_regs b)"
    using ident_regs_16 [OF ident io idle, of ata_identify_regs] by (auto simp: ata_identify_regs_def)
  then have "idle (out_regs bus io PS_16 ata_identify_regs b)" by (simp add: disk_kept_def)
  then show k: "disk_kept idle tf disk io b (id_regs bus io b)" using ident_regs_8 [OF disk io] k1 disk_kept_trans by metis
  then have "\<not> bit (tf_sel (tf (id_regs bus io b) io)) 4" "idle (id_regs bus io b)"
    using sel by (auto simp: disk_kept_def bit_simps)
  moreover have "\<forall>b. \<forall>io \<in> ata_buses. idle b \<longrightarrow>
      identifies bus idle tf disk io (ident io (bit (tf_sel (tf b io)) 4)) b (out_8 bus (io + IR_CMD) 0xec b)"
    using ident unfolding ata_identify_def by (rule conjunct2)
  ultimately show "identifies bus idle tf disk io (ident io False) (id_regs bus io b)
      (out_8 bus (io + IR_CMD) 0xec (id_regs bus io b))" using io by metis
qed

lemma probe_selects:
  assumes ready: "ata_ready bus idle tf disk D h" and ident: "ata_identify bus idle tf disk ident" and io: "io \<in> ata_buses"
    and j: "j \<in> {0, 1}"
  obtains h1 where "sel_drive bus io j (0xa OR j) (h\<lparr>at_mutex := 1\<rparr>) = Ret h1" "at_mutex h1 = 1"
    "identifies bus idle tf disk io (ident io False) (id_regs bus io (at_bus h1))
      (out_8 bus (io + IR_CMD) 0xec (id_regs bus io (at_bus h1)))"
    "\<And>b. disk_kept idle tf disk io (id_regs bus io (at_bus h1)) b \<Longrightarrow>
      ata_ready bus idle tf disk D (h1\<lparr>at_bus := b, at_mutex := 0\<rparr>) \<and> disk b = disk (at_bus h)"
proof -
  have disk: "ata_disk bus idle tf disk" and idle: "idle (at_bus h)" and c: "cache_ok tf h" and m: "at_mutex h = 0"
    using ready by (simp_all add: ata_ready_def)
  have sel: "0xa OR j \<in> {0xa, 0xb}" using j by auto
  obtain h1 where h1: "sel_drive bus io j (0xa OR j) (h\<lparr>at_mutex := 1\<rparr>) = Ret h1" "idle (at_bus h1)" "cache_ok tf h1"
    "sel_is (0xa OR j) (tf_sel (tf (at_bus h1) io))" "disk (at_bus h1) = disk (at_bus h)" "at_mutex h1 = 1"
    using sel_drive_spec [OF disk, of "h\<lparr>at_mutex := 1\<rparr>" io j "0xa OR j"] idle c io by (auto simp: cache_ok_def)
  have s1: "tf_sel (tf (at_bus h1) io) \<in> {0xa, 0xb, 0}" using h1(4) sel by (auto simp: sel_is_def)
  note id = probe_identifies [OF ident disk io h1(2) s1]
  have "ata_ready bus idle tf disk D (h1\<lparr>at_bus := b, at_mutex := 0\<rparr>) \<and> disk b = disk (at_bus h)"
    if "disk_kept idle tf disk io (id_regs bus io (at_bus h1)) b" for b
  proof -
    have kb: "disk_kept idle tf disk io (at_bus h1) b" using disk_kept_trans [OF id(1) that] .
    then have d: "disk b = disk (at_bus h)" using h1(5) by (simp add: disk_kept_def)
    moreover have "ata_ready bus idle tf disk D (h1\<lparr>at_bus := b, at_mutex := 0\<rparr>)"
      using cache_ok_kept [OF h1(3) kb s1] d kb by (intro kept_ready [OF ready]) (simp_all add: disk_kept_def)
    ultimately show ?thesis by simp
  qed
  then show ?thesis using that h1(1,6) id(2) by blast
qed

lemma ata_pio_dev_get_run:
  assumes ready: "ata_ready bus idle tf disk D h" and ident: "ata_identify bus idle tf disk ident" and io: "io \<in> ata_buses"
    and j: "j \<in> {0, 1}"
  shows "\<exists>dev h'. ata_pio_dev_get bus out io ctl j h = Ret (probe_rc (ident io False), dev, h') \<and>
    ata_ready bus idle tf disk D h' \<and> disk (at_bus h') = disk (at_bus h) \<and>
    (probe_rc (ident io False) = 0 \<longrightarrow> dev = id_dev io ctl j (the (ident io False)))"
proof -
  have m: "at_mutex h = 0" using ready by (simp add: ata_ready_def)
  obtain h1 where h1: "sel_drive bus io j (0xa OR j) (h\<lparr>at_mutex := 1\<rparr>) = Ret h1" "at_mutex h1 = 1"
    "identifies bus idle tf disk io (ident io False) (id_regs bus io (at_bus h1))
      (out_8 bus (io + IR_CMD) 0xec (id_regs bus io (at_bus h1)))"
    "\<And>b. disk_kept idle tf disk io (id_regs bus io (at_bus h1)) b \<Longrightarrow>
      ata_ready bus idle tf disk D (h1\<lparr>at_bus := b, at_mutex := 0\<rparr>) \<and> disk b = disk (at_bus h)"
    using probe_selects [OF assms] by blast
  let ?b = "id_regs bus io (at_bus h1)"
  let ?bc = "out_8 bus (io + IR_CMD) 0xec ?b"
  have spin: "ku_spin_cycles 100 = Ret ()" by (rule ku_spin_cycles_ends) simp
  have un: "at_unlock (h1\<lparr>at_bus := b\<rparr>) = Ret (h1\<lparr>at_bus := b, at_mutex := 0\<rparr>)" for b by (simp add: at_unlock_def h1(2))
  show ?thesis
  proof (cases "ident io False")
    case None
    then obtain b1 where b1: "port_rd_u8 bus (io + IR_STATUS) ?bc = (0, b1)" "disk_kept idle tf disk io ?b b1"
      using h1(3) by (auto simp: identifies_def)
    then show ?thesis using None h1(4) [OF b1(2)] h1(1) m un [of b1] spin
      by (simp add: ata_pio_dev_get_def Let_def port_wr_8 probe_rc_def)
  next
    case (Some ws)
    then obtain v b1 b2 b3 where r: "fst (port_rd_u8 bus (io + IR_STATUS) ?bc) \<noteq> 0" "polls bus io ?bc v b1"
      "v AND S_BSY = 0" "drq_polls bus io v b1 b2" "rd_words bus io 256 b2 = (ws, b3)" "disk_kept idle tf disk io ?b b3"
      using h1(3) by (auto simp: identifies_def)
    obtain st b' where st: "port_rd_u8 bus (io + IR_STATUS) ?bc = (st, b')" "wait_bsy bus io st b' = Some (v, b1)"
      using polls_not_busy [OF r(2,3)] by blast
    obtain v' where dr: "wait_drq bus io v b1 = Some (v', b2)" "v' AND S_ERR = 0" using drq_polls_wait [OF r(4)] by blast
    have lba: "ata_support ws (ucast (ws ! 60) OR push_bit 16 (ucast (ws ! 61))) AND APDS_LBA \<noteq> 0 \<longleftrightarrow> id_lba ws"
      using id_lba_support [of io ctl j ws] by (simp add: id_dev_def Let_def)
    have "ata_pio_dev_get bus out io ctl j h =
        Ret (if id_lba ws then 0 else 1, id_dev io ctl j ws, h1\<lparr>at_bus := b3, at_mutex := 0\<rparr>)"
      using r(1) h1(1) m un [of b3] spin st dr r(5) lba
      by (cases "id_lba ws") (simp_all add: ata_pio_dev_get_def Let_def port_wr_8 id_dev_def)
    then show ?thesis using Some h1(4) [OF r(6)] by (simp add: probe_rc_def)
  qed
qed

subsection \<open>All devices\<close>

text \<open>The devices the probes find, and the slot of the registry made for one.\<close>

definition found :: "(u16 \<Rightarrow> bool \<Rightarrow> u16 list option) \<Rightarrow> (u16 \<times> u16 \<times> u8) list \<Rightarrow> ata_pio_dev list" where
  "found ident ps = concat (map (\<lambda>(io, ctl, j).
     if probe_rc (ident io False) = 0 then [id_dev io ctl j (the (ident io False))] else []) ps)"

definition probed :: "'b bus \<Rightarrow> ata_pio_dev \<Rightarrow> (ata_pio_dev, 'b ata) bd_slot \<Rightarrow> bool" where
  "probed bus dev sl \<longleftrightarrow> (\<exists>p. p \<noteq> 0 \<and> sl =
     (\<lparr>bd_driver_data = dev, bd_rd = Some (ata_pio_blkdev_rd bus), bd_wr = Some (ata_pio_blkdev_wr bus), bd_children = p,
       bd_part_base = 0, bd_flags = 0, bd_dev_type = BDT_DISK_DRIVE, bd_driver = BD_ATA_PIO, bd_blk_size = ad_sector_size dev,
       bd_nblk = ad_nsector dev, bd_mutex = 0, bd_parent_mutex = None\<rparr>, []))"

lemma found_cons:
  "found ident ((io, ctl, j) # ps) =
     (if probe_rc (ident io False) = 0 then [id_dev io ctl j (the (ident io False))] else []) @ found ident ps"
  by (simp add: found_def)

lemma probed_served:
  assumes "list_all2 (probed bus) devs (dk_slots s)" and "\<forall>d \<in> set devs. ata_valid D d" and "ata_ready bus idle tf disk D (dk_hw s)"
  shows "ata.served bus idle tf disk D s"
proof -
  have "ata.dev_ok bus D (fst sl) \<and> bd_part_base (fst sl) = 0 \<and> snd sl = [] \<and> slot_ok i sl" if "sl \<in> set (dk_slots s)" for sl i
  proof -
    obtain k where k: "k < length (dk_slots s)" "dk_slots s ! k = sl" using \<open>sl \<in> set (dk_slots s)\<close> by (auto simp: in_set_conv_nth)
    then have "devs ! k \<in> set devs" "probed bus (devs ! k) sl" using assms(1) by (auto simp: list_all2_conv_all_nth)
    then show ?thesis using assms(2) by (auto simp: probed_def ata.dev_ok_def slot_ok_def)
  qed
  then show ?thesis using assms(3) by (auto simp: ata.served_def bd_ok_def)
qed

context block_heap
begin

lemma ata_blkdev_create_run:
  assumes "serves (Suc (Suc n)) (dk_heap s)"
  shows "\<exists>bd k. ata_pio_blkdev_create kalloc bus dev s = Ret (bd, s\<lparr>dk_heap := k\<rparr>) \<and> probed bus dev (bd, []) \<and> serves n k"
proof -
  obtain p k where p: "kalloc 24 (dk_heap s) = Ret (p, k)" "p \<noteq> 0" "serves (Suc n) k"
    using kalloc_serves [OF assms, of 24] by auto
  obtain p' k' where "kalloc 3072 k = Ret (p', k')" "p' \<noteq> 0" "serves n k'" using kalloc_serves [OF p(3), of 3072] by auto
  then show ?thesis using p by (auto simp: ata_pio_blkdev_create_def blkdev_create_def probed_def)
qed

lemma blkdevs_probe_run:
  assumes ident: "ata_identify bus idle tf disk ident"
  shows "ata_ready bus idle tf disk D (dk_hw s) \<Longrightarrow> serves (2 * length (found ident ps) + n) (dk_heap s) \<Longrightarrow>
    list_all2 (probed bus) devs (dk_slots s) \<Longrightarrow> length devs + length ps \<le> MAX_BLKDEV_CNT \<Longrightarrow>
    \<forall>(io, ctl, j) \<in> set ps. io \<in> ata_buses \<and> j \<in> {0, 1} \<Longrightarrow>
    \<exists>s'. blkdevs_probe kalloc bus dev0 ps s = Ret s' \<and> ata_ready bus idle tf disk D (dk_hw s') \<and>
      ata_sector disk (dk_hw s') = ata_sector disk (dk_hw s) \<and>
      list_all2 (probed bus) (devs @ found ident ps) (dk_slots s') \<and> serves n (dk_heap s')"
proof (induction ps arbitrary: s devs)
  case Nil
  then show ?case by (simp add: found_def)
next
  case (Cons x ps)
  obtain io ctl j where x: "x = (io, ctl, j)" by (cases x)
  let ?w = "ident io False"
  have io: "io \<in> ata_buses" "j \<in> {0, 1}" using Cons.prems(5) x by auto
  obtain dev h where g: "ata_pio_dev_get bus dev0 io ctl j (dk_hw s) = Ret (probe_rc ?w, dev, h)"
    "ata_ready bus idle tf disk D h" "disk (at_bus h) = disk (at_bus (dk_hw s))" "probe_rc ?w = 0 \<longrightarrow> dev = id_dev io ctl j (the ?w)"
    using ata_pio_dev_get_run [OF Cons.prems(1) ident io] by blast
  have sec: "ata_sector disk h = ata_sector disk (dk_hw s)" using g(3) by (simp add: ata_sector_def fun_eq_iff)
  show ?case
  proof (cases "probe_rc ?w = 0")
    case False
    let ?s = "s\<lparr>dk_hw := h\<rparr>"
    have "found ident (x # ps) = found ident ps" using False by (simp add: x found_cons)
    moreover have "blkdevs_probe kalloc bus dev0 (x # ps) s = blkdevs_probe kalloc bus dev0 ps ?s" using False g(1) by (simp add: x)
    ultimately show ?thesis using Cons.IH [of ?s devs] Cons.prems g(2) sec by simp
  next
    case True
    have f: "found ident (x # ps) = dev # found ident ps" using True g(4) by (simp add: x found_cons)
    then have "serves (Suc (Suc (2 * length (found ident ps) + n))) (dk_heap (s\<lparr>dk_hw := h\<rparr>))" using Cons.prems(2) by simp
    from ata_blkdev_create_run [OF this, of bus dev] obtain bd k where
      c: "ata_pio_blkdev_create kalloc bus dev (s\<lparr>dk_hw := h\<rparr>) = Ret (bd, s\<lparr>dk_hw := h, dk_heap := k\<rparr>)" "probed bus dev (bd, [])"
        "serves (2 * length (found ident ps) + n) k" by auto
    let ?s = "s\<lparr>dk_hw := h, dk_heap := k, dk_slots := dk_slots s @ [(bd, [])]\<rparr>"
    have "length (dk_slots s) = length devs" using Cons.prems(3) by (simp add: list_all2_lengthD)
    then have "blkdevs_probe kalloc bus dev0 (x # ps) s = blkdevs_probe kalloc bus dev0 ps ?s"
      using True g(1) c(1) Cons.prems(4) by (simp add: x blkdev_register_def)
    moreover have "list_all2 (probed bus) (devs @ [dev]) (dk_slots ?s)" using Cons.prems(3) c(2) by (simp add: list_all2_appendI)
    ultimately show ?thesis using Cons.IH [of ?s "devs @ [dev]"] Cons.prems(4,5) g(2) sec c(3) f by simp
  qed
qed

lemma blkdevs_find_run:
  assumes "ata_ready bus idle tf disk D (dk_hw s)" and "ata_identify bus idle tf disk ident"
    and "serves (2 * length (found ident ata_probe) + n) (dk_heap s)"
  shows "\<exists>s'. blkdevs_find kalloc bus dev0 s = Ret s' \<and> ata_ready bus idle tf disk D (dk_hw s') \<and>
      ata_sector disk (dk_hw s') = ata_sector disk (dk_hw s) \<and>
      list_all2 (probed bus) (found ident ata_probe) (dk_slots s') \<and> serves n (dk_heap s')"
proof -
  have "\<forall>(io, ctl, j) \<in> set ata_probe. io \<in> ata_buses \<and> j \<in> {0, 1}" by (auto simp: ata_probe_def ata_buses_def)
  moreover have "length ata_probe \<le> MAX_BLKDEV_CNT" by (simp add: ata_probe_def)
  ultimately show ?thesis
    using blkdevs_probe_run [OF assms(2), of D "s\<lparr>dk_slots := []\<rparr>" ata_probe n "[]" dev0] assms(1,3) by (simp add: blkdevs_find_def)
qed

end

subsection \<open>The disks in memory\<close>

definition ram_ident :: "u16 list \<Rightarrow> u16 \<Rightarrow> bool \<Rightarrow> u16 list option" where
  "ram_ident ws io drv = (if io = 0x1f0 then Some ws else None)"

lemma ram_identify:
  assumes "length ws = 256"
  shows "ata_identify (id_bus ws) ra_idle ra_tf ra_words (ram_ident ws)"
proof -
  have w: "ra_words (b\<lparr>ra_left := l\<rparr>) = ra_words b" for b l by (simp add: ra_words_def fun_eq_iff)
  have "identifies (id_bus ws) ra_idle ra_tf ra_words io (ram_ident ws io drv) b (out_8 (id_bus ws) (io + IR_CMD) 0xec b)"
    if "io \<in> ata_buses" "ra_idle b" for io b drv
  proof -
    note o = ram_ports(3) [OF that(1), of ws "0xec" b]
    show ?thesis
    proof (cases "io = 0x1f0")
      case True
      let ?b = "ra_cmd ws 0x1f0 0xec b"
      have p: "polls (id_bus ws) 0x1f0 ?b 0x58 ?b" using ram_polls [of ws "0x1f0" ?b] by simp
      have d: "drq_polls (id_bus ws) 0x1f0 0x58 ?b ?b" by (rule drq_now) simp_all
      have r: "rd_words (id_bus ws) 0x1f0 256 ?b = (ws, ?b\<lparr>ra_left := []\<rparr>)"
        using ram_rd_words [of ?b ws ws "0x1f0"] assms by (simp add: ra_cmd_def)
      have k: "disk_kept ra_idle ra_tf ra_words 0x1f0 b (?b\<lparr>ra_left := []\<rparr>)"
        by (simp add: disk_kept_def ra_idle_def w ra_cmd_def)
      have f: "fst (port_rd_u8 (id_bus ws) 0x1f7 ?b) = 0x58" by (simp add: port_rd_u8_in id_bus_def)
      have "\<exists>v b1 b2 b3. polls (id_bus ws) 0x1f0 ?b v b1 \<and> v AND S_BSY = 0 \<and> drq_polls (id_bus ws) 0x1f0 v b1 b2 \<and>
          rd_words (id_bus ws) 0x1f0 256 b2 = (ws, b3) \<and> disk_kept ra_idle ra_tf ra_words 0x1f0 b b3"
        by (intro exI [of _ "0x58"] exI [of _ ?b] exI [of _ "?b\<lparr>ra_left := []\<rparr>"] conjI p d r k) simp
      then show ?thesis unfolding True o [unfolded True] ram_ident_def identifies_def using f assms by simp
    next
      case False
      then have "io = 0x170" using that(1) by (simp add: ata_buses_def)
      then show ?thesis unfolding o ram_ident_def identifies_def
        using that(2) by (simp add: port_rd_u8_in id_bus_def disk_kept_def ra_cmd_def w ra_idle_def)
    qed
  qed
  moreover have "disk_kept ra_idle ra_tf ra_words io b (out_16 (id_bus ws) p 0 b)" if "ra_idle b" for io b p
    using that by (simp add: id_bus_def disk_kept_refl)
  ultimately show ?thesis unfolding ata_identify_def by simp
qed

text \<open>What a drive of 65536 sectors of 512 bytes answers, as far as the driver looks at it.\<close>

definition id_words :: "u16 list" where
  "id_words = (replicate 256 0)[51 := 512, 61 := 1]"

definition ram_pair :: "ata_pio_dev list" where
  "ram_pair = map (\<lambda>j. \<lparr>ad_sector_size = 512, ad_nsector = 65536, ad_bus_io_port = 0x1f0, ad_bus_ctl_port = 0x3f6,
     ad_dev_num = j, ad_support = 1\<rparr>) [0, 1]"

lemma ram_found: "found (ram_ident id_words) ata_probe = ram_pair"
proof -
  have a: "id_words ! 60 = 0" "id_words ! 61 = 1" "id_words ! 51 = 512" "id_words ! 83 = 0" by (simp_all add: id_words_def)
  then have "id_lba id_words" by (simp add: id_lba_def)
  then show ?thesis
    by (simp add: ata_probe_def found_def probe_rc_def ram_ident_def id_dev_def a ram_pair_def ata_support_def)
qed

text \<open>The sectors of a disk with a FAT16 file system: its boot sector, and zeroes.\<close>

definition fat_img :: "nat \<Rightarrow> u16 list" where
  "fat_img n =
     (if n = 0 then [0, 0, 0, 0, 0, 0, 0x0102, 1, 0x1002, 0, 0xf800, 0x10, 0, 0, 0, 0, 0, 1] @ replicate 237 0 @ [0xaa55]
      else replicate 256 0)"

subsection \<open>A bus without drives\<close>

text \<open>
  A bus nothing is connected to reads as all ones: the drive looks busy, and the driver waits for it without
  an end.
\<close>

lemma wait_bsy_floating:
  assumes "\<forall>p b. fst (in_8 bus p b) = 0xff" and "v AND S_BSY \<noteq> 0"
  shows "wait_bsy bus io v b = None"
proof (cases "wait_bsy bus io v b")
  case (Some r)
  have "(\<forall>p b. fst (in_8 bus p b) = 0xff) \<longrightarrow> v AND S_BSY \<noteq> 0 \<longrightarrow> False"
  proof (rule wait_bsy.raw_induct [OF _ Some, where P = "\<lambda>bus io v b r. (\<forall>p b. fst (in_8 bus p b) = 0xff) \<longrightarrow> v AND S_BSY \<noteq> 0 \<longrightarrow> False"])
    fix rec and bus :: "'a bus" and io :: u16 and v :: u8 and b r
    assume ih: "\<And>bus io v b r. rec bus io v b = Some r \<Longrightarrow> (\<forall>p b. fst (in_8 bus p b) = 0xff) \<longrightarrow> v AND S_BSY \<noteq> 0 \<longrightarrow> False"
      and eq: "(if v AND S_BSY \<noteq> 0 then case port_rd_u8 bus (io + IR_STATUS) b of (v, b') \<Rightarrow> rec bus io v b' else Some (v, b)) = Some r"
    show "(\<forall>p b. fst (in_8 bus p b) = 0xff) \<longrightarrow> v AND S_BSY \<noteq> 0 \<longrightarrow> False"
    proof (intro impI)
      assume ff: "\<forall>p b. fst (in_8 bus p b) = 0xff" and bsy: "v AND S_BSY \<noteq> 0"
      obtain v1 b1 where v1: "port_rd_u8 bus (io + IR_STATUS) b = (v1, b1)" by fastforce
      then have "v1 = 0xff" using ff by (metis port_rd_u8_in fst_conv)
      then show False using ih [of bus io v1 b1 r] eq bsy ff v1 by simp
    qed
  qed
  then show ?thesis using assms by blast
qed simp

lemma ata_probe_floating:
  assumes f: "\<forall>p b. fst (in_8 bus p b) = 0xff" and "at_cache h = []" and "at_mutex h = 0"
  shows "ata_pio_dev_get bus out io ctl j h = Spin"
proof -
  have spin: "ku_spin_cycles 1000 = Ret ()" "ku_spin_cycles 100 = Ret ()" by (rule ku_spin_cycles_ends, simp)+
  have st: "port_rd_u8 bus p b = (0xff, snd (in_8 bus p b))" for p b using f by (simp add: port_rd_u8_in prod_eq_iff)
  show ?thesis
    using assms(2,3) wait_bsy_floating [OF f, of "0xff"]
    by (simp add: ata_pio_dev_get_def sel_drive_def Let_def spin st)
qed

theorem blkdevs_find_floating:
  assumes "\<forall>p b. fst (in_8 bus p b) = 0xff" and "at_cache (dk_hw s) = []" and "at_mutex (dk_hw s) = 0"
  shows "blkdevs_find kalloc bus dev0 s = Spin"
  using assms by (simp add: blkdevs_find_def ata_probe_def ata_probe_floating)

subsection \<open>Properties\<close>

lemma found_pairs:
  "found ident ata_probe = concat (map (\<lambda>(io, ctl). if probe_rc (ident io False) = 0
      then map (\<lambda>j. id_dev io ctl j (the (ident io False))) [0, 1] else []) [(0x1f0, 0x3f6), (0x170, 0x376)])"
  by (simp add: ata_probe_def found_def)

text \<open>
  C21: on buses that answer IDENTIFY, and with a heap that can serve two blocks for every device,
  \<open>blkdevs_find\<close> returns and registers, in the order of the buses, the drives that report LBA; but both probes of
  a bus identify its drive 0, so that every bus with such a drive gives two devices of the same size,
  whether there is a second drive or not.
\<close>
theorem blkdevs_find_devices:
  assumes "ata_ready bus idle tf disk D (dk_hw s)" and "ata_identify bus idle tf disk ident"
    and "kheap_serves (2 * length (found ident ata_probe) + n) (dk_heap s)"
  shows "\<exists>s'. blkdevs_find (kheap_alloc pmm_alloc) bus dev0 s = Ret s' \<and> ata_ready bus idle tf disk D (dk_hw s') \<and>
    ata_sector disk (dk_hw s') = ata_sector disk (dk_hw s) \<and> kheap_serves n (dk_heap s') \<and>
    list_all2 (probed bus) (found ident ata_probe) (dk_slots s') \<and>
    found ident ata_probe = concat (map (\<lambda>(io, ctl). if probe_rc (ident io False) = 0
      then map (\<lambda>j. id_dev io ctl j (the (ident io False))) [0, 1] else []) [(0x1f0, 0x3f6), (0x170, 0x376)])"
  using kheap.blkdevs_find_run [OF assms, of dev0] found_pairs by blast

theorem blkdevs_find_devices_witness:
  "\<exists>k s'. kheap_init pmm_alloc demo_heap = Ret (0, k) \<and>
     blkdevs_find (kheap_alloc pmm_alloc) (id_bus id_words) (ram_pair ! 0) \<lparr>dk_slots = [], dk_hw = ram_ata_of fat_img, dk_heap = k\<rparr> = Ret s' \<and>
     list_all2 (probed (id_bus id_words)) ram_pair (dk_slots s')"
proof -
  have "ata_ready (id_bus id_words) ra_idle ra_tf ra_words (set ram_pair) (ram_ata_of fat_img)"
    by (rule ram_ready_of) (auto simp: ram_pair_def fat_img_def)
  moreover have "ata_identify (id_bus id_words) ra_idle ra_tf ra_words (ram_ident id_words)"
    by (rule ram_identify) (simp add: id_words_def)
  moreover obtain k where k: "kheap_init pmm_alloc demo_heap = Ret (0, k)" "kheap_serves 4 k"
    using demo_heap_serves [of 4] by auto
  moreover have "2 * length (found (ram_ident id_words) ata_probe) = 4" by (simp add: ram_found ram_pair_def)
  ultimately show ?thesis
    using blkdevs_find_devices [of "id_bus id_words" ra_idle ra_tf ra_words "set ram_pair"
        "\<lparr>dk_slots = [], dk_hw = ram_ata_of fat_img, dk_heap = k\<rparr>" "ram_ident id_words" 0 "ram_pair ! 0"]
    by (auto simp: ram_found)
qed

end
