(* ===== verification/Mount.thy ===== *)
theory Mount
  imports Vfs Mbr Ata_Probe "HOL-Library.Product_Lexorder"
begin

section \<open>From partition tables to mounted drives\<close>

text \<open>
  What \<open>vfs_auto_mount\<close> does: every disk and every partition that holds a FAT file system is mounted, in the
  order of the registry.  Shown over the interfaces of the disk driver and the heap, then for the ATA disk and the
  kernel heap.
\<close>

subsection \<open>Which devices are mounted\<close>

text \<open>All devices in the order \<open>vfs_auto_mount\<close> visits them: each disk, then its partitions.\<close>

definition tree_refs :: "('d, 'h) bd_slot list \<Rightarrow> nat \<Rightarrow> bd_ref list" where
  "tree_refs sl i = Dev i # map (Part i) [0..<length (snd (sl ! i))]"

definition all_refs :: "('d, 'h) bd_slot list \<Rightarrow> bd_ref list" where
  "all_refs sl = concat (map (tree_refs sl) [0..<length sl])"

text \<open>Devices are ordered by their slot, a disk before its partitions.\<close>

primrec ref_key :: "bd_ref \<Rightarrow> nat \<times> nat" where
  "ref_key (Dev i) = (i, 0)"
| "ref_key (Part i j) = (i, Suc j)"

lemma ref_key_inj: "ref_key r = ref_key s \<Longrightarrow> r = s"
  by (cases r; cases s) auto

instantiation bd_ref :: linorder
begin

definition less_eq_bd_ref :: "bd_ref \<Rightarrow> bd_ref \<Rightarrow> bool" where
  "less_eq_bd_ref r s \<longleftrightarrow> ref_key r \<le> ref_key s"

definition less_bd_ref :: "bd_ref \<Rightarrow> bd_ref \<Rightarrow> bool" where
  "less_bd_ref r s \<longleftrightarrow> ref_key r < ref_key s"

instance
  by standard (auto simp: less_eq_bd_ref_def less_bd_ref_def intro: ref_key_inj)

end

lemma tree_refs_slot: "r \<in> set (tree_refs sl i) \<Longrightarrow> fst (ref_key r) = i"
  by (auto simp: tree_refs_def)

lemma tree_refs_sorted: "sorted_wrt (<) (tree_refs sl i)"
  using sorted_wrt_upt [of 0 "length (snd (sl ! i))"] by (simp add: tree_refs_def sorted_wrt_map less_bd_ref_def)

lemma trees_sorted: "sorted_wrt (<) ks \<Longrightarrow> sorted_wrt (<) (concat (map (tree_refs sl) ks))"
proof (induction ks)
  case (Cons i ks)
  have "r < s" if "r \<in> set (tree_refs sl i)" "k \<in> set ks" "s \<in> set (tree_refs sl k)" for r s k
  proof -
    have "i < k" using that(2) Cons.prems by simp
    then show ?thesis using tree_refs_slot [OF that(1)] tree_refs_slot [OF that(3)]
      by (cases "ref_key r"; cases "ref_key s") (simp add: less_bd_ref_def)
  qed
  then show ?case using Cons tree_refs_sorted by (auto simp: sorted_wrt_append)
qed simp

lemma all_refs_sorted: "sorted_wrt (<) (all_refs sl)"
  unfolding all_refs_def by (rule trees_sorted) (simp add: sorted_wrt_upt)

lemma all_refs_distinct: "distinct (all_refs sl)"
  using all_refs_sorted [of sl] by (simp add: strict_sorted_iff)

lemma all_refs_set: "set (all_refs sl) = {r. bd_at r sl \<noteq> None}"
proof (intro set_eqI)
  fix r show "r \<in> set (all_refs sl) \<longleftrightarrow> r \<in> {r. bd_at r sl \<noteq> None}"
    by (cases r) (force simp: all_refs_def tree_refs_def)+
qed

text \<open>So the visit is the increasing list of everything that is registered.\<close>

lemma all_refs_ordered: "all_refs sl = sorted_list_of_set {r. bd_at r sl \<noteq> None}"
  using all_refs_sorted [of sl] all_refs_set [of sl] by (metis sorted_list_of_set.idem_if_sorted_distinct strict_sorted_iff)

lemma all_refs_at: "r \<in> set (all_refs sl) \<Longrightarrow> bd_at r sl \<noteq> None"
  by (simp add: all_refs_set)

text \<open>What is asked of a boot sector, without the divisions.\<close>

definition fat_fields :: "u8 list \<Rightarrow> bool" where
  "fat_fields buf \<longleftrightarrow> rd16 buf 510 = 0xaa55 \<and> bp_sector_size (bpb_of buf) = 512 \<and> bp_fat_sectors (bpb_of buf) \<noteq> 0"

text \<open>A boot sector of a FAT16 file system, and one the verification divides by zero on.\<close>

definition fat_sector :: "u8 list \<Rightarrow> bool" where
  "fat_sector buf \<longleftrightarrow> fat_fields buf \<and> bpb_sector_cnt (bpb_of buf) \<noteq> 0 \<and>
     (\<exists>root data cnt. bpb_geometry (bpb_of buf) = Ret (root, data, cnt) \<and> 4085 \<le> cnt)"

definition zero_cluster :: "u8 list \<Rightarrow> bool" where
  "zero_cluster buf \<longleftrightarrow> fat_fields buf \<and> bp_cluster_size (bpb_of buf) = 0"

text \<open>The first drives of the table are mounted on the devices \<open>ms\<close>, and no others.\<close>

definition mounted_on :: "('fd, 'w) drive list \<Rightarrow> bd_ref list \<Rightarrow> bool" where
  "mounted_on drives ms \<longleftrightarrow> length drives = NDRIVES \<and> length ms \<le> NDRIVES \<and>
     (\<forall>i < NDRIVES. is_mounted (drives ! i) \<longleftrightarrow> i < length ms) \<and>
     (\<forall>i < length ms. dr_blkdev (drives ! i) = Some (ms ! i) \<and> dr_fs (drives ! i) = VF_FAT_16)"

lemma find_slot_first:
  "i < length drives \<Longrightarrow> (\<forall>j < i. is_mounted (drives ! j)) \<Longrightarrow> \<not> is_mounted (drives ! i) \<Longrightarrow>
   vfs_find_slot drives k = Some (k + i)"
proof (induction drives arbitrary: i k)
  case (Cons d ds)
  show ?case
  proof (cases i)
    case 0
    then show ?thesis using Cons.prems by simp
  next
    case (Suc j)
    then have "is_mounted d" using Cons.prems(2) by force
    moreover have "vfs_find_slot ds (Suc k) = Some (Suc k + j)"
      using Suc Cons.prems by (intro Cons.IH) force+
    ultimately show ?thesis using Suc by simp
  qed
qed simp

lemma find_slot_full: "\<forall>d \<in> set drives. is_mounted d \<Longrightarrow> vfs_find_slot drives k = None"
  by (induction drives arbitrary: k) auto

lemma mounted_on_slot:
  assumes "mounted_on drives ms"
  shows "vfs_find_slot drives 0 = (if length ms < NDRIVES then Some (length ms) else None)"
proof (cases "length ms < NDRIVES")
  case True
  then show ?thesis using assms find_slot_first [of "length ms" drives 0] by (simp add: mounted_on_def)
next
  case False
  then have "\<forall>d \<in> set drives. is_mounted d" using assms by (auto simp: mounted_on_def in_set_conv_nth)
  then show ?thesis using False by (simp add: find_slot_full)
qed

lemma mounted_on_get:
  assumes "mounted_on drives ms"
  shows "vfs_get_mount_fs drives r = VF_NULL \<longleftrightarrow> r \<notin> set ms"
proof -
  have "\<forall>d \<in> set drives. is_mounted d \<longrightarrow> dr_fs d \<noteq> VF_NULL"
    using assms by (auto simp: mounted_on_def in_set_conv_nth)
  moreover have "(\<forall>d \<in> set drives. is_mounted d \<longrightarrow> dr_blkdev d \<noteq> Some r) \<longleftrightarrow> r \<notin> set ms"
  proof
    assume a: "\<forall>d \<in> set drives. is_mounted d \<longrightarrow> dr_blkdev d \<noteq> Some r"
    show "r \<notin> set ms"
    proof
      assume "r \<in> set ms"
      then obtain i where i: "i < length ms" "ms ! i = r" by (auto simp: in_set_conv_nth)
      with assms have "drives ! i \<in> set drives" "is_mounted (drives ! i)" "dr_blkdev (drives ! i) = Some r"
        by (auto simp: mounted_on_def)
      with a show False by blast
    qed
  next
    assume "r \<notin> set ms"
    then show "\<forall>d \<in> set drives. is_mounted d \<longrightarrow> dr_blkdev d \<noteq> Some r"
      using assms by (auto simp: mounted_on_def in_set_conv_nth)
  qed
  ultimately show ?thesis by (simp add: vfs_get_mount_fs_null)
qed

lemma mounted_on_add:
  assumes "mounted_on drives ms" and "length ms < NDRIVES" and "is_mounted d" and "dr_blkdev d = Some r" and "dr_fs d = VF_FAT_16"
  shows "mounted_on (drives[length ms := d]) (ms @ [r])"
  using assms by (auto simp: mounted_on_def nth_list_update nth_append less_Suc_eq)

lemma mounted_cnt: "mounted_on drives ms \<Longrightarrow> vfs_cnt_mounted drives = length ms"
proof -
  assume m: "mounted_on drives ms"
  then have len: "length drives = 255" "length ms \<le> 255" by (simp_all add: mounted_on_def)
  have "map (\<lambda>d. of_bool (is_mounted d)) drives = replicate (length ms) 1 @ replicate (255 - length ms) (0 :: nat)"
    using m len by (intro nth_equalityI) (auto simp: mounted_on_def nth_append)
  then have "(\<Sum>d \<leftarrow> drives. of_bool (is_mounted d)) = length ms" by (simp add: sum_list_replicate)
  then show "vfs_cnt_mounted drives = length ms" by (simp add: vfs_cnt_mounted_def)
qed

text \<open>The verification and the driver, once the boot sector is read.\<close>

lemma geometry_total: "fat_fields buf \<Longrightarrow> \<not> zero_cluster buf \<Longrightarrow> \<exists>root data cnt. bpb_geometry (bpb_of buf) = Ret (root, data, cnt)"
  unfolding zero_cluster_def fat_fields_def bpb_geometry_def Let_def by simp

lemma fat_verify_boot:
  assumes g: "bd_get r s = Ret bd" and b: "bd_blk_size bd = 512" and rd: "blkdev_rd r stk 0 1 s = Ret (0, buf, s')"
    and z: "\<not> zero_cluster buf"
  shows "fat_verify stk r s = Ret (if fat_sector buf then 0 else 1, s')"
proof (cases "fat_fields buf")
  case False
  obtain x where x: "bpb_of buf = x" by blast
  have n: "\<not> fat_sector buf" using False by (simp add: fat_sector_def)
  from False n show ?thesis unfolding fat_fields_def fat_verify_def g seq.simps b rd Let_def x prod.case by simp
next
  case True
  obtain x where x: "bpb_of buf = x" by blast
  obtain root data cnt where geo: "bpb_geometry x = Ret (root, data, cnt)" using geometry_total [OF True z] x by blast
  have on: "fat_sector buf \<longleftrightarrow> bpb_sector_cnt x \<noteq> 0 \<and> \<not> cnt < 4085"
    unfolding fat_sector_def x not_less using True geo by simp
  show ?thesis using True
    unfolding fat_fields_def fat_verify_def g seq.simps b rd Let_def x prod.case geo on by simp
qed

lemma fat_driver_boot:
  assumes v: "fat_verify stk r s = Ret (0, s1)" and rd: "blkdev_rd r stk 0 1 s1 = Ret (0, buf, s2)" and f: "fat_sector buf"
    and c: "blk_cache_create kalloc junk r s2 = Ret (c, s3)"
  shows "\<exists>drv. fat_driver_create kalloc junk stk r s = Ret (Some drv, s3)"
proof -
  obtain x where x: "bpb_of buf = x" by blast
  obtain root data cnt where geo: "bpb_geometry x = Ret (root, data, cnt)" using f x by (auto simp: fat_sector_def)
  show ?thesis unfolding fat_driver_create_def v seq.simps prod.case rd Let_def x geo c by simp
qed

subsection \<open>Mounting over the interfaces\<close>

locale mounting = blk_driver rd ready valid sector bsize cap + block_heap kalloc serves
  for rd :: "('d, 'h) rd_fn" and ready valid sector bsize cap
    and kalloc :: "u64 \<Rightarrow> 'k \<Rightarrow> (u64 \<times> 'k) exec" and serves
begin

text \<open>The device \<open>r\<close> of a registry with the disk contents \<open>h\<close> holds a FAT file system.\<close>

definition boot_blk :: "('d, 'h) bd_slot list \<Rightarrow> 'h \<Rightarrow> bd_ref \<Rightarrow> u8 list" where
  "boot_blk sl h r = block (the (bd_at r sl)) h 0"

definition fat_on :: "('d, 'h) bd_slot list \<Rightarrow> 'h \<Rightarrow> bd_ref \<Rightarrow> bool" where
  "fat_on sl h r \<longleftrightarrow> (let bd = the (bd_at r sl) in
     bd_dev_type bd = BDT_DISK_DRIVE \<and> bd_blk_size bd = 512 \<and> 0 < bd_nblk bd \<and> fat_sector (boot_blk sl h r))"

lemma rd_boot:
  assumes s: "served s" and r: "bd_at r (dk_slots s) = Some bd" and b: "bd_blk_size bd = 512" and stk: "length stk = 512"
    and nz: "0 < bd_nblk bd"
  shows "\<exists>h. blkdev_rd r stk 0 1 s = Ret (0, boot_blk (dk_slots s) (dk_hw s) r, s\<lparr>dk_hw := h\<rparr>) \<and> served (s\<lparr>dk_hw := h\<rparr>) \<and>
     sector h = sector (dk_hw s)"
proof -
  have "unat (bd_blk_size bd) \<le> length stk" using b stk by simp
  from blkdev_rd_one [OF s r nz this] show ?thesis using b stk r by (auto simp: boot_blk_def)
qed

lemma rd_empty:
  assumes s: "served s" and r: "bd_at r (dk_slots s) = Some bd" and z: "bd_nblk bd = 0"
  shows "blkdev_rd r stk 0 1 s = Ret (1, stk, s)"
proof (cases r)
  case (Dev i)
  then show ?thesis using r z s blkdev_rd_dev [of s i stk 0 1] by (simp add: served_def split: if_splits)
next
  case (Part i j)
  then show ?thesis using r z s blkdev_rd_part [of s i j stk 0 1] by (simp add: served_def Let_def split: if_splits)
qed

lemma fat_verify_run:
  assumes s: "served s" and r: "bd_at r (dk_slots s) = Some bd" and stk: "length stk = 512"
    and z: "\<not> zero_cluster (boot_blk (dk_slots s) (dk_hw s) r)" and t: "bd_dev_type bd = BDT_DISK_DRIVE"
  shows "\<exists>h. fat_verify stk r s = Ret (if fat_on (dk_slots s) (dk_hw s) r then 0 else 1, s\<lparr>dk_hw := h\<rparr>) \<and>
     served (s\<lparr>dk_hw := h\<rparr>) \<and> sector h = sector (dk_hw s)"
proof -
  have g: "bd_get r s = Ret bd" using r by (simp add: bd_get_def)
  have on: "fat_on (dk_slots s) (dk_hw s) r \<longleftrightarrow> bd_blk_size bd = 512 \<and> 0 < bd_nblk bd \<and> fat_sector (boot_blk (dk_slots s) (dk_hw s) r)"
    using r t by (simp add: fat_on_def)
  have id: "s\<lparr>dk_hw := dk_hw s\<rparr> = s" by simp
  show ?thesis
  proof (cases "bd_blk_size bd = 512")
    case False
    then show ?thesis using s by (intro exI [of _ "dk_hw s"]) (simp add: fat_verify_def g on)
  next
    case b: True
    show ?thesis
    proof (cases "bd_nblk bd = 0")
      case True
      then show ?thesis using s b rd_empty [OF s r True]
        by (intro exI [of _ "dk_hw s"]) (simp add: fat_verify_def g on)
    next
      case False
      then have "0 < bd_nblk bd" by (simp add: word_gt_0)
      then obtain h where h: "blkdev_rd r stk 0 1 s = Ret (0, boot_blk (dk_slots s) (dk_hw s) r, s\<lparr>dk_hw := h\<rparr>)"
        "served (s\<lparr>dk_hw := h\<rparr>)" "sector h = sector (dk_hw s)" using rd_boot [OF s r b stk] by blast
      show ?thesis using fat_verify_boot [OF g b h(1) z] h(2,3) b \<open>0 < bd_nblk bd\<close> by (intro exI [of _ h]) (simp add: on)
    qed
  qed
qed

lemma served_heap: "served (s\<lparr>dk_heap := k\<rparr>) = served s"
  by (simp add: served_def bd_ok_def)

lemma fat_on_same: "sector h' = sector h \<Longrightarrow> fat_on sl h' r = fat_on sl h r" "sector h' = sector h \<Longrightarrow> boot_blk sl h' r = boot_blk sl h r"
  by (simp_all add: fat_on_def boot_blk_def block_def)

lemma fat_driver_create_run:
  assumes s: "served s" and r: "bd_at r (dk_slots s) = Some bd" and stk: "length stk = 512"
    and on: "fat_on (dk_slots s) (dk_hw s) r" and z: "\<not> zero_cluster (boot_blk (dk_slots s) (dk_hw s) r)"
    and k: "serves (Suc j) (dk_heap s)"
  shows "\<exists>drv h k'. fat_driver_create kalloc junk stk r s = Ret (Some drv, s\<lparr>dk_hw := h, dk_heap := k'\<rparr>) \<and>
     served (s\<lparr>dk_hw := h\<rparr>) \<and> sector h = sector (dk_hw s) \<and> serves j k'"
proof -
  have bd: "bd_dev_type bd = BDT_DISK_DRIVE" "bd_blk_size bd = 512" "0 < bd_nblk bd" and fs: "fat_sector (boot_blk (dk_slots s) (dk_hw s) r)"
    using on r by (simp_all add: fat_on_def Let_def)
  obtain h where h: "fat_verify stk r s = Ret (0, s\<lparr>dk_hw := h\<rparr>)" "served (s\<lparr>dk_hw := h\<rparr>)" "sector h = sector (dk_hw s)"
    using fat_verify_run [OF s r stk z bd(1)] on by auto
  let ?s = "s\<lparr>dk_hw := h\<rparr>"
  have r': "bd_at r (dk_slots ?s) = Some bd" using r by simp
  obtain h' where h': "blkdev_rd r stk 0 1 ?s = Ret (0, boot_blk (dk_slots s) h r, s\<lparr>dk_hw := h'\<rparr>)"
    "served (s\<lparr>dk_hw := h'\<rparr>)" "sector h' = sector h" using rd_boot [OF h(2) r' bd(2) stk bd(3)] by auto
  have f: "fat_sector (boot_blk (dk_slots s) h r)" using fs fat_on_same(2) [OF h(3)] by simp
  obtain p k' where p: "kalloc 512 (dk_heap s) = Ret (p, k')" "serves j k'"
    using kalloc_serves [OF k, of 512] by auto
  have h1: "blkdev_rd r stk 0 1 ?s = Ret (0, boot_blk (dk_slots s) h r, s\<lparr>dk_hw := h'\<rparr>)" using h'(1) by simp
  have "bd_get r (s\<lparr>dk_hw := h'\<rparr>) = Ret bd" using r by (simp add: bd_get_def)
  then obtain c where c: "blk_cache_create kalloc junk r (s\<lparr>dk_hw := h'\<rparr>) = Ret (c, s\<lparr>dk_hw := h', dk_heap := k'\<rparr>)"
    by (simp add: blk_cache_create_def bd(2) p(1))
  have "\<exists>drv. fat_driver_create kalloc junk stk r s = Ret (Some drv, s\<lparr>dk_hw := h', dk_heap := k'\<rparr>)"
    by (rule fat_driver_boot [OF h(1) h1 f c])
  then show ?thesis using h'(2,3) h(3) p(2) by auto
qed

text \<open>One device: it is mounted in the next slot if it holds a file system and a slot is free.\<close>

definition mount_inv :: "('d, 'h) bd_slot list \<Rightarrow> 'h \<Rightarrow> bd_ref list \<Rightarrow> nat \<Rightarrow> ('d, 'h, 'k) fat_drive list \<times> ('d, 'h, 'k) disks \<Rightarrow> bool" where
  "mount_inv sl h ms n st \<longleftrightarrow> (case st of (drives, s) \<Rightarrow> mounted_on drives ms \<and> served s \<and> dk_slots s = sl \<and>
     sector (dk_hw s) = sector h \<and> serves (2 * n) (dk_heap s))"

definition mountable :: "('d, 'h) bd_slot list \<Rightarrow> 'h \<Rightarrow> bd_ref list \<Rightarrow> bd_ref \<Rightarrow> bool" where
  "mountable sl h ms r \<longleftrightarrow> fat_on sl h r \<and> length ms < NDRIVES"

text \<open>A file system on a device that is not mounted goes to the next slot.\<close>

lemma vfs_mount_run:
  assumes inv: "mount_inv sl h ms (Suc n) (drives, s)" and r: "bd_at r sl = Some bd" and new: "r \<notin> set ms"
    and env: "me_kalloc env = kalloc" "length (me_stk env) = 512" and z: "\<not> zero_cluster (boot_blk sl h r)"
    and on: "fat_on sl h r" and lt: "length ms < NDRIVES"
  shows "\<exists>rc drives' s'. vfs_mount env r VF_FAT_16 drives s = Ret (rc, drives', s') \<and>
    mount_inv sl h (ms @ [r]) n (drives', s')"
proof -
  have i: "mounted_on drives ms" "served s" "dk_slots s = sl" "sector (dk_hw s) = sector h" "serves (Suc (Suc (2 * n))) (dk_heap s)"
    using inv by (simp_all add: mount_inv_def)
  have get: "vfs_get_mount_fs drives r = VF_NULL" using mounted_on_get [OF i(1)] new by blast
  have slot: "vfs_find_slot drives 0 = Some (length ms)" using mounted_on_slot [OF i(1)] lt by simp
  have r1: "bd_at r (dk_slots s) = Some bd" using r i(3) by simp
  have on1: "fat_on (dk_slots s) (dk_hw s) r" "\<not> zero_cluster (boot_blk (dk_slots s) (dk_hw s) r)"
    using on z i(3) by (simp_all add: fat_on_same [OF i(4)])
  obtain drv h2 k2 where c: "fat_driver_create kalloc (me_junk env) (me_stk env) r s = Ret (Some drv, s\<lparr>dk_hw := h2, dk_heap := k2\<rparr>)"
    "served (s\<lparr>dk_hw := h2\<rparr>)" "sector h2 = sector h" "serves (Suc (2 * n)) k2"
    using fat_driver_create_run [OF i(2) r1 env(2) on1 i(5), of "me_junk env"] i(4) by auto
  obtain p k3 where p: "kalloc 4184 k2 = Ret (p, k3)" "p \<noteq> 0" "serves (2 * n) k3"
    using kalloc_serves [OF c(4), of 4184] by auto
  obtain d where m: "vfs_mount env r VF_FAT_16 drives s =
      Ret (of_nat (length ms) + 1, drives[length ms := d], s\<lparr>dk_hw := h2, dk_heap := k3\<rparr>)"
    "is_mounted d" "dr_blkdev d = Some r" "dr_fs d = VF_FAT_16"
    by (simp add: vfs_mount_def get slot env(1) c(1) fat_vfs_fs_driver_create_def p(1,2) is_mounted_def)
  have "served (s\<lparr>dk_hw := h2, dk_heap := k3\<rparr>)" using c(2) served_heap [of k3 "s\<lparr>dk_hw := h2\<rparr>"] by simp
  then have "mount_inv sl h (ms @ [r]) n (drives[length ms := d], s\<lparr>dk_hw := h2, dk_heap := k3\<rparr>)"
    using mounted_on_add [OF i(1) lt m(2-4)] i(3) c(3) p(3) by (simp add: mount_inv_def)
  then show ?thesis using m(1) by blast
qed

lemma try_mount_run:
  assumes inv: "mount_inv sl h ms (n + of_bool (mountable sl h ms r)) st" and r: "bd_at r sl = Some bd" and new: "r \<notin> set ms"
    and env: "me_kalloc env = kalloc" "length (me_stk env) = 512" and z: "\<not> zero_cluster (boot_blk sl h r)"
  shows "\<exists>st'. try_mount env r st = Ret st' \<and>
    mount_inv sl h (if mountable sl h ms r then ms @ [r] else ms) n st'"
proof -
  obtain drives s where st: "st = (drives, s)" by fastforce
  have i: "mounted_on drives ms" "served s" "dk_slots s = sl" "sector (dk_hw s) = sector h"
    using inv by (auto simp: mount_inv_def st)
  have g: "bd_get r s = Ret bd" "bd_at r (dk_slots s) = Some bd" using r i(3) by (simp_all add: bd_get_def)
  show ?thesis
  proof (cases "bd_dev_type bd = BDT_DISK_DRIVE")
    case False
    then have "\<not> fat_on sl h r" using r by (simp add: fat_on_def Let_def)
    then show ?thesis using False inv by (simp add: try_mount_def g st mountable_def)
  next
    case t: True
    obtain h1 where v: "fat_verify (me_stk env) r s = Ret (if fat_on sl h r then 0 else 1, s\<lparr>dk_hw := h1\<rparr>)"
      "served (s\<lparr>dk_hw := h1\<rparr>)" "sector h1 = sector h"
      using fat_verify_run [OF i(2) g(2) env(2) _ t] z i(3,4) fat_on_same [OF i(4)] by auto
    have inv1: "mount_inv sl h ms (n + of_bool (mountable sl h ms r)) (drives, s\<lparr>dk_hw := h1\<rparr>)"
      using inv v by (simp add: mount_inv_def st)
    consider (none) "\<not> fat_on sl h r" | (full) "fat_on sl h r" "\<not> length ms < NDRIVES"
      | (go) "fat_on sl h r" "length ms < NDRIVES" by blast
    then show ?thesis
    proof cases
      case none
      then show ?thesis using v(1) t inv1 by (simp add: try_mount_def g st mountable_def)
    next
      case full
      have "vfs_mount env r VF_FAT_16 drives (s\<lparr>dk_hw := h1\<rparr>) = Ret (0, drives, s\<lparr>dk_hw := h1\<rparr>)"
        using mounted_on_get [OF i(1), of r] new mounted_on_slot [OF i(1)] full(2) by (simp add: vfs_mount_def)
      then show ?thesis using v(1) t inv1 full by (simp add: try_mount_def g st mountable_def)
    next
      case go
      then have m: "mountable sl h ms r" by (simp add: mountable_def)
      then have "mount_inv sl h ms (Suc n) (drives, s\<lparr>dk_hw := h1\<rparr>)" using inv1 by simp
      from vfs_mount_run [OF this r new env z go] show ?thesis using v(1) t go m by (auto simp: try_mount_def g st)
    qed
  qed
qed

text \<open>Many devices: those that hold a file system are appended, as far as there are slots.\<close>

definition mount_more :: "('d, 'h) bd_slot list \<Rightarrow> 'h \<Rightarrow> bd_ref list \<Rightarrow> bd_ref list \<Rightarrow> bd_ref list" where
  "mount_more sl h ms rs = take NDRIVES (ms @ filter (fat_on sl h) rs)"

definition mountables :: "('d, 'h) bd_slot list \<Rightarrow> 'h \<Rightarrow> bd_ref list \<Rightarrow> bd_ref list \<Rightarrow> nat" where
  "mountables sl h ms rs = min (NDRIVES - length ms) (length (filter (fat_on sl h) rs))"

definition sound_refs :: "('d, 'h) bd_slot list \<Rightarrow> 'h \<Rightarrow> bd_ref list \<Rightarrow> bool" where
  "sound_refs sl h rs \<longleftrightarrow> distinct rs \<and> (\<forall>r \<in> set rs. bd_at r sl \<noteq> None \<and> \<not> zero_cluster (boot_blk sl h r))"

lemma mount_inv_len: "mount_inv sl h ms n st \<Longrightarrow> length ms \<le> NDRIVES"
  by (auto simp: mount_inv_def mounted_on_def)

lemma take_more: "take n (take n xs @ ys) = take n (xs @ ys)"
  by (cases "length xs \<le> n") simp_all

lemma mount_more_append: "mount_more sl h (mount_more sl h ms xs) ys = mount_more sl h ms (xs @ ys)"
  by (simp only: mount_more_def take_more filter_append append_assoc)

lemma mountables_append:
  "length ms \<le> NDRIVES \<Longrightarrow> mountables sl h ms xs + mountables sl h (mount_more sl h ms xs) ys = mountables sl h ms (xs @ ys)"
  by (simp add: mountables_def mount_more_def)

lemma mount_more_set: "set (mount_more sl h ms xs) \<subseteq> set ms \<union> set xs"
  by (auto simp: mount_more_def dest!: in_set_takeD)

lemma try_mount_step:
  assumes "mount_inv sl h ms (mountables sl h ms [r] + n) st" and "sound_refs sl h [r]" and "r \<notin> set ms"
    and "me_kalloc env = kalloc" and "length (me_stk env) = 512"
  shows "\<exists>st'. try_mount env r st = Ret st' \<and> mount_inv sl h (mount_more sl h ms [r]) n st'"
proof -
  have len: "length ms \<le> NDRIVES" using assms(1) by (rule mount_inv_len)
  obtain bd where r: "bd_at r sl = Some bd" using assms(2) by (auto simp: sound_refs_def)
  have z: "\<not> zero_cluster (boot_blk sl h r)" using assms(2) by (simp add: sound_refs_def)
  have a: "mountables sl h ms [r] = of_bool (mountable sl h ms r)"
    by (cases "length ms < NDRIVES") (simp_all add: mountables_def mountable_def)
  have b: "mount_more sl h ms [r] = (if mountable sl h ms r then ms @ [r] else ms)"
    using len by (cases "length ms < NDRIVES") (simp_all add: mount_more_def mountable_def)
  have "mount_inv sl h ms (n + of_bool (mountable sl h ms r)) st" using assms(1) a by (simp add: add.commute)
  from try_mount_run [OF this r assms(3-5) z] show ?thesis by (simp only: b)
qed

lemma try_mount_all:
  assumes "me_kalloc env = kalloc" and "length (me_stk env) = 512"
  shows "mount_inv sl h ms (mountables sl h ms rs + n) st \<Longrightarrow> sound_refs sl h rs \<Longrightarrow> set rs \<inter> set ms = {} \<Longrightarrow>
    \<exists>st'. for_each rs (try_mount env) st = Ret st' \<and> mount_inv sl h (mount_more sl h ms rs) n st'"
proof (induction rs arbitrary: ms st)
  case Nil
  then show ?case using mount_inv_len [OF Nil(1)] by (simp add: mount_more_def mountables_def)
next
  case (Cons r rs)
  let ?ms = "mount_more sl h ms [r]"
  have sum: "mountables sl h ms (r # rs) = mountables sl h ms [r] + mountables sl h ?ms rs"
    using mountables_append [OF mount_inv_len [OF Cons.prems(1)], of sl h "[r]" rs] by simp
  have "mount_inv sl h ms (mountables sl h ms [r] + (mountables sl h ?ms rs + n)) st"
    using Cons.prems(1) by (simp add: sum add.assoc)
  moreover have "sound_refs sl h [r]" "sound_refs sl h rs" "r \<notin> set rs" "r \<notin> set ms" "set rs \<inter> set ms = {}"
    using Cons.prems(2,3) by (auto simp: sound_refs_def)
  ultimately obtain st1 where st1: "try_mount env r st = Ret st1" "mount_inv sl h ?ms (mountables sl h ?ms rs + n) st1"
    using try_mount_step [OF _ _ _ assms] by blast
  have "set rs \<inter> set ?ms = {}"
    using mount_more_set [of sl h ms "[r]"] \<open>r \<notin> set rs\<close> \<open>set rs \<inter> set ms = {}\<close> by auto
  from Cons.IH [OF st1(2) \<open>sound_refs sl h rs\<close> this] st1(1) show ?case
    using mount_more_append [of sl h ms "[r]" rs] by auto
qed

lemma try_mount_tree_eq:
  assumes "mount_inv sl h ms (mountables sl h ms [Dev i] + n) st" and "sound_refs sl h [Dev i]" and "Dev i \<notin> set ms"
    and "me_kalloc env = kalloc" and "length (me_stk env) = 512"
  shows "try_mount_tree env i st = for_each (tree_refs sl i) (try_mount env) st"
proof -
  obtain st1 where st1: "try_mount env (Dev i) st = Ret st1" "mount_inv sl h (mount_more sl h ms [Dev i]) n st1"
    using try_mount_step [OF assms] by blast
  then have "dk_slots (snd st1) = sl" by (auto simp: mount_inv_def)
  then show ?thesis by (simp add: try_mount_tree_def tree_refs_def st1(1))
qed

lemma try_mount_trees:
  assumes "me_kalloc env = kalloc" and "length (me_stk env) = 512"
  shows "mount_inv sl h ms (mountables sl h ms (concat (map (tree_refs sl) is)) + n) st \<Longrightarrow>
    sound_refs sl h (concat (map (tree_refs sl) is)) \<Longrightarrow> set (concat (map (tree_refs sl) is)) \<inter> set ms = {} \<Longrightarrow>
    \<exists>st'. for_each is (try_mount_tree env) st = Ret st' \<and>
      mount_inv sl h (mount_more sl h ms (concat (map (tree_refs sl) is))) n st'"
proof (induction "is" arbitrary: ms st)
  case Nil
  then show ?case using mount_inv_len [OF Nil(1)] by (simp add: mount_more_def mountables_def)
next
  case (Cons i ks)
  let ?t = "tree_refs sl i" and ?rs = "concat (map (tree_refs sl) ks)"
  let ?ms = "mount_more sl h ms ?t"
  have len: "length ms \<le> NDRIVES" using Cons.prems(1) by (rule mount_inv_len)
  have p: "sound_refs sl h ?t" "sound_refs sl h ?rs" "set ?t \<inter> set ?rs = {}" "set ?t \<inter> set ms = {}" "set ?rs \<inter> set ms = {}"
    using Cons.prems(2,3) by (auto simp: sound_refs_def)
  have sum: "mountables sl h ms (?t @ ?rs) = mountables sl h ms ?t + mountables sl h ?ms ?rs"
    using mountables_append [OF len] by simp
  have inv: "mount_inv sl h ms (mountables sl h ms ?t + (mountables sl h ?ms ?rs + n)) st"
    using Cons.prems(1) sum by (simp add: add.assoc)
  obtain st1 where st1: "for_each ?t (try_mount env) st = Ret st1" "mount_inv sl h ?ms (mountables sl h ?ms ?rs + n) st1"
    using try_mount_all [OF assms inv p(1,4)] by blast
  obtain ps where ps: "?t = [Dev i] @ ps" by (simp add: tree_refs_def)
  have "mountables sl h ms ?t = mountables sl h ms [Dev i] + mountables sl h (mount_more sl h ms [Dev i]) ps"
    unfolding ps by (rule mountables_append [OF len, symmetric])
  then have "mount_inv sl h ms (mountables sl h ms [Dev i] +
      (mountables sl h (mount_more sl h ms [Dev i]) ps + (mountables sl h ?ms ?rs + n))) st" using inv by (simp add: add.assoc)
  moreover have "sound_refs sl h [Dev i]" "Dev i \<notin> set ms" using p(1,4) ps by (auto simp: sound_refs_def)
  ultimately have t: "try_mount_tree env i st = Ret st1" using st1(1) try_mount_tree_eq [OF _ _ _ assms] by metis
  have "set ?rs \<inter> set ?ms = {}" using mount_more_set [of sl h ms ?t] p(3,5) by auto
  from Cons.IH [OF st1(2) p(2) this] t show ?case using mount_more_append [of sl h ms ?t ?rs] by auto
qed

lemma vfs_auto_mount_run:
  assumes s: "served s" and d: "mounted_on drives []" and env: "me_kalloc env = kalloc" "length (me_stk env) = 512"
    and z: "\<forall>r \<in> set (all_refs (dk_slots s)). \<not> zero_cluster (boot_blk (dk_slots s) (dk_hw s) r)"
    and k: "serves (2 * min NDRIVES (length (filter (fat_on (dk_slots s) (dk_hw s)) (all_refs (dk_slots s))))) (dk_heap s)"
  shows "\<exists>drives' s'. vfs_auto_mount env (drives, s) = Ret (drives', s') \<and> served s' \<and> dk_slots s' = dk_slots s \<and>
    sector (dk_hw s') = sector (dk_hw s) \<and>
    mounted_on drives' (take NDRIVES (filter (fat_on (dk_slots s) (dk_hw s)) (all_refs (dk_slots s))))"
proof -
  let ?sl = "dk_slots s" and ?h = "dk_hw s"
  have sound: "sound_refs ?sl ?h (all_refs ?sl)" using z all_refs_distinct all_refs_at by (auto simp: sound_refs_def)
  have "mount_inv ?sl ?h [] (mountables ?sl ?h [] (all_refs ?sl) + 0) (drives, s)"
    using s d k by (simp add: mount_inv_def mountables_def)
  from try_mount_trees [OF env, of ?sl ?h "[]" "[0..<length ?sl]" 0 "(drives, s)", folded all_refs_def, OF this sound]
  obtain st' where "vfs_auto_mount env (drives, s) = Ret st'" "mount_inv ?sl ?h (mount_more ?sl ?h [] (all_refs ?sl)) 0 st'"
    by (auto simp: vfs_auto_mount_def)
  then show ?thesis by (cases st') (simp add: mount_inv_def mount_more_def)
qed

end


subsection \<open>The mounting of ATA disks\<close>

interpretation ata_mount: mounting "ata_pio_blkdev_rd bus" "ata_ready bus idle tf disk D" "ata_valid D"
  "ata_sector disk" "\<lambda>d. unat (ad_sector_size d)" "\<lambda>d. unat (ad_nsector d)" "kheap_alloc pmm_alloc" kheap_serves
  for bus idle tf disk D
  by unfold_locales

definition ata_fat_refs :: "(('b \<Rightarrow> u16 \<Rightarrow> bool \<Rightarrow> nat \<Rightarrow> u16 list)) \<Rightarrow> (ata_pio_dev, 'b ata, pmm kheap) disks \<Rightarrow> bd_ref list" where
  "ata_fat_refs disk s = filter (ata_mount.fat_on disk (dk_slots s) (dk_hw s)) (all_refs (dk_slots s))"

text \<open>A disk whose first sector is the boot sector of a FAT16 file system, and an empty table.\<close>

definition fat_dev0 :: ata_pio_dev where
  "fat_dev0 = \<lparr>ad_sector_size = 512, ad_nsector = 65536, ad_bus_io_port = 0x1f0, ad_bus_ctl_port = 0x3f6,
     ad_dev_num = 0, ad_support = 1\<rparr>"

definition fat_disks :: "pmm kheap \<Rightarrow> (ata_pio_dev, ram_ata ata, pmm kheap) disks" where
  "fat_disks k = \<lparr>dk_slots = [(\<lparr>bd_driver_data = fat_dev0, bd_rd = Some (ata_pio_blkdev_rd ram_bus),
       bd_wr = Some (ata_pio_blkdev_wr ram_bus), bd_children = 0x1000, bd_part_base = 0, bd_flags = 0,
       bd_dev_type = BDT_DISK_DRIVE, bd_driver = BD_ATA_PIO, bd_blk_size = 512, bd_nblk = 65536, bd_mutex = 0,
       bd_parent_mutex = None\<rparr>, [])],
     dk_hw = ram_ata_of fat_img, dk_heap = k\<rparr>"

definition fat_env :: "pmm kheap mount_env" where
  "fat_env = \<lparr>me_kalloc = kheap_alloc pmm_alloc, me_junk = \<lambda>_. 0, me_stk = replicate 512 0, me_info = no_info\<rparr>"

definition free_drive :: "('d, 'h, 'k) fat_drive" where
  "free_drive = \<lparr>dr_driver = \<lparr>vd_data = ram_fat, vd_is_open = None, vd_open = None, vd_close = None,
     vd_abs_tell = None, vd_seek = None, vd_rd = None\<rparr>, dr_blkdev = None, dr_fs = VF_NULL, dr_flags = 0\<rparr>"

lemma no_drives: "mounted_on (replicate 255 free_drive) []"
  by (simp add: mounted_on_def is_mounted_def free_drive_def)

lemma fat_disks_served: "ata.served ram_bus ra_idle ra_tf ra_words {fat_dev0} (fat_disks k)"
proof -
  have "ata_ready ram_bus ra_idle ra_tf ra_words {fat_dev0} (ram_ata_of fat_img)"
    by (rule ram_ready_of) (simp_all add: fat_dev0_def fat_img_def)
  then show ?thesis
    by (simp add: ata.served_def ata.dev_ok_def fat_disks_def bd_ok_def slot_ok_def ata_valid_def dev_addressable_def
        fat_dev0_def ata_buses_def)
qed

lemma fat_disks_boot: "ata_mount.boot_blk ra_words (dk_slots (fat_disks k)) (dk_hw (fat_disks k)) (Dev 0) = boot_sector"
  by (simp add: ata_mount.boot_blk_def ata.block_def fat_disks_def ata_sector_def ram_ata_of_def ra_words_def
      fat_dev0_def fat_img_def word_bytes_def zero_pairs boot_sector_def)

lemma boot_sector_fat: "fat_sector boot_sector" "\<not> zero_cluster boot_sector"
proof -
  show "fat_sector boot_sector" unfolding fat_sector_def fat_fields_def by (simp add: boot_fields)
  have "rd8 boot_sector 13 = 1" by (simp add: rd8_def boot_sector_def)
  then show "\<not> zero_cluster boot_sector" unfolding zero_cluster_def by (simp add: bpb_of_def)
qed

lemma fat_disks_refs: "all_refs (dk_slots (fat_disks k)) = [Dev 0]" "ata_fat_refs ra_words (fat_disks k) = [Dev 0]"
proof -
  show a: "all_refs (dk_slots (fat_disks k)) = [Dev 0]" by (simp add: all_refs_def tree_refs_def fat_disks_def)
  have "ata_mount.fat_on ra_words (dk_slots (fat_disks k)) (dk_hw (fat_disks k)) (Dev 0)"
    unfolding ata_mount.fat_on_def fat_disks_boot using boot_sector_fat(1) by (simp add: fat_disks_def)
  then show "ata_fat_refs ra_words (fat_disks k) = [Dev 0]" by (simp add: ata_fat_refs_def a)
qed

text \<open>
  C14: on disks that work, with an empty drive table, a heap that can serve two blocks for every drive to
  mount, and no boot sector that claims clusters of no sectors, \<open>vfs_auto_mount\<close> returns; the
  first drives of the table are the FAT16 file systems found on the disks and on their partitions, in
  the order of the disks and then of the partitions, at most 255, each once and no other device; the disks
  keep their contents.
\<close>
theorem disks_mounted:
  assumes "ata.served bus idle tf disk D s" and "mounted_on drives []"
    and "me_kalloc env = kheap_alloc pmm_alloc" and "length (me_stk env) = 512"
    and "\<forall>r \<in> set (all_refs (dk_slots s)). \<not> zero_cluster (ata_mount.boot_blk disk (dk_slots s) (dk_hw s) r)"
    and "kheap_serves (2 * min NDRIVES (length (ata_fat_refs disk s))) (dk_heap s)"
  shows "\<exists>drives' s'. vfs_auto_mount env (drives, s) = Ret (drives', s') \<and> ata.served bus idle tf disk D s' \<and>
    dk_slots s' = dk_slots s \<and> ata_sector disk (dk_hw s') = ata_sector disk (dk_hw s) \<and>
    mounted_on drives' (take NDRIVES (ata_fat_refs disk s)) \<and>
    vfs_cnt_mounted drives' = min NDRIVES (length (ata_fat_refs disk s))"
proof -
  from ata_mount.vfs_auto_mount_run [OF assms(1-5) assms(6) [unfolded ata_fat_refs_def], folded ata_fat_refs_def]
  obtain drives' s' where "vfs_auto_mount env (drives, s) = Ret (drives', s')" "ata.served bus idle tf disk D s'"
    "dk_slots s' = dk_slots s" "ata_sector disk (dk_hw s') = ata_sector disk (dk_hw s)"
    "mounted_on drives' (take NDRIVES (ata_fat_refs disk s))" by blast
  then show ?thesis using mounted_cnt [of drives' "take NDRIVES (ata_fat_refs disk s)"] by auto
qed

theorem disks_mounted_witness:
  "\<exists>k drives' s'. kheap_init pmm_alloc demo_heap = Ret (0, k) \<and>
     vfs_auto_mount fat_env (replicate 255 free_drive, fat_disks k) = Ret (drives', s') \<and>
     dr_blkdev (drives' ! 0) = Some (Dev 0) \<and> vfs_cnt_mounted drives' = 1"
proof -
  obtain k where k: "kheap_init pmm_alloc demo_heap = Ret (0, k)" "kheap_serves 2 k"
    using demo_heap_serves [of 2] by auto
  have "kheap_serves (2 * min NDRIVES (length (ata_fat_refs ra_words (fat_disks k)))) (dk_heap (fat_disks k))"
    using k(2) by (simp add: fat_disks_refs(2)) (simp add: fat_disks_def)
  moreover have "\<forall>r \<in> set (all_refs (dk_slots (fat_disks k))).
      \<not> zero_cluster (ata_mount.boot_blk ra_words (dk_slots (fat_disks k)) (dk_hw (fat_disks k)) r)"
    by (simp add: fat_disks_refs(1) fat_disks_boot boot_sector_fat(2))
  ultimately obtain drives' s' where m: "vfs_auto_mount fat_env (replicate 255 free_drive, fat_disks k) = Ret (drives', s')"
    "mounted_on drives' [Dev 0]" "vfs_cnt_mounted drives' = 1"
    using disks_mounted [OF fat_disks_served no_drives, of fat_env k] by (auto simp: fat_env_def fat_disks_refs(2))
  then have "dr_blkdev (drives' ! 0) = Some (Dev 0)" by (simp add: mounted_on_def)
  then show ?thesis using k(1) m by blast
qed

end
