(* ===== verification/Files.thy ===== *)
theory Files
  imports Fat_Disk Vfs
begin

section \<open>Reading a file\<close>

text \<open>
  The whole way of a read: the path with its drive goes through the VFS to the FAT driver, which looks the name
  up in the root directory and opens a descriptor; a read of the file goes through the VFS, the descriptor, the
  block cache and the partition to the disk.
\<close>

subsection \<open>Opening a file of the root directory\<close>

lemma open_walk_name:
  "0x2f \<notin> set cs \<Longrightarrow> length pb + length cs \<le> 256 \<Longrightarrow> open_walk crd cs pb de info drv w = Ret (Some (pb @ cs, de, info), drv, w)"
  by (induction cs arbitrary: pb) auto

lemma dir_find_less: "dir_find name es st k l = Ret (Some r) \<Longrightarrow> st \<le> k \<Longrightarrow> r < k + length es"
  by (induction es arbitrary: st k l) (fastforce simp: seq_Ret_iff split: if_splits)+

text \<open>An entry that is a file (or directory) with a short name.\<close>

definition file_ent :: "u8 list \<Rightarrow> bool" where
  "file_ent e \<longleftrightarrow> \<not> ent_end e \<and> \<not> ent_skip e"

definition file_fd :: "u8 list \<Rightarrow> fat_file_desc" where
  "file_fd e = \<lparr>fd_cluster = ucast (rd16 e 26), fd_size = ucast (rd32 e 28), fd_file_pos = 0, fd_flags = open_flags VFF_READ\<rparr>"

lemma file_fd_ok: "fd_ok (file_fd e)"
proof -
  have "unat (rd32 e 28) < 2 ^ 32" using unsigned_less [of "rd32 e 28"] by simp
  then show ?thesis by (simp add: fd_ok_def file_fd_def unat_ucast_u32)
qed

context byte_reader
begin

lemma open_step_run:
  assumes dir: "dir_readable drv w pos n" and fin: "ent_end (ent_at (fs_bytes drv w) (unat pos + 32 * n))"
    and hit: "dir_find name (dir_at (fs_bytes drv w) (unat pos) (Suc n)) 0 0 (replicate 255 0) = Ret (Some i)" and i: "i \<le> n"
    and e: "e = ent_at (fs_bytes drv w) (unat pos + 32 * i)" "file_ent e" and len: "length name < 256" and pos: "pos \<noteq> 0"
  shows "\<exists>drv' w'. open_step crd name pos drv w = Ret (Some (dirent_info e (put_dos e (replicate 255 0))), drv', w') \<and>
    fs_same drv w drv' w'"
proof -
  obtain drv1 w1 where f: "fat_find_dirent crd drv pos name w = Ret (pos + of_nat (32 * i), drv1, w1)" "fs_same drv w drv1 w1"
    using fat_find_run [OF dir fin, of name] hit by (auto simp: fat_find_dirent_def)
  note at = dir_readable_at [OF dir i f(2)]
  have b: "fs_bytes drv1 w1 = fs_bytes drv w" using f(2) by (simp add: fs_same_def)
  have e1: "e = ent_at (fs_bytes drv1 w1) (unat (pos + of_nat (32 * i)) + 32 * 0)" using e(1) by (simp only: b at(1) mult_0_right add_0_right)
  have ns: "\<not> ent_skip e" "\<not> ent_end e" using e(2) by (simp_all add: file_ent_def)
  obtain drv2 w2 where g: "forever (info_body crd) (pos + of_nat (32 * i), replicate 255 0, drv1, w1) =
      Ret (Some (dirent_info e (put_dos e (replicate 255 0))), drv2, w2)" "fs_same drv1 w1 drv2 w2"
    using info_run [OF dir_readable_less [OF at(2)] _ e1 ns(1), of "replicate 255 0"] ns(2) by auto
  have "unat pos \<noteq> 0" using pos by (simp add: unat_eq_0)
  then have "unat (pos + of_nat (32 * i)) \<noteq> 0" unfolding at(1) by simp
  then have "pos + of_nat (32 * i) \<noteq> 0" by (metis unat_0)
  then have "open_step crd name pos drv w = Ret (Some (dirent_info e (put_dos e (replicate 255 0))), drv2, w2)"
    using len f(1) g(1) by (simp add: open_step_def fat_get_dirent_info_def)
  then show ?thesis using fs_same_trans [OF f(2) g(2)] by blast
qed

lemma fat_open_run:
  assumes dir: "dir_readable drv w (fat_get_root drv) n"
    and fin: "ent_end (ent_at (fs_bytes drv w) (unat (fat_get_root drv) + 32 * n))"
    and hit: "dir_find name (dir_at (fs_bytes drv w) (unat (fat_get_root drv)) (Suc n)) 0 0 (replicate 255 0) = Ret (Some i)"
    and e: "e = ent_at (fs_bytes drv w) (unat (fat_get_root drv) + 32 * i)" "file_ent e" "rd8 e 11 AND FDA_DIR = 0"
    and name: "name \<noteq> []" "length name < 256" "0x2f \<notin> set name" and pos: "fat_get_root drv \<noteq> 0"
    and slot: "fat_find_slot drv = Some fid"
  shows "\<exists>drv' w'. fat_vfs_open crd stk_info drv name VFF_READ w = Ret (fid, set_fd fid (file_fd e) drv', w') \<and> fs_same drv w drv' w'"
proof -
  have i: "i \<le> n" using dir_find_less [OF hit] by (simp add: dir_at_def)
  obtain drv1 w1 where s: "open_step crd name (fat_get_root drv) drv w = Ret (Some (dirent_info e (put_dos e (replicate 255 0))), drv1, w1)"
    "fs_same drv w drv1 w1" using open_step_run [OF dir fin hit i e(1,2) name(2) pos] by blast
  have "drv1 = drv\<lparr>ft_cache := ft_cache drv1\<rparr>" using s(2) by (simp add: fs_same_def)
  then have "ft_file_descs drv1 = ft_file_descs drv" by (metis fat_driver.select_convs(2) fat_driver.surjective fat_driver.update_convs(1))
  then have "fat_find_slot drv1 = Some fid" using slot by (simp add: fat_find_slot_def)
  then have "open_file (dirent_info e (put_dos e (replicate 255 0))) VFF_READ drv1 = (fid, set_fd fid (file_fd e) drv1)"
    using e(3) by (simp add: open_file_def dirent_info_def file_fd_def)
  moreover have "open_walk crd name [] (fat_get_root drv) stk_info drv w = Ret (Some (name, fat_get_root drv, stk_info), drv, w)"
    using open_walk_name [of name "[]"] name by simp
  ultimately have "fat_vfs_open crd stk_info drv name VFF_READ w = Ret (fid, set_fd fid (file_fd e) drv1, w1)"
    using name(1) s(1) by (simp add: fat_vfs_open_def)
  then show ?thesis using s(2) by blast
qed

text \<open>Opening the file and reading its start.\<close>

lemma set_fd_cache: "ft_cache (set_fd fid fd drv) = ft_cache drv" "cluster_to_pos (set_fd fid fd drv) = cluster_to_pos drv"
  by (simp_all add: set_fd_def cluster_to_pos_def fun_eq_iff)

lemma fat_open_read:
  assumes dir: "dir_readable drv w (fat_get_root drv) k" and ok: "fat_ok drv"
    and fin: "ent_end (ent_at (fs_bytes drv w) (unat (fat_get_root drv) + 32 * k))"
    and hit: "dir_find name (dir_at (fs_bytes drv w) (unat (fat_get_root drv)) (Suc k)) 0 0 (replicate 255 0) = Ret (Some i)"
    and e: "e = ent_at (fs_bytes drv w) (unat (fat_get_root drv) + 32 * i)" "file_ent e" "rd8 e 11 AND FDA_DIR = 0"
    and name: "name \<noteq> []" "length name < 256" "0x2f \<notin> set name" and pos: "fat_get_root drv \<noteq> 0"
    and slot: "fat_find_slot drv = Some fid" and fid: "fid_ok fid"
    and n: "n \<noteq> 0" "unat n \<le> length dst" "unat n \<le> unat (rd32 e 28)" and a: "a = cluster_to_pos drv (ucast (rd16 e 26))"
    and tot: "unat a + unat n \<le> total (ft_cache drv) w" and blk: "unat a mod bsize (ft_cache drv) w + unat n \<le> bsize (ft_cache drv) w"
  shows "\<exists>drv1 w1 drv2 w2. fat_vfs_open crd stk_info drv name VFF_READ w = Ret (fid, drv1, w1) \<and>
    fat_vfs_is_open drv1 fid = Ret True \<and>
    fat_vfs_rd crd drv1 fid dst n w1 = Ret (0, map (fs_bytes drv w) [unat a..<unat a + unat n] @ drop (unat n) dst, drv2, w2)"
proof -
  obtain drv1 w1 where o: "fat_vfs_open crd stk_info drv name VFF_READ w = Ret (fid, set_fd fid (file_fd e) drv1, w1)"
    "fs_same drv w drv1 w1" using fat_open_run [OF dir fin hit e name pos slot] by blast
  have same: "drv1 = drv\<lparr>ft_cache := ft_cache drv1\<rparr>" "good (ft_cache drv1) w1" "content (ft_cache drv1) w1 = fs_bytes drv w"
    "total (ft_cache drv1) w1 = total (ft_cache drv) w" "bsize (ft_cache drv1) w1 = bsize (ft_cache drv) w"
    using o(2) by (simp_all add: fs_same_def fs_ok_def fs_bytes_def fs_total_def)
  have d: "ft_file_descs drv1 = ft_file_descs drv" "cluster_to_pos drv1 = cluster_to_pos drv"
    by (subst same(1), simp add: cluster_to_pos_def fun_eq_iff)+
  let ?d = "set_fd fid (file_fd e) drv1"
  have ok1: "fat_ok drv1" using ok by (simp add: fat_ok_def d(1))
  have okd: "fat_ok ?d" by (rule set_fd_ok [OF ok1 file_fd_ok])
  have len: "unat (fid - 1) < length (ft_file_descs drv1)" using ok1 fid by (simp add: fat_ok_def fid_ok_unat)
  then have fd: "file_fd e = ft_file_descs ?d ! unat (fid - 1)" by (simp add: set_fd_def)
  have "fat_vfs_is_open ?d fid = Ret True"
    using fat_fd_ok [OF okd fid] fd open_flags_open [of VFF_READ] by (simp add: fat_vfs_is_open_def file_fd_def)
  moreover have "unat (fd_file_pos (file_fd e)) + unat n \<le> unat (fd_size (file_fd e))"
    using n(3) by (simp add: file_fd_def unat_ucast_u32)
  moreover have "a = cluster_to_pos ?d (fd_cluster (file_fd e)) + fd_file_pos (file_fd e)"
    by (simp add: a set_fd_cache d(2) file_fd_def)
  ultimately show ?thesis
    using fat_rd_run [of ?d w1 fid n dst "file_fd e" a] same okd fid n(1,2) fd tot blk o(1) unfolding set_fd_cache by auto
qed

end

lemma slot_fid_ok: "fat_ok drv \<Longrightarrow> fat_find_slot drv = Some fid \<Longrightarrow> fid_ok fid"
  using of_nat_fid by (auto simp: fat_find_slot_def find_slot_from_Some fat_ok_def)

subsection \<open>Through the VFS\<close>

text \<open>The drive number of a path, and the slot of the table it names.\<close>

definition path_drive :: "u8 list \<Rightarrow> nat \<Rightarrow> bool" where
  "path_drive ds i \<longleftrightarrow> ds \<noteq> [] \<and> length ds \<le> 3 \<and> (\<forall>c \<in> set ds. 0x30 \<le> c \<and> c \<le> 0x39) \<and> dec_digits ds = int i + 1 \<and> i < NDRIVES"

lemma digit_no_colon: "\<forall>c \<in> set ds. 0x30 \<le> c \<and> c \<le> (0x39 :: u8) \<Longrightarrow> 0x3a \<notin> set ds"
  by auto

lemma vfs_open_on:
  assumes ds: "path_drive ds i" and m: "is_mounted (drives ! i)" and op: "vd_open (dr_driver (drives ! i)) = Some opn"
    and r: "opn (vd_data (dr_driver (drives ! i))) name flags w = Ret (fid, d, w')" and fid: "fid \<noteq> 0"
  shows "vfs_open 0 (ds @ 0x3a # name) flags drives w =
    Ret (Some \<lparr>vf_drive = of_nat (i + 1), vf_file = fid\<rparr>, set_data i d drives, w')"
proof -
  have p: "ds \<noteq> []" "length ds \<le> 3" "\<forall>c \<in> set ds. 0x30 \<le> c \<and> c \<le> 0x39" "dec_digits ds = int i + 1" "i < NDRIVES"
    using ds by (simp_all add: path_drive_def)
  have tw: "takeWhile (\<lambda>c. c \<noteq> 0x3a) (ds @ 0x3a # name) = ds"
    using digit_no_colon [OF p(3)] by (subst takeWhile_append2) auto
  have "(of_int (int i + 1) :: u8) = of_nat (i + 1)" by simp
  then show ?thesis
    using p m op r fid by (simp add: vfs_open_def tw Let_def parse_drive_dec)
qed

lemma vfs_rd_on:
  assumes i: "i < NDRIVES" "length drives = NDRIVES" and f: "f = \<lparr>vf_drive = of_nat (i + 1), vf_file = fid\<rparr>" "fid \<noteq> 0"
    and ops: "vd_is_open (dr_driver (drives ! i)) = Some is_op" "vd_rd (dr_driver (drives ! i)) = Some rd"
    and op: "is_op d fid = Ret True" and r: "rd d fid dst n w = Ret (0, out, d', w')"
  shows "vfs_rd f dst n (set_data i d drives) w = Ret (0, out, set_data i d' drives, w')"
proof -
  have u: "unat (of_nat (i + 1) :: u8) = i + 1" unfolding unat_of_nat using i(1) by simp
  then have nz: "(of_nat (i + 1) :: u8) \<noteq> 0" by (metis add_is_0 one_neq_zero unat_0)
  have at: "dr_driver (set_data i d drives ! i) = (dr_driver (drives ! i))\<lparr>vd_data := d\<rparr>" using i by (simp add: set_data_def)
  have "vfs_check f (set_data i d drives) = Ret (Some (i, (dr_driver (drives ! i))\<lparr>vd_data := d\<rparr>))"
    using u nz f(2) ops(1) op at by (simp add: vfs_check_def f(1) Let_def)
  moreover have "set_data i d' (set_data i d drives) = set_data i d' drives" using i by (simp add: set_data_def)
  ultimately show ?thesis using ops(2) r f(1) by (simp add: vfs_rd_def)
qed

subsection \<open>Properties\<close>

text \<open>
  C2: opening the path of a file in the root directory of a mounted FAT drive and reading its first bytes
  gives the contents of the file as they are on the disk: the bytes of the device from the cluster of the directory
  entry on, read through descriptor, cache, registry and disk driver.  The name is found by the one-pass
  search over the entries, the read stays in the size of the entry and in one block, and \<open>drive_id\<close> starts as 0.
\<close>
theorem file_reads_disk:
  assumes "path_drive ds i" and "length drives = NDRIVES" and "is_mounted (drives ! i)"
    and "dr_driver (drives ! i) = \<lparr>vd_data = drv, vd_is_open = Some fat_vfs_is_open,
      vd_open = Some (fat_vfs_open (blk_cache_rd kalloc junk) stk_info), vd_close = Some fat_vfs_close,
      vd_abs_tell = Some fat_vfs_abs_tell, vd_seek = Some fat_vfs_seek, vd_rd = Some (fat_vfs_rd (blk_cache_rd kalloc junk))\<rparr>"
    and "ata_cache.bc_ok bus idle tf disk D (ft_cache drv) s" and "fat_ok drv" and "fat_find_slot drv = Some fid"
    and "f = ata_cache.bc_byte disk (ft_cache drv) s" and "root = unat (fat_get_root drv)"
    and "32 dvd ata_cache.bc_bsize (ft_cache drv) s" and "32 dvd root" and "root \<noteq> 0"
    and "root + 32 * Suc k \<le> ata_cache.bc_total (ft_cache drv) s" and "ent_end (ent_at f (root + 32 * k))"
    and "dir_find name (dir_at f root (Suc k)) 0 0 (replicate 255 0) = Ret (Some j)" and "e = ent_at f (root + 32 * j)"
    and "file_ent e" and "rd8 e 11 AND FDA_DIR = 0" and "name \<noteq> []" and "length name < 256" and "0x2f \<notin> set name"
    and "n \<noteq> 0" and "unat n \<le> length dst" and "unat n \<le> unat (rd32 e 28)" and "a = ft_sector_size drv * (ft_first_data_sector drv + (ucast (rd16 e 26) - 2) * ft_cluster_size drv)"
    and "unat a + unat n \<le> ata_cache.bc_total (ft_cache drv) s"
    and "unat a mod ata_cache.bc_bsize (ft_cache drv) s + unat n \<le> ata_cache.bc_bsize (ft_cache drv) s"
  shows "\<exists>fh drives1 s1 drives2 s2. vfs_open 0 (ds @ 0x3a # name) VFF_READ drives s = Ret (Some fh, drives1, s1) \<and>
    vfs_rd fh dst n drives1 s1 = Ret (0, map f [unat a..<unat a + unat n] @ drop (unat n) dst, drives2, s2)"
proof -
  have fb: "ata_cache.fs_bytes disk drv s = f" by (simp add: ata_cache.fs_bytes_def assms(8))
  have "ata_cache.fs_ok bus idle tf disk D drv s"
    using assms(5,10) by (simp add: ata_cache.fs_ok_def ata_cache.bc_ok_def)
  then have dir: "ata_cache.dir_readable bus idle tf disk D drv s (fat_get_root drv) k"
    using assms(9,11,13) by (simp add: ata_cache.dir_readable_def ata_cache.fs_total_def)
  have a: "a = cluster_to_pos drv (ucast (rd16 e 26))" by (simp add: cluster_to_pos_def assms(25))
  have fid: "fid_ok fid" by (rule slot_fid_ok [OF assms(6,7)])
  have root: "fat_get_root drv \<noteq> 0" using assms(9,12) by auto
  obtain drv1 s1 drv2 s2 where r: "fat_vfs_open (blk_cache_rd kalloc junk) stk_info drv name VFF_READ s = Ret (fid, drv1, s1)"
    "fat_vfs_is_open drv1 fid = Ret True"
    "fat_vfs_rd (blk_cache_rd kalloc junk) drv1 fid dst n s1 = Ret (0, map f [unat a..<unat a + unat n] @ drop (unat n) dst, drv2, s2)"
    using ata_cache.fat_open_read [OF dir assms(6), unfolded fb, folded assms(9), OF assms(14-16,17-21) root assms(7) fid assms(22-24) a assms(26,27)]
    by blast
  have nz: "fid \<noteq> 0" using fid by (auto simp: fid_ok_def)
  have i: "i < NDRIVES" using assms(1) by (simp add: path_drive_def)
  have o: "vfs_open 0 (ds @ 0x3a # name) VFF_READ drives s =
      Ret (Some \<lparr>vf_drive = of_nat (i + 1), vf_file = fid\<rparr>, set_data i drv1 drives, s1)"
    by (rule vfs_open_on [OF assms(1,3) _ _ nz, where opn = "fat_vfs_open (blk_cache_rd kalloc junk) stk_info"])
      (simp_all add: assms(4) r(1))
  have "vfs_rd \<lparr>vf_drive = of_nat (i + 1), vf_file = fid\<rparr> dst n (set_data i drv1 drives) s1 =
      Ret (0, map f [unat a..<unat a + unat n] @ drop (unat n) dst, set_data i drv2 drives, s2)"
    using vfs_rd_on [OF i assms(2) refl nz, of fat_vfs_is_open "fat_vfs_rd (blk_cache_rd kalloc junk)"] r(2,3) by (simp add: assms(4))
  then show ?thesis using o by blast
qed

text \<open>The directory of Fat\_Disk, mounted as the first drive.\<close>

definition dir_drives :: "(fat_driver, (ata_pio_dev, ram_ata ata, unit) disks) drive list" where
  "dir_drives = replicate 255 \<lparr>dr_driver = \<lparr>vd_data = dir_fat, vd_is_open = Some fat_vfs_is_open,
      vd_open = Some (fat_vfs_open (blk_cache_rd demo_kalloc (\<lambda>_. 0)) no_info), vd_close = Some fat_vfs_close,
      vd_abs_tell = Some fat_vfs_abs_tell, vd_seek = Some fat_vfs_seek, vd_rd = Some (fat_vfs_rd (blk_cache_rd demo_kalloc (\<lambda>_. 0)))\<rparr>,
    dr_blkdev = Some (Dev 0), dr_fs = VF_FAT_16, dr_flags = DF_MOUNTED\<rparr>"

theorem file_reads_disk_witness:
  "\<exists>fh drives1 s1 drives2 s2. vfs_open 0 [0x31, 0x3a, 0x61] VFF_READ dir_drives dir_disks = Ret (Some fh, drives1, s1) \<and>
     vfs_rd fh [0, 0] 2 drives1 s1 = Ret (0, [0x68, 0x69], drives2, s2)"
proof -
  let ?f = "ata_cache.bc_byte ra_words (ft_cache dir_fat) dir_disks"
  have slot: "fat_find_slot dir_fat = Some 2"
  proof -
    have "find_slot_from (ft_file_descs dir_fat) 0 = Some 1"
      by (simp add: find_slot_from_Some dir_fat_def set_fd_def ram_fat_def fd_closed_def nth_list_update)
    then show ?thesis by (simp add: fat_find_slot_def)
  qed
  have root: "32 = unat (fat_get_root dir_fat)" by (simp add: fat_get_root_def dir_fat_def set_fd_def ram_fat_def)
  have e: "rd8 (ent_at ?f 32) 0 = 0x41" "rd8 (ent_at ?f 32) 11 = 0x20" "rd16 (ent_at ?f 32) 26 = 2" "rd32 (ent_at ?f 32) 28 = 5"
    by (simp_all add: dir_entries dir_img_def word_bytes_def rd8_def rd16_def rd32_def)
  then have f: "file_ent (ent_at ?f (32 + 32 * 0))" "rd8 (ent_at ?f (32 + 32 * 0)) 11 AND FDA_DIR = 0"
    by (simp_all add: file_ent_def ent_end_def ent_skip_def ent_unused_def ent_lfn_def)
  have "ft_sector_size dir_fat * (ft_first_data_sector dir_fat + (2 - 2) * ft_cluster_size dir_fat) = 96"
    by (simp add: dir_fat_def set_fd_def ram_fat_def)
  then have a: "96 = ft_sector_size dir_fat * (ft_first_data_sector dir_fat + (ucast (rd16 (ent_at ?f (32 + 32 * 0)) 26) - 2) * ft_cluster_size dir_fat)"
    using e(3) by simp
  have last: "ent_end (ent_at ?f (32 + 32 * 1))" using dir_last by simp
  have dr: "path_drive [0x31] 0" "length dir_drives = NDRIVES" "is_mounted (dir_drives ! 0)"
    by (simp_all add: path_drive_def dec_digits_def dir_drives_def is_mounted_def)
  have drv: "dr_driver (dir_drives ! 0) = \<lparr>vd_data = dir_fat, vd_is_open = Some fat_vfs_is_open,
      vd_open = Some (fat_vfs_open (blk_cache_rd demo_kalloc (\<lambda>_. 0)) no_info), vd_close = Some fat_vfs_close,
      vd_abs_tell = Some fat_vfs_abs_tell, vd_seek = Some fat_vfs_seek, vd_rd = Some (fat_vfs_rd (blk_cache_rd demo_kalloc (\<lambda>_. 0)))\<rparr>"
    by (simp add: dir_drives_def)
  have d: "map ?f [unat (96 :: u64)..<unat (96 :: u64) + unat (2 :: u64)] = [0x68, 0x69]" using dir_data by simp
  show ?thesis
    using file_reads_disk [OF dr drv dir_ok dir_fat_ok slot refl root _ _ _ _ last dir_hit refl f _ _ _ _ _ _ a, of 2 "[0, 0]", unfolded d]
    by (simp add: dir_sizes e)
qed

end
