(* ===== verification/Boot.thy ===== *)
theory Boot
  imports Vmm Serial Rtc Mem_Layout Descriptors Interrupts Mount
begin

section \<open>The boot sequence (main.c)\<close>

text \<open>
  \<open>_start\<close> brings up the machine and jumps to \<open>init_stage_2\<close> in the kernel's own address space, which
  starts the heap, the disks and the file systems.  Both are the composition of the operations of the other
  theories; the lemmas compose their specifications.  \<open>ku_hang\<close> stops the processor for good in the
  state it is called in.  The log messages are left out.
\<close>

subsection \<open>The first stage\<close>

datatype 'a boot = Hangs 'a | Jumps 'a

text \<open>
  What the bootloader and the linker hand over: the memory map, the addresses of the kernel, and the contents of
  the memory the frame bitmaps are laid in.
\<close>

record boot_info =
  bi_memmap :: "memmap_entry list"
  bi_ram :: "u64 \<Rightarrow> u8"
  bi_symbols :: symbols
  bi_k_size :: u64
  bi_pbase :: phys_addr_t
  bi_vbase :: u64
  bi_other_cpu :: u64
  bi_stage_2 :: u64

text \<open>\<open>ea_goto\<close> are the \<open>goto_address\<close> fields of the processors.\<close>

record 'b early =
  ea_serial :: "'b serial"
  ea_rtc :: "'b rtc"
  ea_arch :: "'b arch"
  ea_ents :: "meml_ent list"
  ea_goto :: "u64 list"
  ea_cpu :: "pmm cpu"

text \<open>There is one set of ports: each component goes on with the bus as the one before left it.\<close>

definition start :: "'b bus \<Rightarrow> boot_info \<Rightarrow> 'b early \<Rightarrow> 'b early boot exec" where
  "start bus i s =
     (let (rc, se) = sp_init bus (ea_serial s); s = s\<lparr>ea_serial := se\<rparr> in
      if rc \<noteq> 0 then Ret (Hangs s)
      else
        seq (rtc_init bus ((ea_rtc s)\<lparr>rc_bus := se_bus se\<rparr>)) (\<lambda>rtc.
        let s = s\<lparr>ea_rtc := rtc\<rparr>;
            (rc, ents) = meml_init (bi_memmap i);
            s = s\<lparr>ea_ents := ents\<rparr> in
        if rc \<noteq> 0 then Ret (Hangs s)
        else
          let c = (ea_cpu s)\<lparr>cpu_mem := (cpu_mem (ea_cpu s))\<lparr>km_pmm := pmm_init (bi_ram i) (fst (meml_get ents))\<rparr>\<rparr> in
          seq (arch_master_init bus (bi_symbols i) ((ea_arch s)\<lparr>ar_bus := rc_bus rtc\<rparr>)) (\<lambda>a.
          let s = s\<lparr>ea_arch := a, ea_goto := map (\<lambda>_. bi_other_cpu i) (ea_goto s)\<rparr> in
          seq (vmm_init pmm_alloc (bi_k_size i) (bi_pbase i) (bi_vbase i) (fst (meml_get ents)) (bi_stage_2 i) c) (\<lambda>c.
          Ret (Jumps (s\<lparr>ea_cpu := c\<rparr>))))))"

text \<open>The other processors hang at once.\<close>

definition init_other_cpu :: "'a \<Rightarrow> 'a boot" where
  "init_other_cpu s = Hangs s"

subsection \<open>The second stage\<close>

record 'b late =
  la_disks :: "(ata_pio_dev, 'b ata, pmm kheap) disks"
  la_drives :: "(ata_pio_dev, 'b ata, pmm kheap) fat_drive list"
  la_idt :: "idt_ent list"

text \<open>
  \<open>dev0\<close> and \<open>stk\<close> are what the uninitialised locals of \<open>blkdevs_find\<close> and \<open>mbr_find\<close> hold.
\<close>

definition init_stage_2 :: "'b bus \<Rightarrow> ata_pio_dev \<Rightarrow> u8 list \<Rightarrow> pmm kheap mount_env \<Rightarrow> u64 \<Rightarrow> 'b late \<Rightarrow> 'b late boot exec" where
  "init_stage_2 bus dev0 stk env isr_syscall_head_addr s =
     seq (kheap_init pmm_alloc (dk_heap (la_disks s))) (\<lambda>(rc, k).
     let s = s\<lparr>la_disks := (la_disks s)\<lparr>dk_heap := k\<rparr>\<rparr> in
     if rc \<noteq> 0 then Ret (Hangs s)
     else
       seq (blkdevs_find (kheap_alloc pmm_alloc) bus dev0 (la_disks s)) (\<lambda>d.
       seq (mbr_find stk d) (\<lambda>d.
       seq (vfs_auto_mount env (la_drives s, d)) (\<lambda>(drives, d).
       let s = s\<lparr>la_disks := d, la_drives := drives\<rparr> in
       if vfs_cnt_mounted drives = 0 then Ret (Hangs s)
       else
         seq (syscall_init isr_syscall_head_addr (la_idt s)) (\<lambda>idt.
         Ret (Hangs (s\<lparr>la_idt := idt\<rparr>)))))))"

subsection \<open>The machine after the first stage\<close>

lemma start_no_serial: "sp_init bus (ea_serial s) = (1, se) \<Longrightarrow> start bus i s = Ret (Hangs (s\<lparr>ea_serial := se\<rparr>))"
  by (simp add: start_def)

lemma start_no_memory:
  assumes "sp_init bus (ea_serial s) = (0, se)" and "rtc_init bus ((ea_rtc s)\<lparr>rc_bus := se_bus se\<rparr>) = Ret rtc"
    and "filter mm_keep (bi_memmap i) = []"
  shows "start bus i s = Ret (Hangs (s\<lparr>ea_serial := se, ea_rtc := rtc, ea_ents := []\<rparr>))"
proof -
  have "meml_init (bi_memmap i) = (1, [])" using assms(3) by (simp add: meml_init_def meml_scan_filter)
  then show ?thesis using assms(1,2) by (simp add: start_def)
qed

lemma start_run:
  assumes se: "sp_init bus (ea_serial s) = (0, se)" and rtc: "rtc_init bus ((ea_rtc s)\<lparr>rc_bus := se_bus se\<rparr>) = Ret rtc"
    and idt: "length (ar_idt (ea_arch s)) = 256"
    and ents: "meml_init (bi_memmap i) = (0, ents)" and lay: "layout_ok ents" "boot_layout (bi_k_size i) (bi_pbase i) (bi_vbase i) ents"
    and fr: "1 + 3 * card (pg_idx ` snd ` set (init_pages (bi_k_size i) (bi_pbase i) (bi_vbase i) ents)) + K_STK_PAGES
      \<le> card (clears (map (bm_init (bi_ram i)) ents))"
  shows "\<exists>s' stk. start bus i s = Ret (Jumps s') \<and> ea_serial s' = se \<and> ea_rtc s' = rtc \<and> ea_ents s' = ents \<and>
    cpu_rsp (ea_cpu s') = K_STK_BASE + 0x8000 \<and> cpu_rip (ea_cpu s') = bi_stage_2 i \<and> length stk = K_STK_PAGES \<and> distinct stk \<and>
    (\<forall>w. canonical w \<longrightarrow> pg_walk (km_mem (cpu_mem (ea_cpu s'))) (cpu_cr3 (ea_cpu s')) w =
       kernel_space (bi_k_size i) (bi_pbase i) (bi_vbase i) ents stk w) \<and>
    sg_if (ar_seg (ea_arch s')) \<and> (\<forall>v < 256. (gate_present (ar_idt (ea_arch s') ! v) \<longleftrightarrow> handled v) \<and>
      (handled v \<longrightarrow> gate_addr (ar_idt (ea_arch s') ! v) = vector_handler (bi_symbols i) v)) \<and>
    ea_goto s' = map (\<lambda>_. bi_other_cpu i) (ea_goto s)"
proof -
  let ?p = "pmm_init (bi_ram i) ents"
  let ?c = "(ea_cpu s)\<lparr>cpu_mem := (cpu_mem (ea_cpu s))\<lparr>km_pmm := ?p\<rparr>\<rparr>"
  have p: "pmm_ok ?p" "pmm_avail ?p = clears (map (bm_init (bi_ram i)) ents)" using pmm_init_spec [OF lay(1)] by blast+
  have c: "pmm_ok (km_pmm (cpu_mem ?c))"
    "1 + 3 * card (pg_idx ` snd ` set (init_pages (bi_k_size i) (bi_pbase i) (bi_vbase i) ents)) + K_STK_PAGES
      \<le> card (pmm_avail (km_pmm (cpu_mem ?c)))" using p fr by simp_all
  obtain c' stk where c': "vmm_init pmm_alloc (bi_k_size i) (bi_pbase i) (bi_vbase i) ents (bi_stage_2 i) ?c = Ret c'"
    "length stk = K_STK_PAGES" "distinct stk" "cpu_rsp c' = K_STK_BASE + 0x8000" "cpu_rip c' = bi_stage_2 i"
    "\<forall>w. canonical w \<longrightarrow> pg_walk (km_mem (cpu_mem c')) (cpu_cr3 c') w = kernel_space (bi_k_size i) (bi_pbase i) (bi_vbase i) ents stk w"
    using pmm.vmm_init_spec [OF lay(2) c, of "bi_stage_2 i"] by (auto simp: stk_page_def)
  obtain a where a: "arch_master_init bus (bi_symbols i) ((ea_arch s)\<lparr>ar_bus := rc_bus rtc\<rparr>) = Ret a" "sg_if (ar_seg a)"
    "\<forall>v < 256. (gate_present (ar_idt a ! v) \<longleftrightarrow> handled v) \<and> (handled v \<longrightarrow> gate_addr (ar_idt a ! v) = vector_handler (bi_symbols i) v)"
    using arch_master_init_gates [of "(ea_arch s)\<lparr>ar_bus := rc_bus rtc\<rparr>" bus "bi_symbols i"] idt by auto
  have "start bus i s = Ret (Jumps (s\<lparr>ea_serial := se, ea_rtc := rtc, ea_ents := ents, ea_arch := a,
      ea_goto := map (\<lambda>_. bi_other_cpu i) (ea_goto s), ea_cpu := c'\<rparr>))"
    by (simp add: start_def se rtc ents meml_get_def a(1) c'(1))
  then show ?thesis using c'(2-6) a(2,3) by (intro exI [of _ "s\<lparr>ea_serial := se, ea_rtc := rtc, ea_ents := ents, ea_arch := a,
      ea_goto := map (\<lambda>_. bi_other_cpu i) (ea_goto s), ea_cpu := c'\<rparr>"] exI [of _ stk]) simp
qed

subsection \<open>The machine after the second stage\<close>

text \<open>
  The registry after \<open>mbr_find\<close>, for the devices found: only the addresses \<open>ps\<close> the heap gave for the arrays
  of partitions are left open, and nothing that follows depends on them.
\<close>

definition dev_bd :: "'b bus \<Rightarrow> ata_pio_dev \<Rightarrow> u64 \<Rightarrow> (ata_pio_dev, 'b ata) blkdev" where
  "dev_bd bus dev p = \<lparr>bd_driver_data = dev, bd_rd = Some (ata_pio_blkdev_rd bus), bd_wr = Some (ata_pio_blkdev_wr bus),
     bd_children = p, bd_part_base = 0, bd_flags = 0, bd_dev_type = BDT_DISK_DRIVE, bd_driver = BD_ATA_PIO,
     bd_blk_size = ad_sector_size dev, bd_nblk = ad_nsector dev, bd_mutex = 0, bd_parent_mutex = None\<rparr>"

definition boot_slot :: "'b bus \<Rightarrow> ('b \<Rightarrow> u16 \<Rightarrow> bool \<Rightarrow> nat \<Rightarrow> u16 list) \<Rightarrow> 'b ata \<Rightarrow> nat \<Rightarrow> ata_pio_dev \<Rightarrow> u64 \<Rightarrow>
    (ata_pio_dev, 'b ata) bd_slot" where
  "boot_slot bus disk h i dev p = mbr_slot i (dev_bd bus dev p, []) (ata_sector disk h dev 0)"

definition boot_slots :: "'b bus \<Rightarrow> ('b \<Rightarrow> u16 \<Rightarrow> bool \<Rightarrow> nat \<Rightarrow> u16 list) \<Rightarrow> 'b ata \<Rightarrow> ata_pio_dev list \<Rightarrow> (nat \<Rightarrow> u64) \<Rightarrow>
    (ata_pio_dev, 'b ata) bd_slot list" where
  "boot_slots bus disk h devs ps = map (\<lambda>i. boot_slot bus disk h i (devs ! i) (ps i)) [0..<length devs]"

lemma add_part_addr: "foldl (add_part i (dev_bd bus dev p)) cs rs = foldl (add_part i (dev_bd bus dev q)) cs rs"
proof -
  have "add_part i (dev_bd bus dev p) = add_part i (dev_bd bus dev q)"
    by (intro ext) (simp add: add_part_def dev_bd_def mk_part_of_def split: prod.split)
  then show ?thesis by simp
qed

lemma boot_slot_parts: "snd (boot_slot bus disk h i dev p) = snd (boot_slot bus disk h i dev q)"
  unfolding boot_slot_def mbr_slot_def snd_conv fst_conv add_part_addr [of i bus dev p _ _ q]
  by (simp add: mbr_disk_def dev_bd_def)

lemma boot_slots_length: "length (boot_slots bus disk h devs ps) = length devs"
  by (simp add: boot_slots_def)

lemma boot_refs_addr: "all_refs (boot_slots bus disk h devs ps) = all_refs (boot_slots bus disk h devs qs)"
proof -
  have "tree_refs (boot_slots bus disk h devs ps) i = tree_refs (boot_slots bus disk h devs qs) i" if "i < length devs" for i
    using that boot_slot_parts [of bus disk h i "devs ! i" "ps i" "qs i"] by (simp add: tree_refs_def boot_slots_def)
  then have "map (tree_refs (boot_slots bus disk h devs ps)) [0..<length devs] = map (tree_refs (boot_slots bus disk h devs qs)) [0..<length devs]"
    by simp
  then show ?thesis unfolding all_refs_def boot_slots_length by (rule arg_cong)
qed

lemma boot_at_addr:
  "\<exists>p. bd_at r (boot_slots bus disk h devs ps) = map_option (\<lambda>bd. bd\<lparr>bd_children := p\<rparr>) (bd_at r (boot_slots bus disk h devs qs))"
proof (cases r)
  case (Dev i)
  then show ?thesis
    by (intro exI [of _ "ps i"]) (simp add: boot_slots_def boot_slot_def mbr_slot_def dev_bd_def)
next
  case (Part i j)
  show ?thesis
  proof (cases "i < length devs")
    case True
    have "bd_at r (boot_slots bus disk h devs ps) = bd_at r (boot_slots bus disk h devs qs)"
      using True boot_slot_parts [of bus disk h i "devs ! i" "ps i" "qs i"] by (simp add: Part boot_slots_def)
    then show ?thesis
      by (cases "bd_at r (boot_slots bus disk h devs qs)")
        (auto intro!: exI [of _ "bd_children (the (bd_at r (boot_slots bus disk h devs qs)))"])
  next
    case False
    then show ?thesis by (simp add: Part boot_slots_def)
  qed
qed

lemma boot_blk_addr:
  "r \<in> set (all_refs (boot_slots bus disk h devs ps)) \<Longrightarrow>
   ata_mount.boot_blk disk (boot_slots bus disk h devs ps) h' r = ata_mount.boot_blk disk (boot_slots bus disk h devs qs) h' r \<and>
   ata_mount.fat_on disk (boot_slots bus disk h devs ps) h' r = ata_mount.fat_on disk (boot_slots bus disk h devs qs) h' r"
proof -
  assume r: "r \<in> set (all_refs (boot_slots bus disk h devs ps))"
  obtain p where p: "bd_at r (boot_slots bus disk h devs ps) = map_option (\<lambda>bd. bd\<lparr>bd_children := p\<rparr>) (bd_at r (boot_slots bus disk h devs qs))"
    using boot_at_addr by blast
  obtain bd where bd: "bd_at r (boot_slots bus disk h devs qs) = Some bd" using all_refs_at [OF r] p by auto
  then have "bd_at r (boot_slots bus disk h devs ps) = Some (bd\<lparr>bd_children := p\<rparr>)" using p by simp
  then show ?thesis using bd by (simp add: ata_mount.boot_blk_def ata_mount.fat_on_def ata.block_def)
qed

lemma probed_boot_slots:
  assumes "list_all2 (probed bus) devs sl" and "length sl' = length sl"
    and "\<forall>i < length sl. sl' ! i = mbr_slot i (sl ! i) (ata.block disk (fst (sl ! i)) h 0)"
  shows "\<exists>ps. sl' = boot_slots bus disk h devs ps"
proof -
  have len: "length sl = length devs" using assms(1) by (simp add: list_all2_lengthD)
  have "\<forall>i < length devs. \<exists>p. sl ! i = (dev_bd bus (devs ! i) p, [])"
    using assms(1) by (auto simp: list_all2_conv_all_nth probed_def dev_bd_def)
  then obtain ps where ps: "\<forall>i < length devs. sl ! i = (dev_bd bus (devs ! i) (ps i), [])" by metis
  have "sl' ! i = boot_slot bus disk h i (devs ! i) (ps i)" if "i < length devs" for i
    using that assms(3) ps len by (simp add: boot_slot_def ata.block_def dev_bd_def)
  then have "sl' = boot_slots bus disk h devs ps"
    using assms(2) len by (intro nth_equalityI) (simp_all add: boot_slots_length boot_slots_def)
  then show ?thesis by blast
qed

text \<open>The FAT file systems of the devices found, in the order they are mounted.\<close>

definition boot_refs :: "'b bus \<Rightarrow> ('b \<Rightarrow> u16 \<Rightarrow> bool \<Rightarrow> nat \<Rightarrow> u16 list) \<Rightarrow> 'b ata \<Rightarrow> ata_pio_dev list \<Rightarrow> bd_ref list" where
  "boot_refs bus disk h devs = (let sl = boot_slots bus disk h devs (\<lambda>_. 0) in filter (ata_mount.fat_on disk sl h) (all_refs sl))"

definition boot_sound :: "'b bus \<Rightarrow> ('b \<Rightarrow> u16 \<Rightarrow> bool \<Rightarrow> nat \<Rightarrow> u16 list) \<Rightarrow> 'b ata \<Rightarrow> ata_pio_dev list \<Rightarrow> bool" where
  "boot_sound bus disk h devs \<longleftrightarrow> (let sl = boot_slots bus disk h devs (\<lambda>_. 0) in
     \<forall>r \<in> set (all_refs sl). \<not> zero_cluster (ata_mount.boot_blk disk sl h r))"

lemma boot_refs_slots: "filter (ata_mount.fat_on disk (boot_slots bus disk h devs ps) h) (all_refs (boot_slots bus disk h devs ps)) = boot_refs bus disk h devs"
  unfolding boot_refs_def Let_def boot_refs_addr [of bus disk h devs "\<lambda>_. 0" ps]
  by (rule filter_cong [OF refl]) (use boot_blk_addr [of _ bus disk h devs ps h "\<lambda>_. 0"] in blast)

lemma boot_sound_slots:
  "boot_sound bus disk h devs \<Longrightarrow> r \<in> set (all_refs (boot_slots bus disk h devs ps)) \<Longrightarrow>
   \<not> zero_cluster (ata_mount.boot_blk disk (boot_slots bus disk h devs ps) h r)"
  using boot_blk_addr [of r bus disk h devs ps h "\<lambda>_. 0"] boot_refs_addr [of bus disk h devs ps "\<lambda>_. 0"]
  by (simp add: boot_sound_def Let_def)

lemma fat_on_fun: "ata_sector disk h' = ata_sector disk h \<Longrightarrow> ata_mount.fat_on disk sl h' = ata_mount.fat_on disk sl h"
  by (rule ext) (rule ata_mount.fat_on_same(1))

lemma boot_same:
  assumes "ata_sector disk h' = ata_sector disk h"
  shows "boot_refs bus disk h' devs = boot_refs bus disk h devs" "boot_sound bus disk h' devs = boot_sound bus disk h devs"
proof -
  have "boot_slots bus disk h' devs ps = boot_slots bus disk h devs ps" for ps
    by (simp add: boot_slots_def boot_slot_def assms)
  then show "boot_refs bus disk h' devs = boot_refs bus disk h devs" "boot_sound bus disk h' devs = boot_sound bus disk h devs"
    by (simp_all add: boot_refs_def boot_sound_def Let_def fat_on_fun [OF assms] ata_mount.fat_on_same(2) [OF assms])
qed

lemma stage_2_mounts:
  assumes dev: "ata_ready bus idle tf disk D (dk_hw d)" "ata_identify bus idle tf disk ident"
      "\<forall>x \<in> set (found ident ata_probe). ata_valid D x"
    and sound: "boot_sound bus disk (dk_hw d) (found ident ata_probe)"
    and k: "kheap_serves (2 * length (found ident ata_probe) + 2 * min NDRIVES (length (boot_refs bus disk (dk_hw d) (found ident ata_probe)))) (dk_heap d)"
    and drives: "mounted_on drives []" and stk: "length stk = 512" and env: "me_kalloc env = kheap_alloc pmm_alloc" "length (me_stk env) = 512"
  shows "\<exists>d1 d2 drives' d3. blkdevs_find (kheap_alloc pmm_alloc) bus dev0 d = Ret d1 \<and> mbr_find stk d1 = Ret d2 \<and>
    vfs_auto_mount env (drives, d2) = Ret (drives', d3) \<and>
    mounted_on drives' (take NDRIVES (boot_refs bus disk (dk_hw d) (found ident ata_probe)))"
proof -
  let ?devs = "found ident ata_probe"
  let ?refs = "boot_refs bus disk (dk_hw d) ?devs"
  obtain d1 where d1: "blkdevs_find (kheap_alloc pmm_alloc) bus dev0 d = Ret d1" "ata_ready bus idle tf disk D (dk_hw d1)"
    "ata_sector disk (dk_hw d1) = ata_sector disk (dk_hw d)" "list_all2 (probed bus) ?devs (dk_slots d1)"
    "kheap_serves (2 * min NDRIVES (length ?refs)) (dk_heap d1)"
    using kheap.blkdevs_find_run [OF dev(1,2) k, of dev0] by blast
  have served: "ata.served bus idle tf disk D d1" by (rule probed_served [OF d1(4) dev(3) d1(2)])
  obtain d2 where d2: "mbr_find stk d1 = Ret d2" "ata.served bus idle tf disk D d2"
    "ata_sector disk (dk_hw d2) = ata_sector disk (dk_hw d1)" "length (dk_slots d2) = length (dk_slots d1)" "dk_heap d2 = dk_heap d1"
    "\<forall>i < length (dk_slots d1). dk_slots d2 ! i = mbr_slot i (dk_slots d1 ! i) (ata.block disk (fst (dk_slots d1 ! i)) (dk_hw d1) 0)"
    using ata.mbr_find_run [OF served stk] by blast
  obtain ps where ps: "dk_slots d2 = boot_slots bus disk (dk_hw d1) ?devs ps" using probed_boot_slots [OF d1(4) d2(4,6)] by blast
  note same = d1(3) boot_same [OF d2(3)] boot_same [OF d1(3)]
  have refs: "ata_fat_refs disk d2 = ?refs"
    using boot_refs_slots [of disk bus "dk_hw d1" ?devs ps] by (simp add: ata_fat_refs_def ps fat_on_fun [OF d2(3)] same)
  have "\<forall>r \<in> set (all_refs (dk_slots d2)). \<not> zero_cluster (ata_mount.boot_blk disk (dk_slots d2) (dk_hw d2) r)"
    using boot_sound_slots [OF sound [folded boot_same(2) [OF d1(3)]]] by (simp add: ps ata_mount.fat_on_same(2) [OF d2(3)])
  from ata_mount.vfs_auto_mount_run [OF d2(2) drives env this] d1(5) d2(5) refs obtain drives' d3 where
    "vfs_auto_mount env (drives, d2) = Ret (drives', d3)" "mounted_on drives' (take NDRIVES ?refs)"
    by (auto simp: ata_fat_refs_def)
  then show ?thesis using d1(1) d2(1) by blast
qed

subsection \<open>Properties\<close>

text \<open>
  C15: a machine with a serial port, a clock and usable memory leaves \<open>_start\<close> for the second
  stage: it runs at the continuation, on the new stack, in an address space that maps exactly the kernel, the first
  megabyte, the usable memory and the stack; the interrupt table leads to the handlers, interrupts are enabled,
  and all other processors have been sent to \<open>init_other_cpu\<close>.
\<close>
theorem start_reaches_stage_2:
  assumes "sp_init bus (ea_serial s) = (0, se)" and "rtc_init bus ((ea_rtc s)\<lparr>rc_bus := se_bus se\<rparr>) = Ret rtc"
    and "length (ar_idt (ea_arch s)) = 256" and "meml_init (bi_memmap i) = (0, ents)" and "layout_ok ents"
    and "boot_layout (bi_k_size i) (bi_pbase i) (bi_vbase i) ents"
    and "1 + 3 * card (pg_idx ` snd ` set (init_pages (bi_k_size i) (bi_pbase i) (bi_vbase i) ents)) + K_STK_PAGES
      \<le> card (clears (map (bm_init (bi_ram i)) ents))"
  shows "\<exists>s' stk. start bus i s = Ret (Jumps s') \<and> cpu_rip (ea_cpu s') = bi_stage_2 i \<and> cpu_rsp (ea_cpu s') = K_STK_BASE + 0x8000 \<and>
    length stk = K_STK_PAGES \<and> distinct stk \<and>
    (\<forall>w. canonical w \<longrightarrow> pg_walk (km_mem (cpu_mem (ea_cpu s'))) (cpu_cr3 (ea_cpu s')) w =
       kernel_space (bi_k_size i) (bi_pbase i) (bi_vbase i) ents stk w) \<and>
    sg_if (ar_seg (ea_arch s')) \<and> (\<forall>v < 256. (gate_present (ar_idt (ea_arch s') ! v) \<longleftrightarrow> handled v) \<and>
      (handled v \<longrightarrow> gate_addr (ar_idt (ea_arch s') ! v) = vector_handler (bi_symbols i) v)) \<and>
    ea_goto s' = map (\<lambda>_. bi_other_cpu i) (ea_goto s)"
  using start_run [OF assms] by blast

definition boot_bus :: "unit bus" where
  "boot_bus = \<lparr>in_8 = \<lambda>p b. (if p = PORT_COM1 then 0xae else 0, b), in_16 = \<lambda>p b. (0, b), in_32 = \<lambda>p b. (0, b),
     out_8 = \<lambda>p v b. b, out_16 = \<lambda>p v b. b, out_32 = \<lambda>p v b. b\<rparr>"

definition boot_info0 :: boot_info where
  "boot_info0 = \<lparr>bi_memmap = map (\<lambda>e. \<lparr>mm_base = me_base e, mm_length = me_size e, mm_type = MM_Usable\<rparr>) demo_layout, bi_ram = \<lambda>_. 0,
     bi_symbols = sym_demo, bi_k_size = 0x3000, bi_pbase = 0x200000, bi_vbase = 0xffffffff80000000,
     bi_other_cpu = 0xffffffff80001000, bi_stage_2 = 0xffffffff80000123\<rparr>"

definition early0 :: "unit early" where
  "early0 = \<lparr>ea_serial = \<lparr>se_bus = (), se_mutex = 0\<rparr>,
     ea_rtc = \<lparr>rc_bus = (), rc_boot_time = \<lparr>rt_sec = 0, rt_min = 0, rt_hour = 0, rt_day = 0, rt_month = 0, rt_year = 0\<rparr>,
       rc_mode_flags = 0, rc_mutex = 0\<rparr>,
     ea_arch = \<lparr>ar_seg = ar_seg arch_demo, ar_idt = ar_idt arch_demo, ar_bus = ()\<rparr>,
     ea_ents = [], ea_goto = [0, 0], ea_cpu = demo_cpu\<rparr>"

lemma boot_bus_rtc: "\<exists>rtc. rtc_init boot_bus (ea_rtc early0) = Ret rtc"
proof -
  have rd: "rd_cmos_reg boot_bus reg b = (0, b)" for reg b by (simp add: rd_cmos_reg_bus boot_bus_def)
  have "rtc_settle boot_bus () = Ret ()" by (simp add: rtc_settle_unfold rd)
  then show ?thesis by (simp add: rtc_init_def rtc_get_time_def rd early0_def)
qed

theorem start_reaches_stage_2_witness:
  "\<exists>s'. start boot_bus boot_info0 early0 = Ret (Jumps s') \<and> cpu_rip (ea_cpu s') = 0xffffffff80000123 \<and>
     ea_goto s' = [0xffffffff80001000, 0xffffffff80001000]"
proof -
  have se: "sp_init boot_bus (ea_serial early0) = (0, ea_serial early0)"
    by (simp add: sp_init_def boot_bus_def early0_def port_wr_8 port_rd_def)
  have e: "(ea_rtc early0)\<lparr>rc_bus := se_bus (ea_serial early0)\<rparr> = ea_rtc early0" by (simp add: early0_def)
  obtain rtc where rtc: "rtc_init boot_bus ((ea_rtc early0)\<lparr>rc_bus := se_bus (ea_serial early0)\<rparr>) = Ret rtc"
    unfolding e using boot_bus_rtc by blast
  have ents: "meml_init (bi_memmap boot_info0) = (0, demo_layout)"
    by (simp add: meml_init_def boot_info0_def demo_layout_def)
  have bl: "boot_layout (bi_k_size boot_info0) (bi_pbase boot_info0) (bi_vbase boot_info0) demo_layout"
    by (simp add: boot_layout_def demo_layout_def page_align_def boot_info0_def)
  have "card (clears (map (bm_init (bi_ram boot_info0)) demo_layout)) = 63"
    using demo_kmem_avail(3) pmm_init_spec [OF demo_layout_ok, of "\<lambda>_. 0"] by (simp add: demo_kmem_def boot_info0_def)
  then have "1 + 3 * card (pg_idx ` snd ` set (init_pages (bi_k_size boot_info0) (bi_pbase boot_info0) (bi_vbase boot_info0) demo_layout)) + K_STK_PAGES
      \<le> card (clears (map (bm_init (bi_ram boot_info0)) demo_layout))"
    using demo_boot_tables by (simp add: boot_info0_def)
  from start_reaches_stage_2 [OF se rtc _ ents demo_layout_ok bl this] show ?thesis
    by (auto simp: boot_info0_def early0_def arch_demo_def)
qed

text \<open>
  C3: the second stage returns from every component and hangs in the end: it has mounted the FAT16 file systems of the
  disks found and of the partitions their tables name, in that order and at most 255, and has installed the system
  call if and only if there is one.  It starts with well-formed page tables, all linked for writing as those of \<open>vmm_init\<close> are, enough free frames for the heap and its blocks, an
  empty table of drives, and buffers of 512 bytes on the stack.  On the disks it needs: they answer IDENTIFY and the
  commands; every device that the probes register (on each bus with a first drive these are two, the second with the data of
  the first, whether that drive is there or not) can be read in all its sectors, and has at most \<open>2 ^ 24\<close> of them if it has
  no LBA48 (\<open>ata_valid\<close>); and no first sector of a disk or of a partition claims FAT16 clusters of zero
  sectors (\<open>boot_sound\<close>), by which \<open>fat_verify\<close> divides before it looks further, so that the kernel would fault.
\<close>
theorem init_stage_2_mounts:
  assumes "pg_wf pmm_ok pmm_avail (cpu_cr3 (kh_cpu (dk_heap (la_disks s)))) (cpu_mem (kh_cpu (dk_heap (la_disks s))))"
    and "kh_mutex (dk_heap (la_disks s)) = 0"
    and "4 + 8 * (2 * length (found ident ata_probe) + 2 * min NDRIVES (length (boot_refs bus disk (dk_hw (la_disks s)) (found ident ata_probe))))
      \<le> card (pmm_avail (km_pmm (cpu_mem (kh_cpu (dk_heap (la_disks s))))))"
    and "ata_ready bus idle tf disk D (dk_hw (la_disks s))" and "ata_identify bus idle tf disk ident"
    and "\<forall>x \<in> set (found ident ata_probe). ata_valid D x"
    and "boot_sound bus disk (dk_hw (la_disks s)) (found ident ata_probe)"
    and "mounted_on (la_drives s) []" and "length (la_idt s) = 256" and "length stk = 512"
    and "me_kalloc env = kheap_alloc pmm_alloc" and "length (me_stk env) = 512"
    and "pg_rw (km_mem (cpu_mem (kh_cpu (dk_heap (la_disks s))))) (cpu_cr3 (kh_cpu (dk_heap (la_disks s))))"
  shows "\<exists>s'. init_stage_2 bus dev0 stk env sc_head s = Ret (Hangs s') \<and>
    mounted_on (la_drives s') (take NDRIVES (boot_refs bus disk (dk_hw (la_disks s)) (found ident ata_probe))) \<and>
    (if boot_refs bus disk (dk_hw (la_disks s)) (found ident ata_probe) = [] then la_idt s' = la_idt s
     else gate_present (la_idt s' ! 0x80) \<and> gate_addr (la_idt s' ! 0x80) = sc_head \<and> (\<forall>v. v \<noteq> 0x80 \<longrightarrow> la_idt s' ! v = la_idt s ! v))"
proof -
  let ?d = "la_disks s" and ?devs = "found ident ata_probe"
  let ?refs = "boot_refs bus disk (dk_hw ?d) ?devs"
  have "length ?devs \<le> 4" by (simp add: found_pairs)
  then have "2 * length ?devs + 2 * min NDRIVES (length ?refs) \<le> 200000" by simp
  from kheap_init_serves [OF assms(1-3) this assms(13)] obtain k where
    k: "kheap_init pmm_alloc (dk_heap ?d) = Ret (0, k)" "kheap_serves (2 * length ?devs + 2 * min NDRIVES (length ?refs)) k" by blast
  let ?e = "?d\<lparr>dk_heap := k\<rparr>"
  obtain d1 d2 drives' d3 where r: "blkdevs_find (kheap_alloc pmm_alloc) bus dev0 ?e = Ret d1" "mbr_find stk d1 = Ret d2"
    "vfs_auto_mount env (la_drives s, d2) = Ret (drives', d3)" "mounted_on drives' (take NDRIVES ?refs)"
    using stage_2_mounts [of bus idle tf disk D ?e ident "la_drives s" stk env dev0] assms(4-8,10-12) k(2) by auto
  have cnt: "vfs_cnt_mounted drives' = 0 \<longleftrightarrow> ?refs = []" using mounted_cnt [OF r(4)] by (cases ?refs) simp_all
  obtain idt where idt: "syscall_init sc_head (la_idt s) = Ret idt" "gate_present (idt ! 0x80)" "gate_addr (idt ! 0x80) = sc_head"
    "\<forall>v. v \<noteq> 0x80 \<longrightarrow> idt ! v = la_idt s ! v" using syscall_gate [OF assms(9)] by blast
  show ?thesis
  proof (cases "?refs = []")
    case True
    then show ?thesis using r(4) cnt by (simp add: init_stage_2_def k(1) r(1-3))
  next
    case False
    then show ?thesis using r(4) cnt idt(2-4) by (simp add: init_stage_2_def k(1) r(1-3) idt(1))
  qed
qed

definition late0 :: "ram_ata late" where
  "late0 = \<lparr>la_disks = \<lparr>dk_slots = [], dk_hw = ram_ata_of fat_img, dk_heap = demo_heap\<rparr>, la_drives = replicate 255 free_drive,
     la_idt = ar_idt arch_demo\<rparr>"

lemma pair_ready: "ata_ready (id_bus id_words) ra_idle ra_tf ra_words (set ram_pair) (ram_ata_of fat_img)"
  by (rule ram_ready_of) (auto simp: ram_pair_def fat_img_def)

lemma pair_valid: "\<forall>d \<in> set ram_pair. ata_valid (set ram_pair) d"
  by (simp add: ram_pair_def ata_valid_def dev_addressable_def ata_buses_def)

lemma pair_sectors:
  "ata_sector ra_words (ram_ata_of fat_img) (ram_pair ! 0) 0 = boot_sector"
  "ata_sector ra_words (ram_ata_of fat_img) (ram_pair ! Suc 0) 0 = replicate 512 0"
  by (simp_all add: ata_sector_def ram_ata_of_def ra_words_def ram_pair_def fat_img_def word_bytes_def zero_pairs boot_sector_def
      map_replicate_const)

lemma boot_sector_no_parts: "mbr_ranges boot_sector = []"
proof -
  have "boot_sector ! k = 0" if "446 \<le> k" "k < 510" for k
    using that by (simp add: boot_sector_def nth_append nth_Cons split: nat.splits)
  then have z: "rd8 boot_sector 450 = 0" "rd8 boot_sector 466 = 0" "rd8 boot_sector 482 = 0" "rd8 boot_sector 498 = 0"
    by (simp_all add: rd8_def)
  have u: "[0..<4] = [0, 1, 2, 3 :: nat]" by (simp add: upt_rec)
  show ?thesis by (simp add: mbr_ranges_def mbr_of_def mbr_ent_of_def u z)
qed

lemma blank_sig: "rd16 (replicate 512 0) 510 = 0"
  by (simp add: rd16_def numeral_2_eq_2)

lemma pair_slots:
  "boot_slots bus ra_words (ram_ata_of fat_img) ram_pair (\<lambda>_. 0) = [(dev_bd bus (ram_pair ! 0) 0, []), (dev_bd bus (ram_pair ! 1) 0, [])]"
proof -
  have l: "length ram_pair = 2" by (simp add: ram_pair_def)
  have u: "[0..<2] = [0, 1 :: nat]" by (simp add: upt_rec)
  show ?thesis
    by (simp add: boot_slots_def l u boot_slot_def pair_sectors mbr_slot_def boot_sector_no_parts)
      (simp add: mbr_disk_def blank_sig)
qed

lemma pair_block: "i < 2 \<Longrightarrow> ata_mount.boot_blk ra_words [(dev_bd bus (ram_pair ! 0) 0, []), (dev_bd bus (ram_pair ! 1) 0, [])] (ram_ata_of fat_img) (Dev i) =
    (if i = 0 then boot_sector else replicate 512 0)"
  by (cases "i = 0") (simp_all add: ata_mount.boot_blk_def ata.block_def dev_bd_def pair_sectors less_2_cases_iff)

lemma blank_not_fat: "\<not> fat_fields (replicate 512 0)"
  by (simp add: fat_fields_def blank_sig)

lemma pair_refs:
  "boot_refs bus ra_words (ram_ata_of fat_img) ram_pair = [Dev 0]" "boot_sound bus ra_words (ram_ata_of fat_img) ram_pair"
proof -
  have a: "all_refs [(dev_bd bus (ram_pair ! 0) 0, []), (dev_bd bus (ram_pair ! 1) 0, [])] = [Dev 0, Dev 1]"
    by (simp add: all_refs_def tree_refs_def upt_rec)
  have f: "ata_mount.fat_on ra_words [(dev_bd bus (ram_pair ! 0) 0, []), (dev_bd bus (ram_pair ! 1) 0, [])] (ram_ata_of fat_img) (Dev 0)"
    unfolding ata_mount.fat_on_def using pair_block [of 0 bus] boot_sector_fat(1) by (simp add: dev_bd_def ram_pair_def)
  have g: "\<not> ata_mount.fat_on ra_words [(dev_bd bus (ram_pair ! 0) 0, []), (dev_bd bus (ram_pair ! 1) 0, [])] (ram_ata_of fat_img) (Dev 1)"
    unfolding ata_mount.fat_on_def using pair_block [of 1 bus] blank_not_fat by (simp add: fat_sector_def)
  show "boot_refs bus ra_words (ram_ata_of fat_img) ram_pair = [Dev 0]"
    unfolding boot_refs_def pair_slots Let_def a using f g by simp
  show "boot_sound bus ra_words (ram_ata_of fat_img) ram_pair"
    unfolding boot_sound_def pair_slots Let_def a
    using pair_block [of 0 bus] pair_block [of 1 bus] boot_sector_fat(2) blank_not_fat by (simp add: zero_cluster_def)
qed

theorem init_stage_2_mounts_witness:
  "\<exists>s'. init_stage_2 (id_bus id_words) fat_dev0 (replicate 512 0) fat_env 0xffffffff80100000 late0 = Ret (Hangs s') \<and>
     dr_blkdev (la_drives s' ! 0) = Some (Dev 0) \<and> vfs_cnt_mounted (la_drives s') = 1 \<and>
     gate_addr (la_idt s' ! 0x80) = 0xffffffff80100000"
proof -
  have l: "length ram_pair = 2" by (simp add: ram_pair_def)
  have hw: "dk_hw (la_disks late0) = ram_ata_of fat_img" "dk_heap (la_disks late0) = demo_heap" by (simp_all add: late0_def)
  have h: "pg_wf pmm_ok pmm_avail (cpu_cr3 (kh_cpu demo_heap)) (cpu_mem (kh_cpu demo_heap))" "kh_mutex demo_heap = 0"
    "card (pmm_avail (km_pmm (cpu_mem (kh_cpu demo_heap)))) = 63"
    using demo_cpu_wf(1) by (simp_all add: demo_heap_def demo_cpu_def demo_kmem_avail)
  have ident: "ata_identify (id_bus id_words) ra_idle ra_tf ra_words (ram_ident id_words)"
    by (rule ram_identify) (simp add: id_words_def)
  have rw: "pg_rw (km_mem (cpu_mem (kh_cpu demo_heap))) (cpu_cr3 (kh_cpu demo_heap))"
    using demo_cpu_rw by (simp add: demo_heap_def)
  obtain s' where s': "init_stage_2 (id_bus id_words) fat_dev0 (replicate 512 0) fat_env 0xffffffff80100000 late0 = Ret (Hangs s')"
    "mounted_on (la_drives s') [Dev 0]" "gate_addr (la_idt s' ! 0x80) = 0xffffffff80100000"
    using init_stage_2_mounts [of late0 "ram_ident id_words" "id_bus id_words" ra_words ra_idle ra_tf "set ram_pair"
        "replicate 512 0" fat_env fat_dev0 "0xffffffff80100000", unfolded hw ram_found pair_refs(1),
        OF h(1,2) _ pair_ready ident pair_valid pair_refs(2)] rw h(3) no_drives l
    by (auto simp: late0_def arch_demo_def fat_env_def)
  have "dr_blkdev (la_drives s' ! 0) = Some (Dev 0)" using s'(2) by (simp add: mounted_on_def)
  then show ?thesis using s' mounted_cnt [OF s'(2)] by auto
qed

end
