(* ===== verification/Pmm_Smp.thy ===== *)
theory Pmm_Smp
  imports Pmm
begin

section \<open>The frame allocator under interleaving (pmm.c, katomic.c)\<close>

text \<open>
  \<open>pmm_alloc\<close> and \<open>pmm_free\<close> as any number of processors run them at once.  A call is a sequence of
  small steps: each try of the lock is a \<open>cmpxchg\<close>, each round of a loop of the critical section is
  a step, and between any two steps the other processors may take theirs.  The mutex makes the
  calls atomic: in every reachable state the bitmaps and the stack are what a sequential run of the
  calls, in the order of their unlocks, gives.
\<close>

subsection \<open>The critical sections, step by step\<close>

text \<open>
  Where a processor stands between the lock and the unlock: at the test for an empty stack, at the
  head of the loop of \<open>bm_feed_stk\<close> over the bitmaps, in its inner loop over the pages, in
  \<open>bm_find_first_free\<close>, before the pop; and for \<open>pmm_free\<close> in the search for the bitmap, before the
  bit is cleared, and before \<open>first_free\<close> is lowered.
\<close>

datatype pmm_pc = PTest | PFeed nat | PPage nat nat | PFirst nat nat | PPop
  | PFind phys_addr_t nat | PClear phys_addr_t nat | PLow phys_addr_t nat

fun pmm_micro :: "pmm_pc \<Rightarrow> pmm \<Rightarrow> (pmm_pc + phys_addr_t) \<times> pmm" where
  "pmm_micro PTest s = (Inl (if page_stk s = [] then PFeed 0 else PPop), s)"
| "pmm_micro (PFeed i) s =
     (Inl (if i < length (page_bms s) \<and> length (page_stk s) < PAGE_STK_CAP
           then PPage i (bm_first_free (page_bms s ! i)) else PPop), s)"
| "pmm_micro (PPage i j) s =
     (let bm = page_bms s ! i; stk = page_stk s in
      if j < bm_npage bm then
        (let (bm', stk') = (if \<not> bm_test bm j then (bm_set bm j, bm_frame bm j # stk) else (bm, stk))
         in (Inl (if length stk' \<ge> PAGE_STK_CAP then PFirst i (bm_first_free bm' + 1) else PPage i (Suc j)),
             s\<lparr>page_bms := (page_bms s)[i := bm'], page_stk := stk'\<rparr>))
      else (Inl (PFirst i (bm_first_free bm + 1)), s))"
| "pmm_micro (PFirst i free) s =
     (let bm = page_bms s ! i in
      if free < bm_npage bm \<and> bm_test bm free then (Inl (PFirst i (Suc free)), s)
      else (Inl (PFeed (Suc i)), s\<lparr>page_bms := (page_bms s)[i := bm\<lparr>bm_first_free := free\<rparr>]\<rparr>))"
| "pmm_micro PPop s =
     (case page_stk s of [] \<Rightarrow> (Inr PHYS_ADDR_NULL, s) | paddr # stk \<Rightarrow> (Inr paddr, s\<lparr>page_stk := stk\<rparr>))"
| "pmm_micro (PFind addr i) s =
     (if i < length (page_bms s)
      then (Inl (if bm_covers (page_bms s ! i) addr then PClear addr i else PFind addr (Suc i)), s)
      else (Inr PHYS_ADDR_NULL, s))"
| "pmm_micro (PClear addr i) s =
     (let bm = page_bms s ! i in
      (Inl (PLow addr i), s\<lparr>page_bms := (page_bms s)[i := bm_clear bm (bm_ind bm addr)]\<rparr>))"
| "pmm_micro (PLow addr i) s =
     (let bm = page_bms s ! i; ind = bm_ind bm addr in
      (Inr PHYS_ADDR_NULL, s\<lparr>page_bms := (page_bms s)[i := bm\<lparr>bm_first_free :=
         if ind < bm_first_free bm then ind else bm_first_free bm\<rparr>]\<rparr>))"

datatype pmm_call = Alloc | Free phys_addr_t

definition pmm_entry :: "pmm_call \<Rightarrow> pmm_pc" where
  "pmm_entry c = (case c of Alloc \<Rightarrow> PTest | Free addr \<Rightarrow> PFind (page_align addr) 0)"

text \<open>What is left of a call at a step, as the sequential functions compute it.\<close>

definition rest_pop :: "pmm \<Rightarrow> phys_addr_t \<times> pmm" where
  "rest_pop s = (case page_stk s of [] \<Rightarrow> (PHYS_ADDR_NULL, s) | paddr # stk \<Rightarrow> (paddr, s\<lparr>page_stk := stk\<rparr>))"

definition rest_feed :: "nat \<Rightarrow> pmm \<Rightarrow> phys_addr_t \<times> pmm" where
  "rest_feed i s = (let (bms, stk) = bm_feed_stk (drop i (page_bms s)) (page_stk s) in
     rest_pop (s\<lparr>page_bms := take i (page_bms s) @ bms, page_stk := stk\<rparr>))"

definition rest_first :: "nat \<Rightarrow> nat \<Rightarrow> pmm \<Rightarrow> phys_addr_t \<times> pmm" where
  "rest_first i free s = (let bm = page_bms s ! i in
     rest_feed (Suc i) (s\<lparr>page_bms := (page_bms s)[i := bm\<lparr>bm_first_free := bm_find_first_free bm free\<rparr>]\<rparr>))"

fun pmm_rest :: "pmm_pc \<Rightarrow> pmm \<Rightarrow> phys_addr_t \<times> pmm" where
  "pmm_rest PTest s = (if page_stk s = [] then rest_feed 0 s else rest_pop s)"
| "pmm_rest (PFeed i) s = rest_feed i s"
| "pmm_rest (PPage i j) s =
     (let (bm, stk) = feed_pages (page_bms s ! i) (page_stk s) j in
      rest_first i (bm_first_free bm + 1) (s\<lparr>page_bms := (page_bms s)[i := bm], page_stk := stk\<rparr>))"
| "pmm_rest (PFirst i free) s = rest_first i free s"
| "pmm_rest PPop s = rest_pop s"
| "pmm_rest (PFind addr i) s =
     (case find_bm (drop i (page_bms s)) addr of
        None \<Rightarrow> (PHYS_ADDR_NULL, s)
      | Some k \<Rightarrow> (PHYS_ADDR_NULL, s\<lparr>page_bms := (page_bms s)[i + k :=
          bm_free (page_bms s ! (i + k)) (bm_ind (page_bms s ! (i + k)) addr)]\<rparr>))"
| "pmm_rest (PClear addr i) s =
     (PHYS_ADDR_NULL, s\<lparr>page_bms := (page_bms s)[i := bm_free (page_bms s ! i) (bm_ind (page_bms s ! i) addr)]\<rparr>)"
| "pmm_rest (PLow addr i) s =
     (let bm = page_bms s ! i; ind = bm_ind bm addr in
      (PHYS_ADDR_NULL, s\<lparr>page_bms := (page_bms s)[i := bm\<lparr>bm_first_free :=
         if ind < bm_first_free bm then ind else bm_first_free bm\<rparr>]\<rparr>))"

fun pmm_pc_ok :: "pmm_pc \<Rightarrow> pmm \<Rightarrow> bool" where
  "pmm_pc_ok (PPage i j) s \<longleftrightarrow> i < length (page_bms s)"
| "pmm_pc_ok (PFirst i free) s \<longleftrightarrow> i < length (page_bms s)"
| "pmm_pc_ok (PClear addr i) s \<longleftrightarrow> i < length (page_bms s)"
| "pmm_pc_ok (PLow addr i) s \<longleftrightarrow> i < length (page_bms s)"
| "pmm_pc_ok _ s \<longleftrightarrow> True"

lemma rest_feed_step:
  assumes "i < length (page_bms s)" and "length (page_stk s) < PAGE_STK_CAP"
  shows "rest_feed i s = pmm_rest (PPage i (bm_first_free (page_bms s ! i))) s"
proof -
  have d: "drop i (page_bms s) = page_bms s ! i # drop (Suc i) (page_bms s)"
    using assms(1) by (simp add: Cons_nth_drop_Suc)
  obtain bm stk where f: "feed_pages (page_bms s ! i) (page_stk s) (bm_first_free (page_bms s ! i)) = (bm, stk)"
    by fastforce
  obtain bms stk' where r: "bm_feed_stk (drop (Suc i) (page_bms s)) stk = (bms, stk')" by fastforce
  have "take (Suc i) ((page_bms s)[i := x]) = take i (page_bms s) @ [x]" for x
    using assms(1) by (simp add: take_Suc_conv_app_nth)
  then show ?thesis
    using assms by (simp add: rest_feed_def rest_first_def d feed_bm_def f r Let_def)
qed

lemma rest_feed_end:
  "\<not> (i < length (page_bms s) \<and> length (page_stk s) < PAGE_STK_CAP) \<Longrightarrow> rest_feed i s = rest_pop s"
proof -
  assume e: "\<not> (i < length (page_bms s) \<and> length (page_stk s) < PAGE_STK_CAP)"
  have "bm_feed_stk (drop i (page_bms s)) (page_stk s) = (drop i (page_bms s), page_stk s)"
    using e by (cases "drop i (page_bms s)") auto
  then show ?thesis by (simp add: rest_feed_def)
qed

text \<open>A step does not change what the call computes.\<close>

lemma pmm_micro_rest:
  assumes "pmm_pc_ok pc s" and "pmm_micro pc s = (x, s')"
  shows "pmm_mutex s' = pmm_mutex s"
    and "x = Inl pc' \<Longrightarrow> pmm_pc_ok pc' s' \<and> pmm_rest pc' s' = pmm_rest pc s"
    and "x = Inr r \<Longrightarrow> pmm_rest pc s = (r, s')"
proof -
  have "pmm_mutex s' = pmm_mutex s \<and> (\<forall>pc'. x = Inl pc' \<longrightarrow> pmm_pc_ok pc' s' \<and> pmm_rest pc' s' = pmm_rest pc s) \<and>
    (\<forall>r. x = Inr r \<longrightarrow> pmm_rest pc s = (r, s'))"
  proof (cases pc)
    case PTest
    then show ?thesis using assms by auto
  next
    case (PFeed i)
    then show ?thesis using assms rest_feed_step [of i s] rest_feed_end [of i s] by (auto split: if_splits)
  next
    case (PPage i j)
    then show ?thesis using assms
      by (auto simp: Let_def feed_pages.simps [of _ _ j] rest_first_def split: if_splits prod.splits)
  next
    case (PFirst i free)
    then show ?thesis using assms
      by (auto simp: Let_def rest_first_def bm_find_first_free.simps [of _ free] split: if_splits)
  next
    case PPop
    then show ?thesis using assms by (auto simp: rest_pop_def split: list.splits)
  next
    case (PFind addr i)
    have d: "i < length (page_bms s) \<Longrightarrow> drop i (page_bms s) = page_bms s ! i # drop (Suc i) (page_bms s)"
      by (simp add: Cons_nth_drop_Suc)
    show ?thesis using assms PFind d by (auto split: if_splits option.splits)
  next
    case (PClear addr i)
    then show ?thesis using assms by (auto simp: Let_def bm_free_def bm_ind_def)
  next
    case (PLow addr i)
    then show ?thesis using assms by (auto simp: Let_def)
  qed
  then show "pmm_mutex s' = pmm_mutex s"
    and "x = Inl pc' \<Longrightarrow> pmm_pc_ok pc' s' \<and> pmm_rest pc' s' = pmm_rest pc s"
    and "x = Inr r \<Longrightarrow> pmm_rest pc s = (r, s')" by auto
qed

text \<open>And from its entry it computes what the sequential operation returns.\<close>

lemma pmm_rest_alloc:
  assumes "pmm_mutex s = 0"
  shows "pmm_alloc s = (case pmm_rest PTest (s\<lparr>pmm_mutex := 1\<rparr>) of (a, s') \<Rightarrow> Ret (a, s'\<lparr>pmm_mutex := 0\<rparr>))"
  using assms by (auto simp: pmm_alloc_def rest_feed_def rest_pop_def split: list.splits prod.splits)

lemma pmm_rest_free:
  assumes "pmm_mutex s = 0"
  shows "pmm_free addr s = (case pmm_rest (PFind (page_align addr) 0) (s\<lparr>pmm_mutex := 1\<rparr>) of
    (a, s') \<Rightarrow> Ret (s'\<lparr>pmm_mutex := 0\<rparr>))"
  using assms by (auto simp: pmm_free_def Let_def split: option.splits)

subsection \<open>The processors\<close>

text \<open>
  A processor is outside, in the loop of the lock, inside, or in the loop of the unlock with the
  result of its call.  \<open>smp_held\<close> is what the code of a processor holds: the frames it was given and
  has not given back; it frees only these.  The log has the calls in the order of their unlocks.
\<close>

datatype smp_pc = Out | Locking pmm_call | Inside pmm_call pmm_pc | Unlocking pmm_call phys_addr_t

record smp =
  smp_pmm :: pmm
  smp_pc :: "nat \<Rightarrow> smp_pc"
  smp_held :: "nat \<Rightarrow> phys_addr_t set"
  smp_log :: "(nat \<times> pmm_call \<times> phys_addr_t) list"

definition smp_init :: "pmm \<Rightarrow> smp" where
  "smp_init d = \<lparr>smp_pmm = d, smp_pc = (\<lambda>_. Out), smp_held = (\<lambda>_. {}), smp_log = []\<rparr>"

definition smp_take :: "pmm_call \<Rightarrow> phys_addr_t \<Rightarrow> phys_addr_t set \<Rightarrow> phys_addr_t set" where
  "smp_take c r held = (case c of Alloc \<Rightarrow> if r = PHYS_ADDR_NULL then held else insert r held | Free _ \<Rightarrow> held)"

inductive smp_step :: "nat \<Rightarrow> smp \<Rightarrow> smp \<Rightarrow> bool" where
  smp_alloc: "smp_pc s i = Out \<Longrightarrow> smp_step i s (s\<lparr>smp_pc := (smp_pc s)(i := Locking Alloc)\<rparr>)"
| smp_free: "smp_pc s i = Out \<Longrightarrow> page_align a \<in> smp_held s i \<Longrightarrow>
    smp_step i s (s\<lparr>smp_pc := (smp_pc s)(i := Locking (Free a)),
      smp_held := (smp_held s)(i := smp_held s i - {page_align a})\<rparr>)"
| smp_lock: "smp_pc s i = Locking c \<Longrightarrow> cmpxchg (pmm_mutex (smp_pmm s)) 0 1 = (zf, b) \<Longrightarrow>
    smp_step i s (s\<lparr>smp_pmm := (smp_pmm s)\<lparr>pmm_mutex := b\<rparr>,
      smp_pc := (smp_pc s)(i := if zf then Inside c (pmm_entry c) else Locking c)\<rparr>)"
| smp_work: "smp_pc s i = Inside c m \<Longrightarrow> pmm_micro m (smp_pmm s) = (x, d) \<Longrightarrow>
    smp_step i s (s\<lparr>smp_pmm := d,
      smp_pc := (smp_pc s)(i := case x of Inl m' \<Rightarrow> Inside c m' | Inr r \<Rightarrow> Unlocking c r)\<rparr>)"
| smp_unlock: "smp_pc s i = Unlocking c r \<Longrightarrow> cmpxchg (pmm_mutex (smp_pmm s)) 1 0 = (True, b) \<Longrightarrow>
    smp_step i s (s\<lparr>smp_pmm := (smp_pmm s)\<lparr>pmm_mutex := b\<rparr>, smp_pc := (smp_pc s)(i := Out),
      smp_held := (smp_held s)(i := smp_take c r (smp_held s i)), smp_log := smp_log s @ [(i, c, r)]\<rparr>)"
| smp_unlock_retry: "smp_pc s i = Unlocking c r \<Longrightarrow> cmpxchg (pmm_mutex (smp_pmm s)) 1 0 = (False, b) \<Longrightarrow>
    smp_step i s (s\<lparr>smp_pmm := (smp_pmm s)\<lparr>pmm_mutex := b\<rparr>\<rparr>)"

inductive smp_reachable :: "pmm \<Rightarrow> smp \<Rightarrow> bool" for d where
  smp_start: "smp_reachable d (smp_init d)"
| smp_next: "smp_reachable d s \<Longrightarrow> smp_step i s t \<Longrightarrow> smp_reachable d t"

text \<open>The same calls one after the other, and their results.\<close>

fun run_calls :: "pmm_call list \<Rightarrow> pmm \<Rightarrow> (phys_addr_t list \<times> pmm) exec" where
  "run_calls [] s = Ret ([], s)"
| "run_calls (Alloc # cs) s =
     seq (pmm_alloc s) (\<lambda>(a, s). seq (run_calls cs s) (\<lambda>(rs, s). Ret (a # rs, s)))"
| "run_calls (Free a # cs) s =
     seq (pmm_free a s) (\<lambda>s. seq (run_calls cs s) (\<lambda>(rs, s). Ret (PHYS_ADDR_NULL # rs, s)))"

lemma run_calls_append:
  "run_calls cs s = Ret (rs, s1) \<Longrightarrow> run_calls cs' s1 = Ret (rs', s2) \<Longrightarrow> run_calls (cs @ cs') s = Ret (rs @ rs', s2)"
  by (induction cs s arbitrary: rs rule: run_calls.induct) (auto simp: seq_Ret_iff split: prod.splits)

lemma pmm_rest_Free_null: "fst (pmm_rest (PFind a i) s) = PHYS_ADDR_NULL"
  by (simp split: option.split)

lemma run_call_rest:
  assumes "pmm_mutex s = 0" and "pmm_rest (pmm_entry c) (s\<lparr>pmm_mutex := 1\<rparr>) = (r, s')"
  shows "run_calls [c] s = Ret ([r], s'\<lparr>pmm_mutex := 0\<rparr>)"
proof (cases c)
  case Alloc
  then show ?thesis using assms pmm_rest_alloc [OF assms(1)] by (simp add: pmm_entry_def del: pmm_rest.simps)
next
  case (Free a)
  then have "r = PHYS_ADDR_NULL" using assms(2) pmm_rest_Free_null [of "page_align a" 0 "s\<lparr>pmm_mutex := 1\<rparr>"]
    by (simp add: pmm_entry_def del: pmm_rest.simps)
  then show ?thesis using Free assms pmm_rest_free [OF assms(1), of a] by (simp add: pmm_entry_def del: pmm_rest.simps)
qed

subsection \<open>The invariant\<close>

text \<open>The frames of a processor: those it holds and the one it is giving back.\<close>

fun smp_pending :: "smp_pc \<Rightarrow> phys_addr_t set" where
  "smp_pending (Locking (Free a)) = {page_align a}"
| "smp_pending (Inside (Free a) m) = {page_align a}"
| "smp_pending (Unlocking (Free a) r) = {page_align a}"
| "smp_pending p = {}"

lemma smp_pending_call [simp]:
  "smp_pending (Inside c m) = smp_pending (Locking c)" "smp_pending (Unlocking c r) = smp_pending (Locking c)"
  by (cases c; simp)+

definition smp_own :: "smp \<Rightarrow> nat \<Rightarrow> phys_addr_t set" where
  "smp_own s i = smp_held s i \<union> smp_pending (smp_pc s i)"

definition smp_inside :: "smp \<Rightarrow> nat set" where
  "smp_inside s = {i. (\<exists>c m. smp_pc s i = Inside c m) \<or> (\<exists>c r. smp_pc s i = Unlocking c r)}"

text \<open>\<open>d0\<close> is the state at the last unlock; who is inside works on what its call makes of it.\<close>

definition smp_sync :: "pmm \<Rightarrow> smp \<Rightarrow> bool" where
  "smp_sync d0 s \<longleftrightarrow> smp_pmm s = d0 \<and> smp_inside s = {} \<or>
     pmm_mutex (smp_pmm s) = 1 \<and> (\<exists>i. smp_inside s = {i} \<and>
       (case smp_pc s i of
          Inside c m \<Rightarrow> pmm_pc_ok m (smp_pmm s) \<and> pmm_rest m (smp_pmm s) = pmm_rest (pmm_entry c) (d0\<lparr>pmm_mutex := 1\<rparr>)
        | Unlocking c r \<Rightarrow> pmm_rest (pmm_entry c) (d0\<lparr>pmm_mutex := 1\<rparr>) = (r, smp_pmm s)
        | _ \<Rightarrow> False))"

definition smp_share :: "pmm \<Rightarrow> pmm \<Rightarrow> (nat \<Rightarrow> phys_addr_t set) \<Rightarrow> bool" where
  "smp_share d d0 own \<longleftrightarrow> pmm_ok d0 \<and> pmm_managed d0 = pmm_managed d \<and>
     (\<forall>i j x. x \<in> own i \<longrightarrow> x \<in> own j \<longrightarrow> i = j) \<and>
     (\<forall>x. x \<in> pmm_avail d0 \<longleftrightarrow> x \<in> pmm_avail d \<and> (\<forall>i. x \<notin> own i)) \<and> (\<forall>i. own i \<subseteq> pmm_avail d)"

definition smp_inv :: "pmm \<Rightarrow> smp \<Rightarrow> bool" where
  "smp_inv d s \<longleftrightarrow> (\<exists>d0. run_calls (map (fst \<circ> snd) (smp_log s)) d = Ret (map (snd \<circ> snd) (smp_log s), d0) \<and>
     smp_sync d0 s \<and> smp_share d d0 (smp_own s))"

lemma smp_inside_iff: "i \<in> smp_inside s \<longleftrightarrow> (\<exists>c m. smp_pc s i = Inside c m) \<or> (\<exists>c r. smp_pc s i = Unlocking c r)"
  by (simp add: smp_inside_def)

lemma smp_inv_init: "pmm_ok d \<Longrightarrow> smp_inv d (smp_init d)"
  by (auto simp: smp_inv_def smp_init_def smp_sync_def smp_share_def smp_own_def smp_inside_def)

text \<open>A step that leaves a processor outside or in the loop of its lock.\<close>

lemma smp_sync_outside:
  assumes "smp_sync d0 s" and "i \<notin> smp_inside s" and "p = Out \<or> (\<exists>c. p = Locking c)"
    and "smp_pmm t = smp_pmm s" and "smp_pc t = (smp_pc s)(i := p)"
  shows "smp_sync d0 t"
proof -
  have in_t: "smp_inside t = smp_inside s" using assms(2,3,5) by (auto simp: smp_inside_def)
  then have "smp_pc t j = smp_pc s j" if "j \<in> smp_inside s" for j using that assms(2,5) by auto
  then show ?thesis using assms(1) unfolding smp_sync_def in_t assms(4) by fastforce
qed

lemma smp_share_take:
  assumes sh: "smp_share d d0 own" and r: "pmm_alloc d0 = Ret (r, d1)"
    and own: "own' = own(i := if r = PHYS_ADDR_NULL then own i else insert r (own i))"
  shows "smp_share d d1 own'"
proof -
  have ok: "pmm_ok d0" using sh by (simp add: smp_share_def)
  note a = pmm.alloc_Ret [OF ok r]
  show ?thesis
  proof (cases "r = 0")
    case True
    then have "own' = own" "pmm_avail d1 = pmm_avail d0" using own a by auto
    then show ?thesis using sh a(1,2) by (simp add: smp_share_def)
  next
    case False
    then have r0: "r \<in> pmm_avail d0" "r \<in> pmm_avail d" "\<And>j. r \<notin> own j" using a sh by (auto simp: smp_share_def)
    have own': "x \<in> own' j \<longleftrightarrow> x \<in> own j \<or> x = r \<and> j = i" for x j using own False by auto
    show ?thesis using sh a(1-3) r0 unfolding smp_share_def subset_iff own' by auto
  qed
qed

lemma smp_share_give:
  assumes sh: "smp_share d d0 own" and ok: "pmm_ok d" and a: "page_align a \<in> own i"
    and r: "pmm_free a d0 = Ret d1" and own: "own' = own(i := own i - {page_align a})"
  shows "smp_share d d1 own'"
proof -
  have av: "page_align a \<in> pmm_avail d" "page_align a \<notin> pmm_avail d0" "pmm_ok d0"
    using sh a by (auto simp: smp_share_def)
  have m: "page_align a \<in> pmm_managed d0" using sh av(1) pmm_avail_managed [OF ok] by (auto simp: smp_share_def)
  obtain d' where "pmm_free a d0 = Ret d'" "pmm_ok d'" "pmm_managed d' = pmm_managed d0"
    "pmm_avail d' = insert (page_align a) (pmm_avail d0)"
    using pmm.free_law [OF av(3) m av(2)] by (auto simp: pmm_free_align)
  then have f: "pmm_ok d1" "pmm_managed d1 = pmm_managed d0" "pmm_avail d1 = insert (page_align a) (pmm_avail d0)"
    using r by simp_all
  have own': "x \<in> own' j \<longleftrightarrow> x \<in> own j \<and> x \<noteq> page_align a" for x j
    using sh a own by (auto simp: smp_share_def)
  show ?thesis using sh av(1) f unfolding smp_share_def subset_iff own' by auto
qed

lemma smp_inv_mutex:
  assumes "smp_inv d s"
  shows "(if smp_inside s = {} then pmm_mutex (smp_pmm s) = 0 else pmm_mutex (smp_pmm s) = 1)"
  using assms by (auto simp: smp_inv_def smp_sync_def smp_share_def pmm_ok_def)

text \<open>What a processor gives back it no longer holds.\<close>

definition smp_apart :: "smp \<Rightarrow> bool" where
  "smp_apart s \<longleftrightarrow> (\<forall>i. smp_held s i \<inter> smp_pending (smp_pc s i) = {})"

lemma smp_step_apart: "smp_step i s t \<Longrightarrow> smp_apart s \<Longrightarrow> smp_apart t"
proof (induction rule: smp_step.induct)
  case (smp_work s i c m x d)
  have "smp_pending (case x of Inl m' \<Rightarrow> Inside c m' | Inr r \<Rightarrow> Unlocking c r) = smp_pending (smp_pc s i)"
    using smp_work(1) by (cases x) simp_all
  then show ?case using smp_work(3) by (simp add: smp_apart_def)
next
  case (smp_lock s i c zf b)
  have "smp_held s i \<inter> smp_pending (Locking c) = {}" using smp_lock(1,3) unfolding smp_apart_def by metis
  then show ?case using smp_lock(3) by (simp add: smp_apart_def)
qed (auto simp: smp_apart_def)

text \<open>All steps but the end of an unlock keep the log, the owners and the state they are relative to.\<close>

lemma smp_inv_keep:
  assumes inv: "smp_inv d s" and log: "smp_log t = smp_log s" and own: "smp_own t = smp_own s"
    and sync: "\<And>d0. smp_sync d0 s \<Longrightarrow> smp_sync d0 t"
  shows "smp_inv d t"
  using inv sync unfolding smp_inv_def log own by blast

lemma smp_lock_sync:
  assumes inv: "smp_inv d s" and pc: "smp_pc s i = Locking c" and set_eq: "cmpxchg (pmm_mutex (smp_pmm s)) 0 1 = (zf, b)"
    and sync: "smp_sync d0 s"
  shows "smp_sync d0 (s\<lparr>smp_pmm := (smp_pmm s)\<lparr>pmm_mutex := b\<rparr>,
      smp_pc := (smp_pc s)(i := if zf then Inside c (pmm_entry c) else Locking c)\<rparr>)"
    (is "smp_sync d0 ?t")
proof (cases "smp_inside s = {}")
  case True
  then have "smp_pmm s = d0" "pmm_mutex (smp_pmm s) = 0" using sync smp_inv_mutex [OF inv] by (auto simp: smp_sync_def)
  then have "zf" "b = 1" "smp_pmm s = d0" using set_eq by (auto simp: cmpxchg_def)
  moreover from this have "smp_inside ?t = {i}" using True by (auto simp: smp_inside_def)
  moreover have "pmm_pc_ok (pmm_entry c) x" for x by (simp add: pmm_entry_def split: pmm_call.split)
  ultimately show ?thesis by (simp add: smp_sync_def)
next
  case False
  then have "\<not> zf" "b = 1" "pmm_mutex (smp_pmm s) = 1"
    using set_eq smp_inv_mutex [OF inv] by (auto simp: cmpxchg_def)
  moreover have "i \<notin> smp_inside s" using pc by (simp add: smp_inside_iff)
  ultimately show ?thesis by (intro smp_sync_outside [OF sync]) auto
qed

lemma smp_work_sync:
  assumes pc: "smp_pc s i = Inside c m" and mi: "pmm_micro m (smp_pmm s) = (x, d1)" and sync: "smp_sync d0 s"
  shows "smp_sync d0 (s\<lparr>smp_pmm := d1,
      smp_pc := (smp_pc s)(i := case x of Inl m' \<Rightarrow> Inside c m' | Inr r \<Rightarrow> Unlocking c r)\<rparr>)" (is "smp_sync d0 ?t")
proof -
  have "i \<in> smp_inside s" using pc by (simp add: smp_inside_iff)
  then have ins: "smp_inside s = {i}" "pmm_mutex (smp_pmm s) = 1" "pmm_pc_ok m (smp_pmm s)"
    "pmm_rest m (smp_pmm s) = pmm_rest (pmm_entry c) (d0\<lparr>pmm_mutex := 1\<rparr>)"
    using sync pc by (auto simp: smp_sync_def)
  note rest = pmm_micro_rest [OF ins(3) mi]
  have "smp_inside ?t = {i}" using ins(1) by (auto simp: smp_inside_def set_eq_iff split: sum.splits)
  then show ?thesis using rest ins(2,4) by (cases x) (auto simp: smp_sync_def)
qed

lemma smp_unlock_inv:
  assumes ok: "pmm_ok d" and inv: "smp_inv d s" and ap: "smp_apart s" and pc: "smp_pc s i = Unlocking c r"
  shows "smp_inv d (s\<lparr>smp_pmm := (smp_pmm s)\<lparr>pmm_mutex := 0\<rparr>, smp_pc := (smp_pc s)(i := Out),
      smp_held := (smp_held s)(i := smp_take c r (smp_held s i)), smp_log := smp_log s @ [(i, c, r)]\<rparr>)"
    (is "smp_inv d ?t")
proof -
  obtain d0 where d0: "run_calls (map (fst \<circ> snd) (smp_log s)) d = Ret (map (snd \<circ> snd) (smp_log s), d0)"
    "smp_sync d0 s" "smp_share d d0 (smp_own s)" using inv unfolding smp_inv_def by blast
  have "i \<in> smp_inside s" using pc by (simp add: smp_inside_iff)
  then have ins: "smp_inside s = {i}" "pmm_rest (pmm_entry c) (d0\<lparr>pmm_mutex := 1\<rparr>) = (r, smp_pmm s)"
    using d0(2) pc by (auto simp: smp_sync_def)
  let ?d1 = "(smp_pmm s)\<lparr>pmm_mutex := 0\<rparr>"
  have "pmm_mutex d0 = 0" using d0(3) by (simp add: smp_share_def pmm_ok_def)
  from run_call_rest [OF this ins(2)] have run: "run_calls [c] d0 = Ret ([r], ?d1)" .
  have "smp_inside ?t = {}" using ins(1) by (auto simp: smp_inside_def set_eq_iff)
  then have "smp_sync ?d1 ?t" by (simp add: smp_sync_def)
  moreover have "smp_share d ?d1 (smp_own ?t)"
  proof (cases c)
    case Alloc
    have "smp_own ?t = (smp_own s)(i := if r = PHYS_ADDR_NULL then smp_own s i else insert r (smp_own s i))"
      using pc Alloc by (auto simp: smp_own_def smp_take_def fun_eq_iff)
    then show ?thesis using Alloc run by (intro smp_share_take [OF d0(3)]) (auto simp: seq_Ret_iff)
  next
    case (Free a)
    have "smp_pending (smp_pc s i) = {page_align a}" using pc Free by simp
    then have own: "page_align a \<in> smp_own s i" "page_align a \<notin> smp_held s i"
      using ap unfolding smp_own_def smp_apart_def by blast+
    have "smp_own ?t = (smp_own s)(i := smp_own s i - {page_align a})"
      using pc Free own(2) by (auto simp: smp_own_def smp_take_def fun_eq_iff)
    with own(1) show ?thesis using Free run by (intro smp_share_give [OF d0(3) ok]) (auto simp: seq_Ret_iff)
  qed
  moreover have "run_calls (map (fst \<circ> snd) (smp_log ?t)) d = Ret (map (snd \<circ> snd) (smp_log ?t), ?d1)"
    using run_calls_append [OF d0(1) run] by simp
  ultimately show ?thesis unfolding smp_inv_def by blast
qed

lemma smp_step_inv: "smp_step i s t \<Longrightarrow> pmm_ok d \<Longrightarrow> smp_inv d s \<Longrightarrow> smp_apart s \<Longrightarrow> smp_inv d t"
proof (induction rule: smp_step.induct)
  case (smp_alloc s i)
  let ?t = "s\<lparr>smp_pc := (smp_pc s)(i := Locking Alloc)\<rparr>"
  have "i \<notin> smp_inside s" using smp_alloc(1) by (simp add: smp_inside_iff)
  then have "smp_sync d0 ?t" if "smp_sync d0 s" for d0 by (rule smp_sync_outside [OF that]) auto
  moreover have "smp_own ?t = smp_own s" using smp_alloc(1) by (auto simp: smp_own_def fun_eq_iff)
  ultimately show ?case by (intro smp_inv_keep [OF smp_alloc(3)]) simp_all
next
  case (smp_free s i a)
  let ?t = "s\<lparr>smp_pc := (smp_pc s)(i := Locking (Free a)), smp_held := (smp_held s)(i := smp_held s i - {page_align a})\<rparr>"
  have "i \<notin> smp_inside s" using smp_free(1) by (simp add: smp_inside_iff)
  then have "smp_sync d0 ?t" if "smp_sync d0 s" for d0 by (rule smp_sync_outside [OF that]) auto
  moreover have "smp_own ?t = smp_own s" using smp_free(1,2) by (auto simp: smp_own_def fun_eq_iff)
  ultimately show ?case by (intro smp_inv_keep [OF smp_free(4)]) simp_all
next
  case (smp_lock s i c zf b)
  have "smp_own (s\<lparr>smp_pmm := (smp_pmm s)\<lparr>pmm_mutex := b\<rparr>,
      smp_pc := (smp_pc s)(i := if zf then Inside c (pmm_entry c) else Locking c)\<rparr>) = smp_own s"
    using smp_lock(1) by (simp add: smp_own_def fun_eq_iff)
  then show ?case
    by (intro smp_inv_keep [OF smp_lock(4)] smp_lock_sync [OF smp_lock(4,1,2)]) simp_all
next
  case (smp_work s i c m x d1)
  have "smp_own (s\<lparr>smp_pmm := d1, smp_pc := (smp_pc s)(i := case x of Inl m' \<Rightarrow> Inside c m' | Inr r \<Rightarrow> Unlocking c r)\<rparr>) =
      smp_own s" using smp_work(1) by (auto simp: smp_own_def fun_eq_iff split: sum.splits)
  then show ?case
    by (intro smp_inv_keep [OF smp_work(4)] smp_work_sync [OF smp_work(1,2)]) simp_all
next
  case (smp_unlock s i c r b)
  then have "b = 0" by (auto simp: cmpxchg_def split: if_splits)
  then show ?case using smp_unlock_inv [OF smp_unlock(3-5,1)] by simp
next
  case (smp_unlock_retry s i c r b)
  then have "b = pmm_mutex (smp_pmm s)" by (auto simp: cmpxchg_def split: if_splits)
  then have "s\<lparr>smp_pmm := (smp_pmm s)\<lparr>pmm_mutex := b\<rparr>\<rparr> = s" by simp
  then show ?case using smp_unlock_retry(4) by simp
qed

lemma smp_reachable_inv: "smp_reachable d s \<Longrightarrow> pmm_ok d \<Longrightarrow> smp_inv d s \<and> smp_apart s"
proof (induction rule: smp_reachable.induct)
  case smp_start
  then show ?case using smp_inv_init by (simp add: smp_apart_def smp_init_def)
next
  case (smp_next s i t)
  then show ?case using smp_step_inv smp_step_apart by blast
qed

subsection \<open>A call ends\<close>

text \<open>From inside, a processor reaches the end of its call by its own steps.\<close>

inductive pmm_halts :: "pmm_pc \<Rightarrow> pmm \<Rightarrow> bool" where
  halts_now: "pmm_micro m s = (Inr r, s') \<Longrightarrow> pmm_halts m s"
| halts_later: "pmm_micro m s = (Inl m', s') \<Longrightarrow> pmm_halts m' s' \<Longrightarrow> pmm_halts m s"

lemma halts_pop: "pmm_halts PPop s"
  by (cases "page_stk s") (auto intro: halts_now)

text \<open>The loops: each round comes nearer to the end of its bitmap, or of the list of them.\<close>

lemma halts_first:
  assumes "\<And>t. length (page_bms t) = length (page_bms s) \<Longrightarrow> pmm_halts (PFeed (Suc i)) t"
  shows "pmm_halts (PFirst i free) s"
proof (induction "bm_npage (page_bms s ! i) - free" arbitrary: free rule: less_induct)
  case less
  show ?case
  proof (cases "free < bm_npage (page_bms s ! i) \<and> bm_test (page_bms s ! i) free")
    case True
    then have "pmm_halts (PFirst i (Suc free)) s" by (intro less) (simp add: diff_less_mono2)
    then show ?thesis using True by (intro halts_later [of "PFirst i free" s]) (auto simp: Let_def)
  next
    case False
    then have "pmm_micro (PFirst i free) s =
        (Inl (PFeed (Suc i)), s\<lparr>page_bms := (page_bms s)[i := (page_bms s ! i)\<lparr>bm_first_free := free\<rparr>]\<rparr>)" by auto
    then show ?thesis by (rule halts_later [OF _ assms]) simp
  qed
qed

lemma halts_page:
  "i < length (page_bms s) \<Longrightarrow> (\<And>t. length (page_bms t) = length (page_bms s) \<Longrightarrow> pmm_halts (PFeed (Suc i)) t) \<Longrightarrow>
   pmm_halts (PPage i j) s"
proof (induction "bm_npage (page_bms s ! i) - j" arbitrary: j s rule: less_induct)
  case less
  obtain x t where m: "pmm_micro (PPage i j) s = (x, t)" by fastforce
  have len: "length (page_bms t) = length (page_bms s)" using m by (auto simp: Let_def split: if_splits prod.splits)
  have next_halts: "pmm_halts (PFeed (Suc i)) t'" if "length (page_bms t') = length (page_bms t)" for t'
    using less.prems(2) that len by simp
  have "(\<exists>free. x = Inl (PFirst i free)) \<or>
      x = Inl (PPage i (Suc j)) \<and> j < bm_npage (page_bms s ! i) \<and> bm_npage (page_bms t ! i) = bm_npage (page_bms s ! i)"
    using m less.prems(1) by (auto simp: Let_def split: if_splits)
  then show ?case
  proof
    assume "\<exists>free. x = Inl (PFirst i free)"
    then show ?thesis using m halts_first [OF next_halts] by (auto intro: halts_later)
  next
    assume n: "x = Inl (PPage i (Suc j)) \<and> j < bm_npage (page_bms s ! i) \<and> bm_npage (page_bms t ! i) = bm_npage (page_bms s ! i)"
    then have "bm_npage (page_bms t ! i) - Suc j < bm_npage (page_bms s ! i) - j" by linarith
    then have "pmm_halts (PPage i (Suc j)) t" using less.hyps [of t "Suc j"] next_halts less.prems(1) len by simp
    then show ?thesis using m n by (auto intro: halts_later)
  qed
qed

lemma halts_feed: "pmm_halts (PFeed i) s"
proof (induction "length (page_bms s) - i" arbitrary: i s rule: less_induct)
  case less
  show ?case
  proof (cases "i < length (page_bms s) \<and> length (page_stk s) < PAGE_STK_CAP")
    case True
    then have "pmm_halts (PPage i (bm_first_free (page_bms s ! i))) s" using less by (intro halts_page) auto
    then show ?thesis using True by (auto intro: halts_later [of "PFeed i" s])
  next
    case False
    then show ?thesis using halts_pop by (auto intro: halts_later [of "PFeed i" s])
  qed
qed

lemma halts_low: "pmm_halts (PLow a i) s"
  by (rule halts_now) (simp add: Let_def)

lemma halts_clear: "pmm_halts (PClear a i) s"
  by (rule halts_later [OF _ halts_low]) (simp add: Let_def)

lemma halts_find: "pmm_halts (PFind a i) s"
proof (induction "length (page_bms s) - i" arbitrary: i rule: less_induct)
  case less
  show ?case
  proof (cases "i < length (page_bms s)")
    case True
    then have "pmm_halts (if bm_covers (page_bms s ! i) a then PClear a i else PFind a (Suc i)) s"
      using less halts_clear by simp
    then show ?thesis using True by (auto intro: halts_later [of "PFind a i" s])
  next
    case False
    then show ?thesis by (auto intro: halts_now)
  qed
qed

lemma pmm_halts_all:
  assumes "pmm_pc_ok m s"
  shows "pmm_halts m s"
proof (cases m)
  case PTest
  have "pmm_halts (if page_stk s = [] then PFeed 0 else PPop) s" using halts_feed halts_pop by simp
  then show ?thesis unfolding PTest by (rule halts_later [rotated]) simp
qed (use assms halts_feed halts_pop halts_low halts_clear halts_find in \<open>auto intro: halts_page halts_first\<close>)

lemma pmm_halts_steps:
  "pmm_halts m d \<Longrightarrow> smp_pc s i = Inside c m \<Longrightarrow> smp_pmm s = d \<Longrightarrow>
   \<exists>t r. (smp_step i)\<^sup>*\<^sup>* s t \<and> smp_pc t = (smp_pc s)(i := Unlocking c r) \<and> smp_log t = smp_log s"
proof (induction arbitrary: s rule: pmm_halts.induct)
  case (halts_now m d r d')
  then have "smp_step i s (s\<lparr>smp_pmm := d', smp_pc := (smp_pc s)(i := Unlocking c r)\<rparr>)"
    using smp_work [of s i c m "Inr r" d'] by simp
  then show ?case by (intro exI conjI, rule r_into_rtranclp) auto
next
  case (halts_later m d m' d')
  let ?s = "s\<lparr>smp_pmm := d', smp_pc := (smp_pc s)(i := Inside c m')\<rparr>"
  have st: "smp_step i s ?s" using smp_work [OF halts_later(4), of "Inl m'" d'] halts_later(1,5) by simp
  have "\<exists>t r. (smp_step i)\<^sup>*\<^sup>* ?s t \<and> smp_pc t = (smp_pc ?s)(i := Unlocking c r) \<and> smp_log t = smp_log ?s"
    by (rule halts_later(3)) simp_all
  moreover have "(smp_pc ?s)(i := Unlocking c r) = (smp_pc s)(i := Unlocking c r)" for r by simp
  ultimately obtain t r where t: "(smp_step i)\<^sup>*\<^sup>* ?s t" "smp_pc t = (smp_pc s)(i := Unlocking c r)"
    "smp_log t = smp_log ?s" by metis
  from converse_rtranclp_into_rtranclp [of "smp_step i", OF st t(1)] t(2,3) show ?case
    by (intro exI [of _ t] exI [of _ r] conjI) simp_all
qed


lemma smp_inside_completes:
  assumes ok: "pmm_ok d" and reach: "smp_reachable d s" and pc: "smp_pc s i = Inside c m"
  shows "\<exists>t r. (smp_step i)\<^sup>*\<^sup>* s t \<and> smp_reachable d t \<and> smp_pc t = (smp_pc s)(i := Out) \<and> pmm_mutex (smp_pmm t) = 0 \<and>
    smp_log t = smp_log s @ [(i, c, r)]"
proof -
  have inv: "smp_inv d s" using smp_reachable_inv [OF reach ok] by simp
  have "i \<in> smp_inside s" using pc by (simp add: smp_inside_iff)
  then have "pmm_pc_ok m (smp_pmm s)" using inv pc by (auto simp: smp_inv_def smp_sync_def)
  from pmm_halts_steps [OF pmm_halts_all [OF this] pc refl] obtain t r where
    t: "(smp_step i)\<^sup>*\<^sup>* s t" "smp_pc t = (smp_pc s)(i := Unlocking c r)" "smp_log t = smp_log s" by blast
  have rt: "smp_reachable d t" using t(1) reach by (induction) (auto intro: smp_next)
  then have "smp_inv d t" using smp_reachable_inv ok by blast
  moreover have "i \<in> smp_inside t" using t(2) by (simp add: smp_inside_iff)
  then have "smp_inside t \<noteq> {}" by blast
  ultimately have "pmm_mutex (smp_pmm t) = 1" using smp_inv_mutex by metis
  then have st: "smp_step i t (t\<lparr>smp_pmm := (smp_pmm t)\<lparr>pmm_mutex := 0\<rparr>, smp_pc := (smp_pc t)(i := Out),
      smp_held := (smp_held t)(i := smp_take c r (smp_held t i)), smp_log := smp_log t @ [(i, c, r)]\<rparr>)" (is "smp_step i t ?u")
    using t(2) by (intro smp_unlock) (simp_all add: cmpxchg_def)
  have "smp_pc ?u = (smp_pc s)(i := Out)" "pmm_mutex (smp_pmm ?u) = 0" "smp_log ?u = smp_log s @ [(i, c, r)]"
    by (simp_all add: t(2,3))
  with rtranclp.rtrancl_into_rtrancl [OF t(1) st] smp_next [OF rt st] show ?thesis by blast
qed

subsection \<open>Properties\<close>

text \<open>
  C13: on any number of processors whose calls interleave, no frame is held by two of them: in every
  reachable state the frames of different processors are different, and while the mutex is free the
  frames they have and the frames that are available are disjoint and together all frames there
  were at the start.
\<close>
theorem smp_frames_exclusive:
  assumes "layout_ok ents" and "smp_reachable (pmm_init mem ents) s"
  shows "(\<forall>i j. i \<noteq> j \<longrightarrow> smp_own s i \<inter> smp_own s j = {}) \<and>
    (pmm_mutex (smp_pmm s) = 0 \<longrightarrow> pmm_ok (smp_pmm s) \<and> (\<forall>i. smp_own s i \<inter> pmm_avail (smp_pmm s) = {}) \<and>
      (\<Union>i. smp_own s i) \<union> pmm_avail (smp_pmm s) = clears (map (bm_init mem) ents))"
proof -
  note init = pmm_init_spec [OF assms(1), of mem]
  have inv: "smp_inv (pmm_init mem ents) s" using smp_reachable_inv [OF assms(2)] init by simp
  obtain d0 where sync: "smp_sync d0 s" and sh: "smp_share (pmm_init mem ents) d0 (smp_own s)"
    using inv unfolding smp_inv_def by blast
  have free: "smp_pmm s = d0" if "pmm_mutex (smp_pmm s) = 0" using sync that by (auto simp: smp_sync_def)
  have "smp_own s i \<inter> smp_own s j = {}" if "i \<noteq> j" for i j using sh that unfolding smp_share_def by blast
  moreover have "pmm_ok d0" "smp_own s i \<inter> pmm_avail d0 = {}" for i using sh unfolding smp_share_def by blast+
  moreover have "(\<Union>i. smp_own s i) \<union> pmm_avail d0 = pmm_avail (pmm_init mem ents)"
    using sh unfolding smp_share_def by auto
  ultimately show ?thesis using free init by (cases "pmm_mutex (smp_pmm s) = 0") simp_all
qed

text \<open>
  C12: the calls are atomic: while the mutex is free, the bitmaps and the stack are those of a
  sequential run of the finished calls in the order of their unlocks, and every call has returned
  what it returns in that run.
\<close>
theorem smp_linearizable:
  assumes "layout_ok ents" and "smp_reachable (pmm_init mem ents) s" and "pmm_mutex (smp_pmm s) = 0"
  shows "run_calls (map (fst \<circ> snd) (smp_log s)) (pmm_init mem ents) = Ret (map (snd \<circ> snd) (smp_log s), smp_pmm s)"
proof -
  have "smp_inv (pmm_init mem ents) s" using smp_reachable_inv [OF assms(2)] pmm_init_spec [OF assms(1)] by simp
  then show ?thesis using assms(3) by (auto simp: smp_inv_def smp_sync_def)
qed

text \<open>
  C20: whoever has the lock gives it back: from every reachable state a processor inside comes out by
  its own steps alone, with its call finished, the mutex free and the others where they were.
\<close>
theorem smp_call_completes:
  assumes "layout_ok ents" and "smp_reachable (pmm_init mem ents) s" and "smp_pc s i = Inside c m"
  shows "\<exists>t r. (smp_step i)\<^sup>*\<^sup>* s t \<and> smp_pc t = (smp_pc s)(i := Out) \<and> pmm_mutex (smp_pmm t) = 0 \<and>
    smp_log t = smp_log s @ [(i, c, r)]"
  using smp_inside_completes [OF _ assms(2,3)] pmm_init_spec [OF assms(1)] by blast

text \<open>Two processors at the lock: the first is in, the second has tried and failed.\<close>

definition demo_smp :: smp where
  "demo_smp = (let d = pmm_init (\<lambda>_. 0) demo_layout in
     \<lparr>smp_pmm = d\<lparr>pmm_mutex := 1\<rparr>, smp_pc = (\<lambda>_. Out)(0 := Inside Alloc PTest, 1 := Locking Alloc),
      smp_held = (\<lambda>_. {}), smp_log = []\<rparr>)"

lemma demo_smp_reachable: "smp_reachable (pmm_init (\<lambda>_. 0) demo_layout) demo_smp"
proof -
  let ?d = "pmm_init (\<lambda>_. 0) demo_layout"
  let ?R = "smp_reachable ?d"
  have m: "pmm_mutex ?d = 0" by (simp add: pmm_init_def split: prod.split)
  let ?s1 = "(smp_init ?d)\<lparr>smp_pc := (smp_pc (smp_init ?d))(0 := Locking Alloc)\<rparr>"
  let ?s2 = "?s1\<lparr>smp_pc := (smp_pc ?s1)(1 := Locking Alloc)\<rparr>"
  let ?s3 = "?s2\<lparr>smp_pmm := (smp_pmm ?s2)\<lparr>pmm_mutex := 1\<rparr>, smp_pc := (smp_pc ?s2)(0 := Inside Alloc PTest)\<rparr>"
  have "?R ?s1" by (rule smp_next [OF smp_start smp_alloc]) (simp add: smp_init_def)
  then have "?R ?s2" by (rule smp_next [OF _ smp_alloc]) (simp add: smp_init_def)
  moreover have "smp_step 0 ?s2 ?s3"
    using smp_lock [of ?s2 0 Alloc True 1] m by (simp add: smp_init_def cmpxchg_def pmm_entry_def)
  ultimately have r3: "?R ?s3" by (rule smp_next)
  let ?s4 = "?s3\<lparr>smp_pmm := (smp_pmm ?s3)\<lparr>pmm_mutex := 1\<rparr>, smp_pc := (smp_pc ?s3)(1 := Locking Alloc)\<rparr>"
  have "smp_step 1 ?s3 ?s4" using smp_lock [of ?s3 1 Alloc False 1] by (simp add: smp_init_def cmpxchg_def)
  with r3 have "?R ?s4" by (rule smp_next)
  moreover have "?s4 = demo_smp" by (simp add: demo_smp_def smp_init_def fun_upd_twist)
  ultimately show ?thesis by simp
qed

theorem smp_call_completes_witness:
  "\<exists>t r. (smp_step 0)\<^sup>*\<^sup>* demo_smp t \<and> smp_pc t 0 = Out \<and> smp_pc t 1 = Locking Alloc \<and> smp_log t = [(0, Alloc, r)]"
proof -
  have "smp_pc demo_smp 0 = Inside Alloc PTest" by (simp add: demo_smp_def Let_def)
  from smp_call_completes [OF demo_layout_ok demo_smp_reachable this] show ?thesis
    by (auto simp: demo_smp_def Let_def)
qed

text \<open>After the first call; the second processor still waits.\<close>

lemma demo_smp_done:
  obtains t r where "smp_reachable (pmm_init (\<lambda>_. 0) demo_layout) t" "pmm_mutex (smp_pmm t) = 0" "smp_log t = [(0, Alloc, r)]"
proof -
  have pc: "smp_pc demo_smp 0 = Inside Alloc PTest" and log: "smp_log demo_smp = []" by (simp_all add: demo_smp_def Let_def)
  have "pmm_ok (pmm_init (\<lambda>_. 0) demo_layout)" using pmm_init_spec [OF demo_layout_ok] by simp
  from smp_inside_completes [OF this demo_smp_reachable pc] show ?thesis using that log by auto
qed

theorem smp_linearizable_witness:
  "\<exists>(t :: smp) r. run_calls [Alloc] (pmm_init (\<lambda>_. 0) demo_layout) = Ret ([r], smp_pmm t) \<and> smp_log t = [(0, Alloc, r)]"
proof -
  obtain t r where t: "smp_reachable (pmm_init (\<lambda>_. 0) demo_layout) t" "pmm_mutex (smp_pmm t) = 0" "smp_log t = [(0, Alloc, r)]"
    by (rule demo_smp_done)
  then have "run_calls [Alloc] (pmm_init (\<lambda>_. 0) demo_layout) = Ret ([r], smp_pmm t)"
    using smp_linearizable [OF demo_layout_ok t(1,2)] by (simp del: run_calls.simps)
  with t(3) show ?thesis by (intro exI [of _ t] exI [of _ r] conjI)
qed

theorem smp_frames_exclusive_witness:
  "\<exists>(t :: smp) r. smp_log t = [(0, Alloc, r)] \<and> smp_own t 0 \<inter> smp_own t 1 = {} \<and> smp_own t 0 \<inter> pmm_avail (smp_pmm t) = {}"
proof -
  obtain t r where t: "smp_reachable (pmm_init (\<lambda>_. 0) demo_layout) t" "pmm_mutex (smp_pmm t) = 0" "smp_log t = [(0, Alloc, r)]"
    by (rule demo_smp_done)
  then have "smp_own t 0 \<inter> smp_own t 1 = {}" "smp_own t 0 \<inter> pmm_avail (smp_pmm t) = {}"
    using smp_frames_exclusive [OF demo_layout_ok t(1)] by simp_all
  with t(3) show ?thesis by blast
qed

end
