(* ===== verification/Session.thy ===== *)
theory Session
  imports Mount
begin

section \<open>Sessions of file operations (vfs.c, fat.c)\<close>

text \<open>
  What the file operations promise a client as a whole: a table of open files, each with a position
  and a size.  \<open>file_step\<close> is this table and the results each operation may have, and
  every session on the mounted FAT drives is a run of it.
\<close>

subsection \<open>The specification\<close>

datatype file_op = Open int "u8 list" u8 | Close vfs_file | Tell vfs_file | Seek vfs_file vfs_whence u64
  | Read vfs_file "u8 list" u64

datatype file_res = Opened "vfs_file option" | Code int | Told int "u64 option" | Bytes int "u8 list"

type_synonym file_table = "vfs_file \<Rightarrow> (int \<times> int) option"

text \<open>Where a seek ends: backwards from the position it goes to the end of the file.\<close>

definition seek_spec :: "vfs_whence \<Rightarrow> int \<Rightarrow> int \<Rightarrow> int \<Rightarrow> int" where
  "seek_spec whence p sz off = (case whence of
     VW_START \<Rightarrow> clamp sz off
   | VW_CUR \<Rightarrow> if 0 \<le> off then clamp sz (p + off) else if p = 0 then 0 else sz
   | VW_END \<Rightarrow> clamp sz (sz + off))"

inductive file_step :: "file_table \<Rightarrow> file_op \<Rightarrow> file_res \<Rightarrow> file_table \<Rightarrow> bool" where
  open_no: "file_step T (Open d path flags) (Opened None) T"
| open_new: "T f = None \<Longrightarrow> 0 \<le> sz \<Longrightarrow> sz < 2 ^ 32 \<Longrightarrow>
    file_step T (Open d path flags) (Opened (Some f)) (T(f := Some (0, sz)))"
| close_open: "T f \<noteq> None \<Longrightarrow> file_step T (Close f) (Code 0) (T(f := None))"
| close_no: "T f = None \<Longrightarrow> file_step T (Close f) (Code 1) T"
| tell_open: "T f = Some (uint v, sz) \<Longrightarrow> file_step T (Tell f) (Told 0 (Some v)) T"
| tell_no: "T f = None \<Longrightarrow> file_step T (Tell f) (Told 1 None) T"
| seek_open: "T f = Some (p, sz) \<Longrightarrow>
    file_step T (Seek f whence off) (Code 0) (T(f := Some (seek_spec whence p sz (sint off), sz)))"
| seek_no: "T f = None \<Longrightarrow> file_step T (Seek f whence off) (Code 1) T"
| read_open: "T f = Some (p, sz) \<Longrightarrow> p < sz \<Longrightarrow> c = 0 \<or> c = 1 \<Longrightarrow> file_step T (Read f dst n) (Bytes c out) T"
| read_end: "T f = Some (p, sz) \<Longrightarrow> p = sz \<Longrightarrow> file_step T (Read f dst n) (Bytes 1 dst) T"
| read_no: "T f = None \<Longrightarrow> file_step T (Read f dst n) (Bytes 1 dst) T"

inductive file_steps :: "file_table \<Rightarrow> file_op list \<Rightarrow> file_res list \<Rightarrow> file_table \<Rightarrow> bool" where
  steps_nil: "file_steps T [] [] T"
| steps_cons: "file_step T x r T1 \<Longrightarrow> file_steps T1 xs rs T2 \<Longrightarrow> file_steps T (x # xs) (r # rs) T2"

subsection \<open>The code\<close>

fun vfs_do :: "file_op \<Rightarrow> ('fd, 'w) drive list \<Rightarrow> 'w \<Rightarrow> (file_res \<times> ('fd, 'w) drive list \<times> 'w) exec" where
  "vfs_do (Open stk_id path flags) drives w =
     seq (vfs_open stk_id path flags drives w) (\<lambda>(f, drives, w). Ret (Opened f, drives, w))"
| "vfs_do (Close f) drives w = seq (vfs_close f drives) (\<lambda>(rc, drives). Ret (Code rc, drives, w))"
| "vfs_do (Tell f) drives w = seq (vfs_abs_tell f drives) (\<lambda>(rc, pos). Ret (Told rc pos, drives, w))"
| "vfs_do (Seek f whence off) drives w =
     seq (vfs_seek f whence off drives) (\<lambda>(rc, drives). Ret (Code rc, drives, w))"
| "vfs_do (Read f dst n) drives w =
     seq (vfs_rd f dst n drives w) (\<lambda>(rc, out, drives, w). Ret (Bytes rc out, drives, w))"

fun vfs_session :: "file_op list \<Rightarrow> ('fd, 'w) drive list \<Rightarrow> 'w \<Rightarrow> (file_res list \<times> ('fd, 'w) drive list \<times> 'w) exec" where
  "vfs_session [] drives w = Ret ([], drives, w)"
| "vfs_session (x # xs) drives w =
     seq (vfs_do x drives w) (\<lambda>(r, drives, w).
     seq (vfs_session xs drives w) (\<lambda>(rs, drives, w). Ret (r # rs, drives, w)))"

text \<open>The table of drives with FAT drivers in its mounted slots.\<close>

definition fat_slot :: "'w crd_fn \<Rightarrow> fat_dirent_info \<Rightarrow> (fat_driver, 'w) drive \<Rightarrow> bool" where
  "fat_slot crd stk_info dr \<longleftrightarrow> (is_mounted dr \<longrightarrow> fat_ok (vd_data (dr_driver dr)) \<and>
     dr_driver dr = \<lparr>vd_data = vd_data (dr_driver dr), vd_is_open = Some fat_vfs_is_open,
       vd_open = Some (fat_vfs_open crd stk_info), vd_close = Some fat_vfs_close, vd_abs_tell = Some fat_vfs_abs_tell,
       vd_seek = Some fat_vfs_seek, vd_rd = Some (fat_vfs_rd crd)\<rparr>)"

definition fat_drives :: "'w crd_fn \<Rightarrow> fat_dirent_info \<Rightarrow> (fat_driver, 'w) drive list \<Rightarrow> bool" where
  "fat_drives crd stk_info drives \<longleftrightarrow> length drives = NDRIVES \<and> (\<forall>dr \<in> set drives. fat_slot crd stk_info dr)"

text \<open>A handle that may be used: NULL, or a file number of a mounted drive.\<close>

definition handle_live :: "(fat_driver, 'w) drive list \<Rightarrow> vfs_file \<Rightarrow> bool" where
  "handle_live drives f \<longleftrightarrow> vf_drive f \<noteq> 0 \<and> fid_ok (vf_file f) \<and> is_mounted (drives ! handle_drive f)"

definition handle_usable :: "(fat_driver, 'w) drive list \<Rightarrow> vfs_file \<Rightarrow> bool" where
  "handle_usable drives f \<longleftrightarrow> vf_drive f = 0 \<or> vf_file f = 0 \<or> handle_live drives f"

text \<open>
  The path behind the number of the drive.  One without a component (as in 1: or 1:/) makes \<open>fat_vfs_open\<close> use a struct it
  never wrote, whose size may be anything: such a path may be opened only where the size that lies there is one a file can have.
\<close>

definition fs_path :: "u8 list \<Rightarrow> u8 list" where
  "fs_path path = drop (length (takeWhile (\<lambda>c. c \<noteq> 0x3a) path) + 1) path"

fun op_usable :: "fat_dirent_info \<Rightarrow> (fat_driver, 'w) drive list \<Rightarrow> file_op \<Rightarrow> bool" where
  "op_usable stk_info drives (Open stk_id path flags) \<longleftrightarrow> path_names (fs_path path) \<or> unat (di_size stk_info) < 2 ^ 32"
| "op_usable stk_info drives (Close f) \<longleftrightarrow> handle_usable drives f"
| "op_usable stk_info drives (Tell f) \<longleftrightarrow> handle_usable drives f"
| "op_usable stk_info drives (Seek f whence off) \<longleftrightarrow> handle_usable drives f"
| "op_usable stk_info drives (Read f dst n) \<longleftrightarrow> handle_usable drives f"

text \<open>The table of open files the drives stand for.\<close>

definition vfs_files :: "(fat_driver, 'w) drive list \<Rightarrow> file_table" where
  "vfs_files drives f = (if handle_live drives f then fat_view (drive_data f drives) (vf_file f) else None)"

subsection \<open>Seeking\<close>

lemma seek_pos_spec:
  assumes "fd_ok fd"
  shows "uint (seek_pos fd whence off) = seek_spec whence (uint (fd_file_pos fd)) (uint (fd_size fd)) (sint off)"
  using assms by (cases whence) (simp_all add: seek_spec_def seek_start seek_cur seek_end uint_0_iff)

lemma fat_seek_run:
  assumes ok: "fat_ok drv" and v: "fat_view drv fid = Some (p, sz)"
  shows "\<exists>drv'. fat_vfs_seek drv fid whence off = Ret (0, drv') \<and> fat_ok drv' \<and>
    fat_view drv' = (fat_view drv)(fid := Some (seek_spec whence p sz (sint off), sz))"
proof -
  let ?fd = "ft_file_descs drv ! unat (fid - 1)"
  note fv = fat_view_Some [OF v]
  have fd: "fd_ok ?fd" using ok fv(1) by (rule fat_ok_fd)
  let ?fd' = "?fd\<lparr>fd_file_pos := seek_pos ?fd whence off\<rparr>"
  have "fat_vfs_seek drv fid whence off = Ret (0, set_fd fid ?fd' drv)"
    using ok fv(1) by (simp add: fat_vfs_seek_def fat_fd_ok)
  moreover have "fat_ok (set_fd fid ?fd' drv)" using ok seek_fd_ok [OF fd] by (rule set_fd_ok)
  moreover have "fat_view (set_fd fid ?fd' drv) = (fat_view drv)(fid := Some (seek_spec whence p sz (sint off), sz))"
    using fat_view_set [OF ok fv(1), of ?fd'] fv(2-4) by (simp add: seek_pos_spec [OF fd])
  ultimately show ?thesis by blast
qed

subsection \<open>One operation\<close>

lemma handle_live_bound:
  assumes "fat_drives crd stk_info drives" and "handle_live drives f"
  shows "handle_ok f drives" "handle_drive f < length drives"
proof -
  have "unat (vf_drive f) < 2 ^ LENGTH(8)" by (rule unsigned_less)
  then show h: "handle_ok f drives" using assms by (auto simp: handle_ok_def handle_live_def fat_drives_def fid_ok_def)
  then show "handle_drive f < length drives" by (rule handle_drive_less)
qed

lemma live_dispatched:
  assumes "fat_drives crd stk_info drives" and "handle_live drives f"
  shows "fat.dispatched f drives" "fat_slot crd stk_info (drives ! handle_drive f)" "is_mounted (drives ! handle_drive f)"
    "vd_rd (dr_driver (drives ! handle_drive f)) = Some (fat_vfs_rd crd)"
proof -
  note b = handle_live_bound [OF assms]
  have "drives ! handle_drive f \<in> set drives" using b(2) by simp
  then show s: "fat_slot crd stk_info (drives ! handle_drive f)" using assms(1) by (simp add: fat_drives_def)
  show m: "is_mounted (drives ! handle_drive f)" using assms(2) by (simp add: handle_live_def)
  let ?dr = "dr_driver (drives ! handle_drive f)"
  have d: "?dr = \<lparr>vd_data = vd_data ?dr, vd_is_open = Some fat_vfs_is_open,
       vd_open = Some (fat_vfs_open crd stk_info), vd_close = Some fat_vfs_close, vd_abs_tell = Some fat_vfs_abs_tell,
       vd_seek = Some fat_vfs_seek, vd_rd = Some (fat_vfs_rd crd)\<rparr>" and ok: "fat_ok (vd_data ?dr)"
    using s m by (simp_all add: fat_slot_def)
  show "vd_rd ?dr = Some (fat_vfs_rd crd)" by (subst d) simp
  have "vd_is_open ?dr = Some fat_vfs_is_open" "vd_close ?dr = Some fat_vfs_close" "vd_abs_tell ?dr = Some fat_vfs_abs_tell"
    "vd_seek ?dr = Some fat_vfs_seek" by (subst d, simp)+
  then show "fat.dispatched f drives"
    using b(1) ok assms(2) by (simp add: fat.dispatched_def Let_def handle_live_def)
qed

lemma fat_slot_data: "fat_slot crd stk_info dr \<Longrightarrow> fat_ok d \<Longrightarrow>
    fat_slot crd stk_info (dr\<lparr>dr_driver := (dr_driver dr)\<lparr>vd_data := d\<rparr>\<rparr>)"
  by (cases "dr_driver dr") (auto simp: fat_slot_def is_mounted_def)

lemma mounted_set_data [simp]: "is_mounted (set_data i d drives ! j) = is_mounted (drives ! j)"
  by (cases "i < length drives"; cases "i = j") (simp_all add: set_data_def is_mounted_def list_update_beyond)

lemma live_set_data [simp]: "handle_live (set_data i d drives) = handle_live drives"
  by (simp add: handle_live_def fun_eq_iff)

lemma usable_set_data [simp]: "op_usable stk_info (set_data i d drives) x = op_usable stk_info drives x"
  by (cases x) (simp_all add: handle_usable_def)

lemma fat_drives_set:
  assumes "fat_drives crd stk_info drives" and "i < length drives" and "fat_ok d"
  shows "fat_drives crd stk_info (set_data i d drives)"
  using assms set_update_subset_insert [of drives i] fat_slot_data [of crd stk_info "drives ! i" d]
  unfolding fat_drives_def set_data_def by (simp add: subset_iff) (metis nth_mem)

text \<open>New data of a drive in which at most one file changes.\<close>

lemma vfs_files_set:
  assumes fd: "fat_drives crd stk_info drives" and i: "i < length drives" "is_mounted (drives ! i)" and f: "vf_drive f \<noteq> 0" "handle_drive f = i"
    and v: "fat_view d = (fat_view (vd_data (dr_driver (drives ! i))))(vf_file f := x)"
  shows "vfs_files (set_data i d drives) = (vfs_files drives)(f := if fid_ok (vf_file f) then x else None)"
proof
  fix g :: vfs_file
  have len: "length drives = 255" using fd by (simp add: fat_drives_def)
  show "vfs_files (set_data i d drives) g = ((vfs_files drives)(f := if fid_ok (vf_file f) then x else None)) g"
  proof (cases "handle_drive g = i \<and> vf_drive g \<noteq> 0")
    case True
    then have "unat (vf_drive g) = unat (vf_drive f)"
      using f by (simp add: handle_drive_def) (metis Suc_pred unat_gt_0)
    then have "g = f \<longleftrightarrow> vf_file g = vf_file f" by (cases g; cases f) (simp add: word_unat_eq_iff)
    then show ?thesis using True i f v
      by (auto simp: vfs_files_def drive_data_def set_data_at(1) handle_live_def)
  next
    case False
    then have "g \<noteq> f" using f by auto
    moreover have "vfs_files (set_data i d drives) g = vfs_files drives g"
      using False i by (cases "vf_drive g = 0") (simp_all add: vfs_files_def drive_data_def set_data_at(2) handle_live_def)
    ultimately show ?thesis by simp
  qed
qed


lemma live_handle_at:
  "handle_live drives f \<Longrightarrow> vf_drive f \<noteq> 0 \<and> fid_ok (vf_file f) \<and> vfs_files drives f = fat_view (drive_data f drives) (vf_file f)"
  by (simp add: vfs_files_def handle_live_def)

lemma dead_check:
  assumes "vf_drive f = 0 \<or> vf_file f = 0"
  shows "vfs_check f drives = Ret None" "vfs_files drives' f = None"
  using assms by (auto simp: vfs_check_def vfs_files_def handle_live_def fid_ok_def)

text \<open>A change of one file of a live handle is a change of the table at this handle.\<close>

lemma vfs_files_upd:
  assumes fd: "fat_drives crd stk_info drives" and l: "handle_live drives f" and ok: "fat_ok d"
    and v: "fat_view d = (fat_view (drive_data f drives))(vf_file f := x)"
  shows "fat_drives crd stk_info (set_data (handle_drive f) d drives)"
    "vfs_files (set_data (handle_drive f) d drives) = (vfs_files drives)(f := x)"
proof -
  note b = handle_live_bound [OF fd l]
  show "fat_drives crd stk_info (set_data (handle_drive f) d drives)" by (rule fat_drives_set [OF fd b(2) ok])
  have "is_mounted (drives ! handle_drive f)" "vf_drive f \<noteq> 0" "fid_ok (vf_file f)" using l by (simp_all add: handle_live_def)
  then show "vfs_files (set_data (handle_drive f) d drives) = (vfs_files drives)(f := x)"
    using vfs_files_set [OF fd b(2), of f d x] v by (simp add: drive_data_def)
qed

lemma vfs_close_session:
  assumes fd: "fat_drives crd stk_info drives" and u: "handle_usable drives f"
  shows "\<exists>rc drives'. vfs_close f drives = Ret (rc, drives') \<and> fat_drives crd stk_info drives' \<and>
    handle_live drives' = handle_live drives \<and> file_step (vfs_files drives) (Close f) (Code rc) (vfs_files drives')"
proof (cases "vf_drive f = 0 \<or> vf_file f = 0")
  case True
  then have "vfs_close f drives = Ret (1, drives)" by (simp add: vfs_close_def dead_check(1))
  then show ?thesis using fd dead_check(2) [OF True] by (auto intro: close_no)
next
  case False
  then have l: "handle_live drives f" using u by (simp add: handle_usable_def)
  note d = live_dispatched(1) [OF fd l] and at = live_handle_at [OF l]
  show ?thesis
  proof (cases "fat_view (drive_data f drives) (vf_file f) = None")
    case True
    then show ?thesis using fat.vfs_closed_refused(1) [OF d True] fd at by (auto intro: close_no)
  next
    case False
    obtain d' where c: "fat_vfs_close (drive_data f drives) (vf_file f) = Ret (0, d')" "fat_ok d'"
      "fat_view d' = (fat_view (drive_data f drives))(vf_file f := None)"
      using fat.close_law [OF fat.dispatched_ok [OF d] False] by blast
    have "vfs_close f drives = Ret (0, set_data (handle_drive f) d' drives)"
      using d False c(1) by (auto simp: vfs_close_def fat.vfs_check_dispatched) (simp add: fat.dispatched_def Let_def drive_data_def)
    then show ?thesis using vfs_files_upd [OF fd l c(2,3)] False at close_open [of "vfs_files drives" f] by auto
  qed
qed

lemma vfs_tell_session:
  assumes fd: "fat_drives crd stk_info drives" and u: "handle_usable drives f"
  shows "\<exists>rc pos. vfs_abs_tell f drives = Ret (rc, pos) \<and> file_step (vfs_files drives) (Tell f) (Told rc pos) (vfs_files drives)"
proof (cases "vf_drive f = 0 \<or> vf_file f = 0")
  case True
  then show ?thesis using dead_check(2) [OF True] by (auto simp: vfs_abs_tell_def dead_check(1) intro: tell_no)
next
  case False
  then have l: "handle_live drives f" using u by (simp add: handle_usable_def)
  note d = live_dispatched(1) [OF fd l] and at = live_handle_at [OF l]
  show ?thesis
  proof (cases "fat_view (drive_data f drives) (vf_file f)")
    case None
    then show ?thesis using fat.vfs_closed_refused(3) [OF d None] at by (auto intro: tell_no)
  next
    case (Some x)
    obtain p sz where x: "x = (p, sz)" by fastforce
    obtain v where "vfs_abs_tell f drives = Ret (0, Some v)" "uint v = p" using fat.vfs_tell_run [OF d Some [unfolded x]] by blast
    then show ?thesis using tell_open [of "vfs_files drives" f v sz] Some x at by auto
  qed
qed

lemma vfs_seek_session:
  assumes fd: "fat_drives crd stk_info drives" and u: "handle_usable drives f"
  shows "\<exists>rc drives'. vfs_seek f whence off drives = Ret (rc, drives') \<and> fat_drives crd stk_info drives' \<and>
    handle_live drives' = handle_live drives \<and> file_step (vfs_files drives) (Seek f whence off) (Code rc) (vfs_files drives')"
proof (cases "vf_drive f = 0 \<or> vf_file f = 0")
  case True
  then have "vfs_seek f whence off drives = Ret (1, drives)" by (simp add: vfs_seek_def dead_check(1))
  then show ?thesis using fd dead_check(2) [OF True] by (auto intro: seek_no)
next
  case False
  then have l: "handle_live drives f" using u by (simp add: handle_usable_def)
  note d = live_dispatched(1) [OF fd l] and at = live_handle_at [OF l]
  show ?thesis
  proof (cases "fat_view (drive_data f drives) (vf_file f)")
    case None
    then show ?thesis using fat.vfs_closed_refused(2) [OF d None] fd at by (auto intro: seek_no)
  next
    case (Some x)
    obtain p sz where x: "x = (p, sz)" by fastforce
    obtain d' where c: "fat_vfs_seek (drive_data f drives) (vf_file f) whence off = Ret (0, d')" "fat_ok d'"
      "fat_view d' = (fat_view (drive_data f drives))(vf_file f := Some (seek_spec whence p sz (sint off), sz))"
      using fat_seek_run [OF fat.dispatched_ok [OF d] Some [unfolded x]] by blast
    have "vfs_seek f whence off drives = Ret (0, set_data (handle_drive f) d' drives)"
      using d Some c(1) by (simp add: vfs_seek_def fat.vfs_check_dispatched) (simp add: fat.dispatched_def Let_def drive_data_def)
    then show ?thesis using vfs_files_upd [OF fd l c(2,3)] Some x at seek_open [of "vfs_files drives" f p sz whence off] by auto
  qed
qed

text \<open>A read moves nothing: not the position either.\<close>

lemma fat_rd_files:
  assumes ok: "fat_ok drv" and v: "fat_view drv fid = Some (p, sz)"
    and r: "fat_vfs_rd crd drv fid dst n w = Ret (rc, out, drv', w')"
  shows "ft_file_descs drv' = ft_file_descs drv \<and> p \<le> sz \<and> (p = sz \<longrightarrow> rc = 1 \<and> out = dst) \<and> (rc = 0 \<or> rc = 1)"
proof -
  let ?fd = "ft_file_descs drv ! unat (fid - 1)"
  note fv = fat_view_Some [OF v]
  note i = fd_ok_ints [OF fat_ok_fd [OF ok fv(1)]]
  have "fd_file_pos ?fd \<ge> fd_size ?fd \<longleftrightarrow> p = sz" using i fv(3,4) by (auto simp: word_le_def)
  then show ?thesis using r fat_fd_ok [OF ok fv(1)] i(2) fv(3,4)
    by (auto simp: fat_vfs_rd_def seq_Ret_iff Let_def split: if_splits)
qed

lemma vfs_rd_session:
  assumes fd: "fat_drives crd stk_info drives" and u: "handle_usable drives f"
    and r: "vfs_rd f dst n drives w = Ret (rc, out, drives', w')"
  shows "fat_drives crd stk_info drives' \<and> handle_live drives' = handle_live drives \<and>
    file_step (vfs_files drives) (Read f dst n) (Bytes rc out) (vfs_files drives')"
proof (cases "vf_drive f = 0 \<or> vf_file f = 0")
  case True
  then have "rc = 1" "out = dst" "drives' = drives" using r by (simp_all add: vfs_rd_def dead_check(1))
  then show ?thesis using fd dead_check(2) [OF True] by (auto intro: read_no)
next
  case False
  then have l: "handle_live drives f" using u by (simp add: handle_usable_def)
  note d = live_dispatched [OF fd l] and at = live_handle_at [OF l]
  show ?thesis
  proof (cases "fat_view (drive_data f drives) (vf_file f)")
    case None
    then show ?thesis using fat.vfs_closed_refused(4) [OF d(1) None] r fd at by (auto intro: read_no)
  next
    case (Some x)
    obtain p sz where x: "x = (p, sz)" by fastforce
    note s = Some [unfolded x]
    obtain rc' d' where c: "fat_vfs_rd crd (drive_data f drives) (vf_file f) dst n w = Ret (rc', out, d', w')"
      "rc = (if rc' \<noteq> 0 then 1 else 0)" "drives' = set_data (handle_drive f) d' drives"
      using r d(1,4) s by (auto simp: vfs_rd_def fat.vfs_check_dispatched seq_Ret_iff drive_data_def)
    note ok = fat.dispatched_ok [OF d(1)]
    note rd = fat_rd_files [OF ok s c(1)]
    have v: "fat_view d' = (fat_view (drive_data f drives))(vf_file f := Some (p, sz))" "fat_ok d'"
      using fat_view_descs [of d' "drive_data f drives"] rd ok s by (auto simp: fun_eq_iff)
    note up = vfs_files_upd [OF fd l v(2,1)]
    have "vfs_files drives' = vfs_files drives" unfolding c(3) up(2) using s at by (simp add: fun_upd_idem)
    moreover have "file_step (vfs_files drives) (Read f dst n) (Bytes rc out) (vfs_files drives)"
      using read_open [of "vfs_files drives" f p sz rc] read_end [of "vfs_files drives" f p sz] at s rd c(2)
      by (cases "p = sz") auto
    ultimately show ?thesis using up(1) c(3) by simp
  qed
qed

lemma fat_open_files:
  assumes r: "fat_vfs_open crd stk_info drv path flags w = Ret (fid, drv', w')" and sz: "path_names path \<or> unat (di_size stk_info) < 2 ^ 32"
    and ok: "fat_ok drv"
  shows "fat_ok drv' \<and> (if fid = 0 then fat_view drv' = fat_view drv
    else fid_ok fid \<and> fat_view drv fid = None \<and> (\<exists>n. 0 \<le> n \<and> n < 2 ^ 32 \<and> fat_view drv' = (fat_view drv)(fid := Some (0, n))))"
proof -
  obtain drv1 where d1: "ft_file_descs drv1 = ft_file_descs drv"
    and c: "fid = 0 \<and> drv' = drv1 \<or> (\<exists>info. unat (di_size info) < 2 ^ 32 \<and> open_file info flags drv1 = (fid, drv'))"
    using fat_vfs_open_file [OF r sz] by blast
  have v1: "fat_view drv1 = fat_view drv" "fat_ok drv1" using fat_view_descs [OF d1] ok by simp_all
  from c show ?thesis
  proof (elim disjE exE conjE)
    assume "fid = 0" "drv' = drv1"
    then show ?thesis using v1 by simp
  next
    fix info assume i: "unat (di_size info) < 2 ^ 32" "open_file info flags drv1 = (fid, drv')"
    have "int (unat (di_size info)) < int (2 ^ 32)" using i(1) by (simp only: of_nat_less_iff)
    then have "0 \<le> uint (di_size info) \<and> uint (di_size info) < 2 ^ 32" by simp
    note b = this and o = open_file_correct [OF v1(2) i, unfolded v1(1)]
    show ?thesis
    proof (cases "fid = 0")
      case True
      then show ?thesis using o v1 by metis
    next
      case False
      then show ?thesis using o b unfolding if_not_P [OF False] by blast
    qed
  qed
qed

text \<open>An open goes to a mounted drive, or does nothing.\<close>

lemma vfs_open_Ret:
  assumes "vfs_open stk_id path flags drives w = Ret (res, drives', w')"
  obtains "res = None" "drives' = drives" "w' = w"
  | i opn fid d where "i < NDRIVES" "is_mounted (drives ! i)" "vd_open (dr_driver (drives ! i)) = Some opn"
      "opn (vd_data (dr_driver (drives ! i))) (fs_path path) flags w = Ret (fid, d, w')" "drives' = set_data i d drives"
      "res = (if fid = 0 then None else Some \<lparr>vf_drive = of_nat (i + 1), vf_file = fid\<rparr>)"
proof (cases "res = None \<and> drives' = drives \<and> w' = w")
  case False
  define cnt where "cnt = length (takeWhile (\<lambda>c. c \<noteq> 0x3a) path)"
  note r = assms [unfolded vfs_open_def Let_def, folded cnt_def]
  have c: "\<not> (cnt = 0 \<or> cnt > 3)" using r False by (cases "cnt = 0 \<or> cnt > 3") simp_all
  note r1 = r [unfolded if_not_P [OF c]]
  obtain k where k: "parse_drive (take cnt path) stk_id = Some k"
    using r1 False by (cases "parse_drive (take cnt path) stk_id") simp_all
  note r2 = r1 [unfolded k option.case]
  have k2: "\<not> (k < 1 \<or> k > int NDRIVES)" using r2 False by (cases "k < 1 \<or> k > int NDRIVES") simp_all
  note r3 = r2 [unfolded if_not_P [OF k2]]
  have m: "is_mounted (drives ! nat (k - 1))" using r3 False by (cases "is_mounted (drives ! nat (k - 1))") simp_all
  have l: "cnt \<noteq> length path" using r3 m by (cases "cnt = length path") simp_all
  obtain opn where o: "vd_open (dr_driver (drives ! nat (k - 1))) = Some opn"
    using r3 m l by (cases "vd_open (dr_driver (drives ! nat (k - 1)))") simp_all
  obtain fid d where d: "opn (vd_data (dr_driver (drives ! nat (k - 1)))) (drop (cnt + 1) path) flags w = Ret (fid, d, w')"
    "drives' = set_data (nat (k - 1)) d drives" "res = (if fid = 0 then None else Some \<lparr>vf_drive = of_int k, vf_file = fid\<rparr>)"
    using r3 m l o by (auto simp: seq_Ret_iff split: if_splits)
  have p: "drop (cnt + 1) path = fs_path path" by (simp add: fs_path_def cnt_def)
  have "int (nat (k - 1) + 1) = k" using k2 by simp
  then have e: "(of_nat (nat (k - 1) + 1) :: u8) = of_int k" by (metis of_int_of_nat_eq)
  have "nat (k - 1) < NDRIVES" using k2 by linarith
  then show thesis by (rule that(2) [OF _ m o d(1) [unfolded p] d(2) d(3) [folded e]])
qed (use that(1) in blast)

lemma vfs_open_session:
  assumes fd: "fat_drives crd stk_info drives" and r: "vfs_open stk_id path flags drives w = Ret (res, drives', w')"
    and sz: "path_names (fs_path path) \<or> unat (di_size stk_info) < 2 ^ 32"
  shows "fat_drives crd stk_info drives' \<and> handle_live drives' = handle_live drives \<and>
    (\<forall>f. res = Some f \<longrightarrow> handle_live drives f) \<and>
    file_step (vfs_files drives) (Open stk_id path flags) (Opened res) (vfs_files drives')"
  using r
proof (cases rule: vfs_open_Ret)
  case 1
  then show ?thesis using fd by (auto intro: open_no)
next
  case (2 i opn fid d)
  have len: "length drives = 255" using fd by (simp add: fat_drives_def)
  have i: "i < length drives" using 2(1) len by simp
  have "fat_slot crd stk_info (drives ! i)" using fd i by (simp add: fat_drives_def)
  let ?dr = "dr_driver (drives ! i)"
  have dr: "?dr = \<lparr>vd_data = vd_data ?dr, vd_is_open = Some fat_vfs_is_open,
       vd_open = Some (fat_vfs_open crd stk_info), vd_close = Some fat_vfs_close, vd_abs_tell = Some fat_vfs_abs_tell,
       vd_seek = Some fat_vfs_seek, vd_rd = Some (fat_vfs_rd crd)\<rparr>" and ok: "fat_ok (vd_data ?dr)"
    using \<open>fat_slot crd stk_info (drives ! i)\<close> 2(2) by (simp_all add: fat_slot_def)
  have "vd_open ?dr = Some (fat_vfs_open crd stk_info)" by (subst dr) simp
  then have o: "fat_vfs_open crd stk_info (vd_data ?dr) (fs_path path) flags w = Ret (fid, d, w')" using 2(3,4) by simp
  note op = fat_open_files [OF o sz ok]
  let ?f = "\<lparr>vf_drive = of_nat (i + 1), vf_file = fid\<rparr>"
  have u: "unat (of_nat (i + 1) :: u8) = i + 1" using 2(1) by (simp add: unat_of_nat del: of_nat_add of_nat_Suc)
  then have nz: "vf_drive ?f \<noteq> 0" by (metis add_is_0 one_neq_zero unat_0 vfs_file.select_convs(1))
  have h: "handle_drive ?f = i" using u by (simp add: handle_drive_def)
  have fd': "fat_drives crd stk_info drives'" unfolding 2(5) using fat_drives_set [OF fd i] op by blast
  show ?thesis
  proof (cases "fid = 0")
    case True
    have "vfs_files (set_data i d drives) = vfs_files drives"
    proof
      fix g
      show "vfs_files (set_data i d drives) g = vfs_files drives g"
        using op True set_data_at [OF i, where d = d]
        by (cases "handle_drive g = i") (simp_all add: vfs_files_def drive_data_def)
    qed
    then show ?thesis using fd' 2(5,6) True by (simp add: open_no)
  next
    case False
    then obtain n where n: "0 \<le> n" "n < 2 ^ 32" "fat_view d = (fat_view (vd_data ?dr))(fid := Some (0, n))"
      and f: "fid_ok fid" "fat_view (vd_data ?dr) fid = None" using op by auto
    have live: "handle_live drives ?f" using nz f(1) h 2(2) by (simp add: handle_live_def)
    have "vfs_files drives ?f = None" using f(2) h by (simp add: vfs_files_def drive_data_def)
    moreover have "vfs_files drives' = (vfs_files drives)(?f := Some (0, n))"
      using vfs_files_set [OF fd i 2(2) nz h, of d "Some (0, n)"] n(3) f(1) 2(5) by simp
    ultimately show ?thesis using fd' live 2(5,6) False open_new [of "vfs_files drives" ?f n stk_id path flags] n by simp
  qed
qed

subsection \<open>Sessions\<close>

fun on_disk :: "file_op \<Rightarrow> bool" where
  "on_disk (Open stk_id path flags) = True"
| "on_disk (Read f dst n) = True"
| "on_disk _ = False"

lemma usable_live: "handle_live drives' = handle_live drives \<Longrightarrow> op_usable stk_info drives' x = op_usable stk_info drives x"
  by (cases x) (simp_all add: handle_usable_def)

lemma vfs_do_total:
  assumes "fat_drives crd stk_info drives" and "op_usable stk_info drives x" and "\<not> on_disk x"
  shows "\<exists>r drives' w'. vfs_do x drives w = Ret (r, drives', w')"
proof (cases x)
  case (Close f)
  then show ?thesis using vfs_close_session [OF assms(1), of f] assms(2) by auto
next
  case (Tell f)
  then show ?thesis using vfs_tell_session [OF assms(1), of f] assms(2) by auto
next
  case (Seek f whence off)
  then show ?thesis using vfs_seek_session [OF assms(1), of f whence off] assms(2) by auto
qed (use assms(3) in simp_all)

lemma vfs_do_session:
  assumes fd: "fat_drives crd stk_info drives" and u: "op_usable stk_info drives x" and r: "vfs_do x drives w = Ret (r, drives', w')"
  shows "fat_drives crd stk_info drives' \<and> handle_live drives' = handle_live drives \<and>
    file_step (vfs_files drives) x r (vfs_files drives') \<and> (\<forall>f. r = Opened (Some f) \<longrightarrow> handle_live drives f)"
proof (cases x)
  case (Open stk_id path flags)
  then show ?thesis using r u vfs_open_session [OF fd, of stk_id path flags w] by (auto simp: seq_Ret_iff)
next
  case (Close f)
  then show ?thesis using r u vfs_close_session [OF fd, of f] by (auto simp: seq_Ret_iff)
next
  case (Tell f)
  then show ?thesis using r u fd vfs_tell_session [OF fd, of f] by (auto simp: seq_Ret_iff)
next
  case (Seek f whence off)
  then show ?thesis using r u vfs_seek_session [OF fd, of f whence off] by (auto simp: seq_Ret_iff)
next
  case (Read f dst n)
  then show ?thesis using r u vfs_rd_session [OF fd, of f] by (auto simp: seq_Ret_iff)
qed

lemma vfs_session_run:
  assumes "fat_drives crd stk_info drives" and "\<forall>x \<in> set ops. op_usable stk_info drives x"
    and "vfs_session ops drives w = Ret (rs, drives', w')"
  shows "fat_drives crd stk_info drives' \<and> file_steps (vfs_files drives) ops rs (vfs_files drives') \<and>
    (\<forall>f. Opened (Some f) \<in> set rs \<longrightarrow> handle_live drives f)"
  using assms
proof (induction ops arbitrary: drives w rs)
  case Nil
  then show ?case by (simp add: steps_nil)
next
  case (Cons x ops)
  obtain r drives1 w1 rs1 where c: "vfs_do x drives w = Ret (r, drives1, w1)"
    "vfs_session ops drives1 w1 = Ret (rs1, drives', w')" "rs = r # rs1"
    using Cons.prems(3) by (auto simp: seq_Ret_iff)
  have s: "fat_drives crd stk_info drives1" "handle_live drives1 = handle_live drives"
    "file_step (vfs_files drives) x r (vfs_files drives1)" "\<forall>f. r = Opened (Some f) \<longrightarrow> handle_live drives f"
    using vfs_do_session [OF Cons.prems(1) _ c(1)] Cons.prems(2) by simp_all
  have "\<forall>x \<in> set ops. op_usable stk_info drives1 x" using Cons.prems(2) usable_live [OF s(2)] by simp
  from Cons.IH [OF s(1) this c(2)] show ?case using steps_cons [OF s(3)] s(2,4) c(3) by auto
qed

lemma vfs_session_total:
  assumes "fat_drives crd stk_info drives" and "\<forall>x \<in> set ops. op_usable stk_info drives x" and "\<forall>x \<in> set ops. \<not> on_disk x"
  shows "\<exists>rs drives' w'. vfs_session ops drives w = Ret (rs, drives', w')"
  using assms
proof (induction ops arbitrary: drives w)
  case (Cons x ops)
  obtain r drives1 w1 where c: "vfs_do x drives w = Ret (r, drives1, w1)"
    using vfs_do_total [OF Cons.prems(1)] Cons.prems(2,3) by fastforce
  have s: "fat_drives crd stk_info drives1" "handle_live drives1 = handle_live drives"
    using vfs_do_session [OF Cons.prems(1) _ c] Cons.prems(2) by simp_all
  have "\<forall>x \<in> set ops. op_usable stk_info drives1 x" using Cons.prems(2) usable_live [OF s(2)] by simp
  from Cons.IH [OF s(1) this, of w1] show ?case using c Cons.prems(3) by fastforce
qed simp

subsection \<open>The drives that mounting makes\<close>

lemma fat_create_files:
  assumes "fat_driver_create kalloc junk stk r s = Ret (Some drv, s')"
  shows "fat_ok drv \<and> fat_view drv = (\<lambda>_. None)"
proof -
  have "ft_file_descs drv = replicate 128 fd_closed"
    using assms by (auto simp: fat_driver_create_def seq_Ret_iff Let_def split: if_splits)
  then have d: "ft_file_descs drv = ft_file_descs ram_fat" by (simp add: ram_fat_def)
  have "fat_view ram_fat fid = None" for fid
    by (simp add: fat_view_def ram_fat_def fd_closed_def Let_def fid_ok_unat)
  then show ?thesis using fat_view_descs [OF d] ram_fat_ok by (simp add: fun_eq_iff)
qed

text \<open>A mount adds no open file.\<close>

lemma vfs_mount_files:
  assumes fd: "fat_drives (blk_cache_rd (me_kalloc env) (me_junk env)) (me_info env) drives"
    and m: "vfs_mount env r fs drives s = Ret (drive_id, drives', s')"
  shows "fat_drives (blk_cache_rd (me_kalloc env) (me_junk env)) (me_info env) drives' \<and> vfs_files drives' = vfs_files drives"
proof (cases "drives' = drives")
  case True
  then show ?thesis using fd by simp
next
  case False
  let ?crd = "blk_cache_rd (me_kalloc env) (me_junk env)"
  have n: "vfs_get_mount_fs drives r = VF_NULL" using m False by (cases "vfs_get_mount_fs drives r") (simp_all add: vfs_mount_def)
  obtain i where i: "vfs_find_slot drives 0 = Some i"
    using m False n by (cases "vfs_find_slot drives 0") (simp_all add: vfs_mount_def)
  have fs: "fs = VF_FAT_16" using m False n i by (cases fs) (simp_all add: vfs_mount_def)
  obtain drv s1 where c: "fat_driver_create (me_kalloc env) (me_junk env) (me_stk env) r s = Ret (Some drv, s1)"
    and d: "\<exists>dr. fat_vfs_fs_driver_create (me_kalloc env) ?crd (me_info env) drv s1 = Ret (dr, s') \<and>
      drives' = drives[i := \<lparr>dr_driver = dr, dr_blkdev = Some r, dr_fs = fs, dr_flags = DF_MOUNTED\<rparr>]"
    using m False n i fs by (auto simp: vfs_mount_def seq_Ret_iff split: option.splits)
  let ?dr = "\<lparr>vd_data = drv, vd_is_open = Some fat_vfs_is_open, vd_open = Some (fat_vfs_open ?crd (me_info env)),
                vd_close = Some fat_vfs_close, vd_abs_tell = Some fat_vfs_abs_tell, vd_seek = Some fat_vfs_seek,
                vd_rd = Some (fat_vfs_rd ?crd)\<rparr>"
  let ?d = "\<lparr>dr_driver = ?dr, dr_blkdev = Some r, dr_fs = fs, dr_flags = DF_MOUNTED\<rparr>"
  have d': "drives' = drives[i := ?d]"
    using d by (auto simp: fat_vfs_fs_driver_create_def seq_Ret_iff split: if_splits)
  note f = fat_create_files [OF c]
  have b: "i < length drives" "\<not> is_mounted (drives ! i)" using vfs_find_slot_Some [OF i] by simp_all
  have "fat_slot ?crd (me_info env) ?d" using f by (simp add: fat_slot_def)
  then have "fat_drives ?crd (me_info env) drives'"
    using fd set_update_subset_insert [of drives i ?d] unfolding fat_drives_def d' by auto
  moreover have "vfs_files drives' g = vfs_files drives g" for g
    using f b by (cases "handle_drive g = i") (simp_all add: vfs_files_def handle_live_def drive_data_def d')
  ultimately show ?thesis by blast
qed

lemma try_mount_files:
  assumes fd: "fat_drives (blk_cache_rd (me_kalloc env) (me_junk env)) (me_info env) (fst st)"
    and m: "try_mount env r st = Ret st'"
  shows "fat_drives (blk_cache_rd (me_kalloc env) (me_junk env)) (me_info env) (fst st') \<and> vfs_files (fst st') = vfs_files (fst st)"
proof -
  obtain drives s where st: "st = (drives, s)" by (cases st)
  obtain bd where bd: "bd_get r s = Ret bd" using m st by (auto simp: try_mount_def seq_Ret_iff)
  note m1 = m [unfolded try_mount_def st prod.case bd seq.simps]
  show ?thesis
  proof (cases "bd_dev_type bd = BDT_DISK_DRIVE")
    case True
    then obtain rc s1 where v: "fat_verify (me_stk env) r s = Ret (rc, s1)" using m1 by (auto simp: seq_Ret_iff)
    show ?thesis
    proof (cases "rc = 0")
      case True
      then obtain drive_id drives' s2 where "vfs_mount env r VF_FAT_16 drives s1 = Ret (drive_id, drives', s2)" "st' = (drives', s2)"
        using m1 v \<open>bd_dev_type bd = BDT_DISK_DRIVE\<close> by (auto simp: seq_Ret_iff)
      then show ?thesis using vfs_mount_files fd st by fastforce
    next
      case False
      then show ?thesis using m1 v \<open>bd_dev_type bd = BDT_DISK_DRIVE\<close> fd st by auto
    qed
  next
    case False
    then show ?thesis using m1 fd st by auto
  qed
qed

lemma vfs_auto_mount_files:
  assumes fd: "fat_drives (blk_cache_rd (me_kalloc env) (me_junk env)) (me_info env) (fst st)"
    and m: "vfs_auto_mount env st = Ret st'"
  shows "fat_drives (blk_cache_rd (me_kalloc env) (me_junk env)) (me_info env) (fst st') \<and> vfs_files (fst st') = vfs_files (fst st)"
    (is "?P (fst st')")
proof (rule for_each_inv [OF m [unfolded vfs_auto_mount_def], where P = "\<lambda>t. ?P (fst t)"])
  show "?P (fst st)" using fd by simp
  fix i u v assume p: "?P (fst u)" and t: "try_mount_tree env i u = Ret v"
  obtain u1 where u1: "try_mount env (Dev i) u = Ret u1"
    "for_each (map (Part i) [0..<bd_nchildren (Dev i) (dk_slots (snd u1))]) (try_mount env) u1 = Ret v"
    using t by (auto simp: try_mount_tree_def seq_Ret_iff)
  have "?P (fst u1)" using try_mount_files [OF _ u1(1)] p by simp
  have step: "?P (fst b)" if "?P (fst a)" "try_mount env r a = Ret b" for r a b
    using try_mount_files [OF _ that(2)] that(1) by simp
  show "?P (fst v)" by (rule for_each_inv [OF u1(2), where P = "\<lambda>t. ?P (fst t)", OF \<open>?P (fst u1)\<close> step])
qed

subsection \<open>Properties\<close>

text \<open>
  C7: a session is a run of the table of open files.  Whatever operations a client makes on the mounted FAT
  drives, with handles of file numbers of mounted drives or NULL, and with paths that name something behind the number of
  the drive (opening a path without a component, such as 1:, takes the size of a struct on the stack that was never
  written, and is allowed only where the value there is below 4 GiB): when the session returns, its results are a run
  of the specification from the files open before to the files open after, the table of drives keeps its form, and every
  handle it returned is one to go on with.  A session that does not touch the disk always returns.
\<close>
theorem vfs_session_refines:
  assumes "fat_drives crd stk_info drives" and "\<forall>x \<in> set ops. op_usable stk_info drives x"
  shows "case vfs_session ops drives w of
      Ret (rs, drives', w') \<Rightarrow> fat_drives crd stk_info drives' \<and>
        file_steps (vfs_files drives) ops rs (vfs_files drives') \<and> (\<forall>f. Opened (Some f) \<in> set rs \<longrightarrow> handle_live drives f)
    | _ \<Rightarrow> \<exists>x \<in> set ops. on_disk x"
proof (cases "vfs_session ops drives w")
  case (Ret x)
  then show ?thesis using vfs_session_run [OF assms, of w] by (cases x) simp
qed (use vfs_session_total [OF assms, of w] in auto)

text \<open>The drives of the image in memory, in a table of the kernel's size.\<close>

definition ram_table :: "(fat_driver, unit) drive list" where
  "ram_table = replicate 255 (hd ram_drives)"

lemma ram_table_drives: "fat_drives (ram_crd ram_dir) no_info ram_table"
  using ram_open_ok by (simp add: fat_drives_def ram_table_def fat_slot_def ram_drives_def ram_vfs_driver_def)

lemma ram_table_file: "handle_live ram_table ram_file" "vfs_files ram_table ram_file = Some (3, 5)"
proof -
  show l: "handle_live ram_table ram_file"
    by (simp add: handle_live_def ram_table_def ram_file_def ram_drives_def is_mounted_def handle_drive_def fid_ok_def)
  show "vfs_files ram_table ram_file = Some (3, 5)"
    using ram_open_view ram_data l by (simp add: vfs_files_def drive_data_def ram_table_def ram_drives_def handle_drive_def ram_file_def)
qed

inductive_cases file_steps_ConsE: "file_steps T (x # xs) rs T'"
inductive_cases file_steps_NilE: "file_steps T [] rs T'"
inductive_cases file_step_CloseE: "file_step T (Close f) r T'"
inductive_cases file_step_TellE: "file_step T (Tell f) r T'"
inductive_cases file_step_SeekE: "file_step T (Seek f whence off) r T'"

theorem vfs_session_refines_witness:
  "\<exists>v drives'. vfs_session [Seek ram_file VW_CUR 1, Tell ram_file, Close ram_file, Tell ram_file] ram_table () =
     Ret ([Code 0, Told 0 (Some v), Code 0, Told 1 None], drives', ()) \<and> uint v = 4"
proof -
  let ?ops = "[Seek ram_file VW_CUR 1, Tell ram_file, Close ram_file, Tell ram_file]"
  have u: "\<forall>x \<in> set ?ops. op_usable no_info ram_table x" using ram_table_file(1) by (simp add: handle_usable_def)
  note r = vfs_session_refines [OF ram_table_drives u, of "()"]
  then obtain rs drives' w' where s: "vfs_session ?ops ram_table () = Ret (rs, drives', w')"
    by (cases "vfs_session ?ops ram_table ()") auto
  have "file_steps (vfs_files ram_table) ?ops rs (vfs_files drives')" using r unfolding s by simp
  then obtain v where "rs = [Code 0, Told 0 (Some v), Code 0, Told 1 None]" "uint v = 4"
    using ram_table_file(2)
    by (auto elim!: file_steps_ConsE file_steps_NilE file_step_CloseE file_step_TellE file_step_SeekE simp: seek_spec_def clamp_def)
  then show ?thesis using s by simp
qed

text \<open>The table of drives before mounting.\<close>

lemma free_table: "\<forall>dr \<in> set (replicate 255 free_drive). \<not> is_mounted dr"
  by (simp add: is_mounted_def free_drive_def)

lemma free_drives: "fat_drives (blk_cache_rd (me_kalloc fat_env) (me_junk fat_env)) (me_info fat_env) (replicate 255 free_drive)"
  by (simp add: fat_drives_def fat_slot_def is_mounted_def free_drive_def)

text \<open>
  C19: from the start: when \<open>vfs_auto_mount\<close> returns from a table without drives, every session on what it mounted, of
  operations as in the theorem above (no path without a component, unless the size in the unwritten struct on the stack is below 4 GiB),
  starts with no file open and keeps the form of the table: mounted slots hold FAT drivers with all their functions, 128
  descriptors, and open files with a size below 4 GiB and a position inside it.
\<close>
theorem mounted_session_typed:
  assumes "length drives = NDRIVES" and "\<forall>dr \<in> set drives. \<not> is_mounted dr"
    and "vfs_auto_mount env (drives, s) = Ret (drives1, s1)" and "\<forall>x \<in> set ops. op_usable (me_info env) drives1 x"
    and "vfs_session ops drives1 s1 = Ret (rs, drives2, s2)"
  shows "fat_drives (blk_cache_rd (me_kalloc env) (me_junk env)) (me_info env) drives2 \<and>
    file_steps (\<lambda>_. None) ops rs (vfs_files drives2)"
proof -
  let ?crd = "blk_cache_rd (me_kalloc env) (me_junk env)"
  have fd: "fat_drives ?crd (me_info env) drives" using assms(1,2) by (simp add: fat_drives_def fat_slot_def)
  have len: "unat (vf_drive f) - 1 < 255" for f :: vfs_file
  proof -
    have "unat (vf_drive f) < 2 ^ LENGTH(8)" by (rule unsigned_less)
    then show ?thesis by simp
  qed
  have none: "vfs_files drives = (\<lambda>_. None)"
    using assms(1,2) nth_mem [of _ drives] len by (auto simp: vfs_files_def handle_live_def handle_drive_def fun_eq_iff)
  have m: "fat_drives ?crd (me_info env) drives1 \<and> vfs_files drives1 = vfs_files drives"
    using vfs_auto_mount_files [OF _ assms(3)] fd by simp
  show ?thesis using vfs_session_run [OF conjunct1 [OF m] assms(4,5)] m none by simp
qed

theorem mounted_session_typed_witness:
  "\<exists>k drives1 s1 drives2 f. kheap_init pmm_alloc demo_heap = Ret (0, k) \<and>
     vfs_auto_mount fat_env (replicate 255 free_drive, fat_disks k) = Ret (drives1, s1) \<and> is_mounted (drives1 ! 0) \<and>
     f = \<lparr>vf_drive = 1, vf_file = 1\<rparr> \<and>
     vfs_session [Tell f, Close f] drives1 s1 = Ret ([Told 1 None, Code 1], drives2, s1)"
proof -
  obtain k where k: "kheap_init pmm_alloc demo_heap = Ret (0, k)" "kheap_serves 2 k"
    using demo_heap_serves [of 2] by auto
  have "kheap_serves (2 * min NDRIVES (length (ata_fat_refs ra_words (fat_disks k)))) (dk_heap (fat_disks k))"
    using k(2) by (simp add: fat_disks_refs(2)) (simp add: fat_disks_def)
  moreover have "\<forall>r \<in> set (all_refs (dk_slots (fat_disks k))).
      \<not> zero_cluster (ata_mount.boot_blk ra_words (dk_slots (fat_disks k)) (dk_hw (fat_disks k)) r)"
    by (simp add: fat_disks_refs(1) fat_disks_boot boot_sector_fat(2))
  ultimately obtain drives1 s1 where m: "vfs_auto_mount fat_env (replicate 255 free_drive, fat_disks k) = Ret (drives1, s1)"
    "mounted_on drives1 [Dev 0]"
    using ata_mount.vfs_auto_mount_run [OF fat_disks_served no_drives, of fat_env k] fat_disks_refs(2) [of k]
    by (auto simp: fat_env_def ata_fat_refs_def)
  let ?f = "\<lparr>vf_drive = 1, vf_file = 1\<rparr> :: vfs_file"
  let ?ops = "[Tell ?f, Close ?f]"
  have i: "is_mounted (drives1 ! 0)" using m(2) by (simp add: mounted_on_def)
  then have "handle_live drives1 ?f" by (simp add: handle_live_def handle_drive_def fid_ok_def)
  then have u: "\<forall>x \<in> set ?ops. op_usable (me_info fat_env) drives1 x" by (simp add: handle_usable_def)
  have "fat_drives (blk_cache_rd (me_kalloc fat_env) (me_junk fat_env)) (me_info fat_env) drives1"
    using vfs_auto_mount_files [OF _ m(1), unfolded fst_conv, OF free_drives] by blast
  from vfs_session_total [OF this u] obtain rs drives2 s2 where s: "vfs_session ?ops drives1 s1 = Ret (rs, drives2, s2)"
    by fastforce
  have w: "s2 = s1" using s by (auto simp: seq_Ret_iff)
  have "file_steps (\<lambda>_. None) ?ops rs (vfs_files drives2)"
    using mounted_session_typed [OF _ free_table m(1) u s] by simp
  then have "rs = [Told 1 None, Code 1]"
    by (auto elim!: file_steps_ConsE file_steps_NilE file_step_CloseE file_step_TellE)
  then show ?thesis using k(1) m(1) i s w by blast
qed

end
