(* ===== verification/Spec2Isabelle.thy ===== *)
theory Spec2Isabelle
  imports Katomic Mem_Layout Pmm Paging Vmm Kheap Ports Blkdev Blk_Cache Ata_Pio Fat Fat_Disk Vfs
    Serial Kutil Rtc Mbr Descriptors Interrupts Block_Heap Ata_Probe Mount Files Boot
    Pmm_Smp Session
begin

section \<open>The bwuhos kernel\<close>

text \<open>
  A model of the kernel of bwuhos (src/kernel), a small x86-64 kernel in C and assembly, with the theorems
  that make it correct.  Paths are relative to src/kernel/kernel/src and include unless they start with
  arch/, which stands for src/kernel/arch/x86\_64/src/arch.

  \<^bold>\<open>The program.\<close>  The bootloader jumps to \<open>_start\<close> (main.c), which brings up the serial port, the clock, the
  memory layout, the page frame allocator, the descriptor tables and the interrupt controller, builds the
  kernel's address space and switches to it.  \<open>init_stage_2\<close> goes on there: heap, disks, partitions, file
  systems, system calls; then the processor hangs.  The components call each other downwards:
  VFS, FAT driver, block cache, block devices and partitions, ATA driver, ports; kernel heap, virtual memory, page
  tables, frame allocator; almost all of them take a spin lock around their state and print messages.
\<close>

subsection \<open>Theories and what they model\<close>

text \<open>
  \<^item> Kern\_Prelude: the C integer types as words; the outcome of a call, \<open>'a exec\<close>: it returns (\<open>Ret\<close>), never returns
    (\<open>Spin\<close>), or does what C leaves undefined, such as using NULL or an index out of range (\<open>Fault\<close>); \<open>seq\<close> composes calls;
    \<open>for_each\<close> and \<open>forever\<close> are the counted and the open loop; little-endian fields of packed structs.
  \<^item> Katomic (katomic.c, arch/aatomic.S): the spin lock, as a sequential program for the other components and as a
    transition system of any number of processors.
  \<^item> Ports (port.c, arch/port.S, the delay loop of kutil.c): in and out instructions as a parameter, the \<open>bus\<close>.
  \<^item> Serial (serial\_port.c), Kutil (kutil.c, arch/autil.c, the string instructions of arch/autil.S), Rtc (rtc.c).
  \<^item> Mem\_Layout (mem\_layout.c), Pmm (pmm.c: bitmaps and a stack of free frames), Paging (arch/paging.c, arch/paging.S),
    Vmm (vmm.c, arch/cpu.S), Kheap (kheap.c: a growing window with a linked list of blocks).
  \<^item> Descriptors (arch/gdt.c, arch/idt.c, arch/isr\_except.c, arch/pic.c, arch/arch\_master.c and their assembly),
    Interrupts (arch/isr\_common.S, arch/adef.S, arch/isr\_other.c, syscall.c).
  \<^item> Blkdev (blkdev.c), Blk\_Cache (blk\_cache.c), Ata\_Pio (ata\_pio.c and the probing loop of blkdev.c), Mbr (mbr.c),
    Fat (fat.c), Vfs (vfs.c), Boot (main.c).
  \<^item> Interfaces and compositions: Frame\_Allocator, Fs\_Driver and Block\_Heap state what clients rely on; Fat\_Disk, Ata\_Probe,
    Mount, Files and Boot compose the components.
  \<^item> Sequences and interleavings of calls: Pmm\_Smp runs \<open>pmm_alloc\<close> and \<open>pmm_free\<close> on any number of processors, each try of
    the lock and each round of a loop a step of its own (\<open>pmm_micro\<close>, \<open>smp_step\<close>); Session runs any sequence of file
    operations (\<open>vfs_session\<close>) against a table of open files (\<open>file_step\<close>).

  A static variable of a C file is a field of the record of its component, passed in and returned; a struct is a record, an
  enum a datatype; a pointer is the address as a word where the code computes with it (page tables, heap) and a
  reference where it does not (\<open>Dev i\<close> and \<open>Part i j\<close> for block devices).  Function pointers are functions in records.  A callee
  that belongs to another component is an argument where the interface allows more than one (allocators, the
  reader of the cache, consoles).  What C does not initialise is an argument as well: stack buffers, the memory behind a new
  buffer, the variable \<open>drive_id\<close>.  Polling loops are partial functions; one that never ends is \<open>Spin\<close>, so every theorem
  that gives a \<open>Ret\<close> says that the code terminates.  Nothing uses fuel.
\<close>

subsection \<open>Interfaces\<close>

text \<open>
  \<^item> \<open>frame_source\<close>, \<open>frame_allocator\<close> (Frame\_Allocator): allocation takes a frame out of a set of available ones.  Clients:
    Paging, Vmm, Kheap.  Provider: Pmm.
  \<^item> \<open>block_heap\<close> (Block\_Heap): a budget of blocks.  Clients: Ata\_Probe, Mount.  Provider: Kheap.
  \<^item> \<open>blk_driver\<close> (Blkdev): reading one block of a device.  Clients: Blk\_Cache, Mbr, Mount.  Provider: Ata\_Pio, over any bus that
    keeps the contract \<open>ata_disk\<close>.
  \<^item> \<open>byte_reader\<close> (Blk\_Cache): reading bytes inside one block.  Client: Fat.  Provider: every cache over a \<open>blk_driver\<close>
    (\<open>cached_driver\<close>, a sublocale), interpreted on the ATA disk in Fat\_Disk.
  \<^item> \<open>fs_driver\<close> (Fs\_Driver): the files of a mounted drive.  Client: Vfs.  Provider: Fat.
  \<^item> \<open>console\<close> (Serial): sending bytes.  Client: Kutil and through it the system call.  Provider: the serial port, over any UART
    that keeps \<open>uart_polls\<close> and \<open>uart_sends\<close>.
  \<^item> \<open>mounting\<close> (Mount): a disk driver and a heap together, interpreted on the ATA driver and the kernel heap.

  A disk that works (\<open>ata_ready\<close> with \<open>ata_valid\<close>, in the invariants \<open>bc_ok\<close> and \<open>served\<close>) keeps its contract and can be read in each
  of its sectors; without LBA48 it has at most \<open>2 ^ 24\<close> of them (\<open>dev_addressable\<close>), as the driver does not send bits 24 to 27
  of an address.  Only \<open>ata_reads_sector\<close> is about larger ones.

  The contracts of the hardware (\<open>ata_disk\<close>, \<open>ata_identify\<close>, \<open>uart_polls\<close>, \<open>uart_sends\<close>, \<open>cmos_ok\<close>, \<open>pics_ok\<close>) state what the
  documentation of the device says of its registers, as far as the drivers depend on it; each is shown of a device in
  memory, on which the witnesses of the theorems run the drivers.
\<close>

subsection \<open>What is shown\<close>

text \<open>
  \<^item> Memory: \<open>pmm_alloc\<close> hands out every frame at most once and none is lost until it is freed; \<open>paging_map\<close> changes the translation of one
    page and of no other, with the tables it needs taken from the available frames; \<open>vmm_init\<close> builds exactly the address
    space described by \<open>kernel_space\<close>; mapping keeps the TLB coherent; the heap's blocks never overlap and lie in memory
    that the page tables map for writing (each header the heap writes is checked against all levels of them), and requests within the window and the available memory are served.
  \<^item> Locks: mutual exclusion and progress for any number of processors.  The calls of the frame allocator, interleaved step by
    step, have the results and the effect of a sequential run in the order of their unlocks; no two processors ever hold the same
    frame, and a processor inside comes out by its own steps.
  \<^item> Disks: one sector is read by the commands of both address sizes, for each address the driver sends; ranges
    of partitions are accepted or refused as their 64 bit sums say; partitions read their part of the device and stay in it; the
    cache is coherent with the device.  \<open>blkdevs_find\<close>, \<open>mbr_find\<close> and \<open>vfs_auto_mount\<close> find, partition and mount what is
    there, in order, and \<open>init_stage_2\<close> composes them.
  \<^item> Files: the search of a directory, spread over nested loops with re-reading, equals a search in one pass over its entries; a
    file opened through its path reads the bytes on the disk; descriptors, seeking and closing follow the abstract view of
    a file as a position and a size, and every session of opens, closes, seeks and reads, from the mounting on, is a run of the
    table of open files.  A path without a component is left out where the struct it makes the driver read without writing it holds a
    size no file can have.
  \<^item> Output: \<open>ku_println\<close> sends exactly the text its message and arguments denote, numerals included.
  \<^item> Processor: the gates lead to the handlers, the heads of the interrupts and of the system call restore all registers, and the
    processor accepts the frame they return to (\<open>iret_ok\<close>) unless an error code is still on the stack, the boot
    time is the time of the clock.

  Bounds that appear in the statements: canonical addresses for the page tables; requests below 4 TiB for the heap (\<open>kh_sane\<close>), beyond which its
  sums wrap around; two pages and eight frames for a block of the budget; one block for a cached read; counts below
  \<open>2 ^ 32\<close> for the delay loop; 512 bytes for the buffers on the stack.

  Where the code does something else than it means to, the theorem says what it does; several theorems state such an
  error: a read of several sectors stores one over the other, a cached read across blocks can run past its buffer, a relative seek backwards
  ends at the end of the file, the drive number depends on an uninitialised variable, both probes of a bus identify its first
  drive, the clock swaps noon and midnight, exceptions with an error code return with a frame one
  word off, which the processor refuses, ranges of partitions that wrap around are accepted, sectors from \<open>2 ^ 24\<close> on are read from the
  wrong place.
\<close>

subsection \<open>Not modelled\<close>

text \<open>
  \<^item> Empty stubs of the source: \<open>kheap_free\<close>, \<open>kheap_realloc\<close>, \<open>fat_vfs_wr\<close>, \<open>pos_to_cluster\<close>, \<open>vfs_wr\<close>, \<open>vfs_unmount\<close>,
    \<open>vfs_unmount_all\<close>, \<open>paging_destroy_map\<close>, \<open>blkdev_unregister\<close>, \<open>blkdev_rm_part\<close>, \<open>blkdev_destroy\<close>, \<open>elf_load\<close> (elf.c, elf.h) and the
    system call that ends a program; and what only calls them.
  \<^item> Log messages: the calls of \<open>ku_println\<close> inside the components print and change nothing else; printing is modelled and
    verified on its own.
  \<^item> \<open>cpu_get_ctl_regs\<close>, with which \<open>vmm_map_cur\<close> and \<open>vmm_unmap_cur\<close> read the control registers to use \<open>cr3\<close>: the model reads the field
    \<open>cpu_cr3\<close> of the processor instead; the other control registers are used by nothing.  The bodies of the exception handlers, which are empty.
  \<^item> The bootloader and its header, whose answers (memory map, kernel addresses, processors) are arguments; the linker script and
    the build files; the program for user mode in src/os-prog.
  \<^item> The contents of heap blocks, which belong to the clients.
  \<^item> The bits for user mode and for execution in the entries above the last level of the page tables: \<open>pg_walk\<close>, the translation the
    theorems speak of, takes the flags of the last entry.  Writing is followed through all levels (\<open>pg_writable\<close>, for the
    heap); the tables \<open>vmm_init\<close> makes are all linked for writing (\<open>pg_rw\<close>), and the heap keeps them so.
  \<^item> Strings with a zero byte before their end: a string is the list of the bytes before its terminator.
  \<^item> The interleaving of processors in the components other than the lock and the frame allocator, which are sequential programs
    between lock and unlock; in the frame allocator \<open>pmm_avl\<close>, which reads a bitmap after its unlock, and orders of memory
    accesses weaker than one after the other.
\<close>

end
